(* ===== verification/Kernel_Prelude.thy ===== *)
theory Kernel_Prelude
  imports Main "HOL-Library.Word"
begin

text \<open>
  Shared vocabulary of the development: the machine integers of \<open>xv6/types.h\<close>, the result type
  of kernel operations, the pure combinators that sequence them, little-endian integers inside
  byte arrays, and the list and word lemmas that several components use.

  A kernel operation that mutates state is a function from a state to a value of type \<open>stop + 'a\<close>:
  \<open>Inr\<close> carries the result (usually a pair of a value and the new state), \<open>Inl\<close> says why control
  did not come back. \<open>Panic m\<close> is a call of \<open>panic(m)\<close>; \<open>Sleeps c\<close> is a call of \<open>sleep(c, lk)\<close>,
  where the calling process gives up the CPU until \<open>wakeup(c)\<close>; \<open>Faults m\<close> is an access outside
  the object the C code meant (a null dereference, an index past the end of an array);
  \<open>Spins\<close> is a busy-wait that only another CPU can end: \<open>acquire\<close> of a lock held elsewhere, or a
  console frozen by a panic;
  \<open>NoFuel\<close> is a loop that did not end within the bound given to it.
\<close>

unbundle bit_operations_syntax

named_theorems res_simps \<open>rewrite rules for sequenced kernel operations\<close>
named_theorems byte_simps \<open>rewrite rules for integers stored in byte arrays\<close>

section \<open>Machine integers\<close>

type_synonym u8 = "8 word"
type_synonym u16 = "16 word"
type_synonym u32 = "32 word"

section \<open>Results of kernel operations\<close>

text \<open>
  Sleep channels are addresses of kernel objects; the constructors name the objects whose
  addresses the sources pass to \<open>sleep\<close> and \<open>wakeup\<close>: \<open>&log\<close>, the sleep-lock of a buffer or of an
  inode, a process, \<open>&ticks\<close>, \<open>&input.r\<close>, and the two counters of a pipe (a pipe is named by its
  address).
\<close>

datatype chan =
    Chan_log
  | Chan_buf nat
  | Chan_inode nat
  | Chan_proc nat
  | Chan_ticks
  | Chan_input
  | Chan_nread u32
  | Chan_nwrite u32

datatype stop = Panic string | Sleeps chan | Spins | Faults string | NoFuel

type_synonym 'a res = "stop + 'a"

definition bind_r :: "'e + 'a \<Rightarrow> ('a \<Rightarrow> 'e + 'b) \<Rightarrow> 'e + 'b" where
  "bind_r m f = (case m of Inl e \<Rightarrow> Inl e | Inr x \<Rightarrow> f x)"

definition ok_r :: "'e + 'a \<Rightarrow> ('a \<Rightarrow> bool) \<Rightarrow> bool" where
  "ok_r m P = (case m of Inl e \<Rightarrow> False | Inr x \<Rightarrow> P x)"

lemma bind_r_Inl [simp, res_simps]: "bind_r (Inl e) f = Inl e"
  by (simp add: bind_r_def)

lemma bind_r_Inr [simp, res_simps]: "bind_r (Inr x) f = f x"
  by (simp add: bind_r_def)

lemma bind_r_assoc: "bind_r (bind_r m f) g = bind_r m (\<lambda>x. bind_r (f x) g)"
  by (simp add: bind_r_def split: sum.split)

lemma bind_r_eq_Inr [res_simps]: "bind_r m f = Inr y \<longleftrightarrow> (\<exists>x. m = Inr x \<and> f x = Inr y)"
  by (auto simp: bind_r_def split: sum.split)

lemma bind_r_eq_Inl: "bind_r m f = Inl e \<longleftrightarrow> m = Inl e \<or> (\<exists>x. m = Inr x \<and> f x = Inl e)"
  by (auto simp: bind_r_def split: sum.split)

lemma bind_r_cong [fundef_cong]:
  "m = m' \<Longrightarrow> (\<And>x. m' = Inr x \<Longrightarrow> f x = f' x) \<Longrightarrow> bind_r m f = bind_r m' f'"
  by (auto simp: bind_r_def split: sum.split)

lemma ok_r_Inl [simp]: "\<not> ok_r (Inl e) P"
  by (simp add: ok_r_def)

lemma ok_r_Inr [simp]: "ok_r (Inr x) P \<longleftrightarrow> P x"
  by (simp add: ok_r_def)

lemma ok_r_bind: "ok_r (bind_r m f) P \<longleftrightarrow> ok_r m (\<lambda>x. ok_r (f x) P)"
  by (auto simp: bind_r_def ok_r_def split: sum.split)

lemma ok_r_iff: "ok_r m P \<longleftrightarrow> (\<exists>x. m = Inr x \<and> P x)"
  by (auto simp: ok_r_def split: sum.split)

lemma ok_r_weaken: "ok_r m P \<Longrightarrow> (\<And>x. m = Inr x \<Longrightarrow> P x \<Longrightarrow> Q x) \<Longrightarrow> ok_r m Q"
  by (auto simp: ok_r_iff)

section \<open>Linear search\<close>

lemma find_SomeD: "find P xs = Some x \<Longrightarrow> x \<in> set xs \<and> P x"
  by (auto simp: find_Some_iff)

lemma find_ex:
  assumes "x \<in> set xs" "P x"
  obtains y where "find P xs = Some y"
  using assms by (cases "find P xs") (auto simp: find_None_iff)

section \<open>Flag bits of machine words\<close>

lemma and_pow2_eq_0_iff: "n < LENGTH('a) \<Longrightarrow> (w :: 'a::len word) AND 2 ^ n = 0 \<longleftrightarrow> \<not> bit w n"
  by (metis and_exp_eq_0_iff_not_bit)

lemma and_2_eq_0_iff [simp]: "(w :: u32) AND 2 = 0 \<longleftrightarrow> \<not> bit w 1"
  using and_pow2_eq_0_iff [of 1 w] by simp

lemma and_4_eq_0_iff [simp]: "(w :: u32) AND 4 = 0 \<longleftrightarrow> \<not> bit w 2"
  using and_pow2_eq_0_iff [of 2 w] by simp

lemma and_FF: "w AND 0xFF = take_bit 8 w" for w :: "'a::len word"
  by (simp add: take_bit_eq_mask mask_eq_exp_minus_1)

lemma unat32_lt: "unat (w :: u32) < 2 ^ 32"
  by (rule order.strict_trans2 [OF unsigned_less]) simp

lemma unat32_max [simp]: "unat (- 1 :: u32) = 2 ^ 32 - 1"
  by (simp add: unsigned_minus_1_eq_mask mask_eq_exp_minus_1)

lemma sint32: "sint w = (if uint w < 2 ^ 31 then uint w else uint w - 2 ^ 32)" for w :: u32
proof -
  have "sint w = take_bit 32 (uint w) - 2 ^ 32 * of_bool (bit (uint w) 31)"
    using signed_take_bit_eq_take_bit_minus [of 31 "uint w"] by (simp add: sint_uint)
  moreover have "take_bit 32 (uint w) = uint w" using uint_lt2p [of w] by (simp add: take_bit_eq_mod)
  moreover have "bit (uint w) 31 \<longleftrightarrow> \<not> uint w < 2 ^ 31"
  proof -
    have "0 \<le> uint w" "uint w < 2 ^ 32" using uint_lt2p [of w] by simp_all
    then have "uint w div 2 ^ 31 = (if uint w < 2 ^ 31 then 0 else 1)" 
      by (auto simp: div_pos_pos_trivial intro: int_div_pos_eq [of _ _ _ "uint w - 2 ^ 31"])
    then show ?thesis by (simp add: bit_iff_odd)
  qed
  ultimately show ?thesis by auto
qed

lemma uint_neg32: "sint w < 0 \<Longrightarrow> uint (- w) = - sint w" for w :: u32
proof -
  assume "sint w < 0"
  then have "2 ^ 31 \<le> uint w" "sint w = uint w - 2 ^ 32" by (auto simp: sint32 split: if_splits)
  moreover have "uint (- w) = - uint w mod 2 ^ 32" by (simp add: uint_word_ariths)
  moreover have "uint w mod 2 ^ 32 = uint w" using uint_lt2p [of w] by simp
  ultimately show ?thesis using zmod_zminus1_eq_if [of "uint w" "2 ^ 32"] by simp
qed

lemma byte_diff_0 [simp]: "uint a = uint b \<longleftrightarrow> a = b" for a b :: u8
  by (simp add: word_uint_eq_iff)

section \<open>Byte arrays\<close>

text \<open>
  \<open>put_bytes o xs bs\<close> overwrites \<open>bs\<close> from offset \<open>o\<close> with \<open>xs\<close>: what a struct store or a
  \<open>memmove\<close> does to an array that is long enough.
\<close>

definition put_bytes :: "nat \<Rightarrow> 'a list \<Rightarrow> 'a list \<Rightarrow> 'a list" where
  "put_bytes off xs bs = take off bs @ xs @ drop (off + length xs) bs"

definition get_bytes :: "nat \<Rightarrow> nat \<Rightarrow> 'a list \<Rightarrow> 'a list" where
  "get_bytes off n bs = take n (drop off bs)"

lemma length_put_bytes [simp]:
  "off + length xs \<le> length bs \<Longrightarrow> length (put_bytes off xs bs) = length bs"
  by (simp add: put_bytes_def)

lemma length_get_bytes [simp]: "off + n \<le> length bs \<Longrightarrow> length (get_bytes off n bs) = n"
  by (simp add: get_bytes_def)

lemma nth_put_bytes:
  assumes "off + length xs \<le> length bs" "k < length bs"
  shows "put_bytes off xs bs ! k =
    (if off \<le> k \<and> k < off + length xs then xs ! (k - off) else bs ! k)"
  using assms by (auto simp: put_bytes_def nth_append min_def)

lemma nth_get_bytes: "off + n \<le> length bs \<Longrightarrow> k < n \<Longrightarrow> get_bytes off n bs ! k = bs ! (off + k)"
  by (simp add: get_bytes_def)

lemma get_put_same [simp]:
  assumes "off + length xs \<le> length bs" "n = length xs"
  shows "get_bytes off n (put_bytes off xs bs) = xs"
  using assms by (simp add: get_bytes_def put_bytes_def)

lemma get_put_disjoint:
  assumes "off + length xs \<le> length bs" "p + n \<le> length bs" "p + n \<le> off \<or> off + length xs \<le> p"
  shows "get_bytes p n (put_bytes off xs bs) = get_bytes p n bs"
  using assms by (intro nth_equalityI) (auto simp: nth_get_bytes nth_put_bytes)

lemma get_bytes_get_bytes:
  "p + m \<le> n \<Longrightarrow> get_bytes p m (get_bytes off n bs) = get_bytes (off + p) m bs"
  by (simp add: get_bytes_def take_drop min_def add.commute add.left_commute)

section \<open>Little-endian integers\<close>

definition le16 :: "u16 \<Rightarrow> u8 list" where
  "le16 w = [ucast w, ucast (drop_bit 8 w)]"

definition le32 :: "u32 \<Rightarrow> u8 list" where
  "le32 w = [ucast w, ucast (drop_bit 8 w), ucast (drop_bit 16 w), ucast (drop_bit 24 w)]"

definition of_le16 :: "u8 list \<Rightarrow> u16" where
  "of_le16 bs = ucast (bs ! 0) OR push_bit 8 (ucast (bs ! 1))"

definition of_le32 :: "u8 list \<Rightarrow> u32" where
  "of_le32 bs = ucast (bs ! 0) OR push_bit 8 (ucast (bs ! 1)) OR
     push_bit 16 (ucast (bs ! 2)) OR push_bit 24 (ucast (bs ! 3))"

lemma length_le16 [simp]: "length (le16 w) = 2"
  by (simp add: le16_def)

lemma length_le32 [simp]: "length (le32 w) = 4"
  by (simp add: le32_def)

lemma of_le16_le16 [simp, byte_simps]: "of_le16 (le16 w) = w"
  by (rule bit_word_eqI) (auto simp: of_le16_def le16_def bit_simps)

lemma of_le32_le32 [simp, byte_simps]: "of_le32 (le32 w) = w"
proof (rule bit_word_eqI)
  fix n assume "n < LENGTH(32)"
  then consider "n < 8" | "8 \<le> n" "n < 16" | "16 \<le> n" "n < 24" | "24 \<le> n" "n < 32"
    by fastforce
  then show "bit (of_le32 (le32 w)) n = bit w n"
    by cases (auto simp: of_le32_def le32_def bit_simps)
qed

definition u16_at :: "u8 list \<Rightarrow> nat \<Rightarrow> u16" where
  "u16_at bs off = of_le16 (get_bytes off 2 bs)"

definition u32_at :: "u8 list \<Rightarrow> nat \<Rightarrow> u32" where
  "u32_at bs off = of_le32 (get_bytes off 4 bs)"

end
