(* ===== verification/Strings.thy ===== *)
theory Strings
  imports Kernel_Prelude
begin

text \<open>
  \<open>xv6/string.c\<close> and the string instructions of \<open>xv6/x86.h\<close> it is built on.

  Memory is a function from 32-bit addresses to bytes; pointer arithmetic is word arithmetic, so
  it wraps at \<open>2^32\<close> as it does on the machine. A function that only reads its arguments takes a
  \<open>reader\<close> (offset to byte): \<open>rd m a\<close> reads memory from address \<open>a\<close>, and the file system passes
  byte arrays the same way. The C functions that return their destination pointer return the
  memory here. A loop whose counter is an unsigned or a non-negative int recurses on that counter.
\<close>

type_synonym mem = "u32 \<Rightarrow> u8"
type_synonym reader = "nat \<Rightarrow> u8"

definition rd :: "mem \<Rightarrow> u32 \<Rightarrow> reader" where
  "rd m a k = m (a + of_nat k)"

section \<open>Stores\<close>

fun stosb :: "mem \<Rightarrow> u32 \<Rightarrow> u8 \<Rightarrow> nat \<Rightarrow> mem" where
  "stosb m addr c 0 = m"
| "stosb m addr c (Suc n) = stosb (m(addr := c)) (addr + 1) c n"

definition store32 :: "mem \<Rightarrow> u32 \<Rightarrow> u32 \<Rightarrow> mem" where
  "store32 m a w = m(a := ucast w, a + 1 := ucast (drop_bit 8 w),
     a + 2 := ucast (drop_bit 16 w), a + 3 := ucast (drop_bit 24 w))"

definition load32 :: "mem \<Rightarrow> u32 \<Rightarrow> u32" where
  "load32 m a = of_le32 [m a, m (a + 1), m (a + 2), m (a + 3)]"

fun stosl :: "mem \<Rightarrow> u32 \<Rightarrow> u32 \<Rightarrow> nat \<Rightarrow> mem" where
  "stosl m addr d 0 = m"
| "stosl m addr d (Suc n) = stosl (store32 m addr d) (addr + 4) d n"

definition memset :: "mem \<Rightarrow> u32 \<Rightarrow> u32 \<Rightarrow> u32 \<Rightarrow> mem" where
  "memset m dst c n =
     (if dst mod 4 = 0 \<and> n mod 4 = 0 then
        let c = c AND 0xFF in
        stosl m dst (push_bit 24 c OR push_bit 16 c OR push_bit 8 c OR c) (unat (n div 4))
      else stosb m dst (ucast c) (unat n))"

fun copy_up :: "mem \<Rightarrow> u32 \<Rightarrow> u32 \<Rightarrow> nat \<Rightarrow> mem" where
  "copy_up m d s 0 = m"
| "copy_up m d s (Suc n) = copy_up (m(d := m s)) (d + 1) (s + 1) n"

fun copy_down :: "mem \<Rightarrow> u32 \<Rightarrow> u32 \<Rightarrow> nat \<Rightarrow> mem" where
  "copy_down m d s 0 = m"
| "copy_down m d s (Suc n) = copy_down (m(d - 1 := m (s - 1))) (d - 1) (s - 1) n"

definition memmove :: "mem \<Rightarrow> u32 \<Rightarrow> u32 \<Rightarrow> u32 \<Rightarrow> mem" where
  "memmove m dst src n =
     (if src < dst \<and> src + n > dst then copy_down m (dst + n) (src + n) (unat n)
      else copy_up m dst src (unat n))"

definition memcpy :: "mem \<Rightarrow> u32 \<Rightarrow> u32 \<Rightarrow> u32 \<Rightarrow> mem" where
  "memcpy m dst src n = memmove m dst src n"

section \<open>Comparisons\<close>

fun memcmp_from :: "reader \<Rightarrow> reader \<Rightarrow> nat \<Rightarrow> nat \<Rightarrow> int" where
  "memcmp_from s1 s2 k 0 = 0"
| "memcmp_from s1 s2 k (Suc n) =
     (if s1 k \<noteq> s2 k then uint (s1 k) - uint (s2 k) else memcmp_from s1 s2 (Suc k) n)"

definition memcmp :: "reader \<Rightarrow> reader \<Rightarrow> u32 \<Rightarrow> int" where
  "memcmp v1 v2 n = memcmp_from v1 v2 0 (unat n)"

fun strncmp_from :: "reader \<Rightarrow> reader \<Rightarrow> nat \<Rightarrow> nat \<Rightarrow> int" where
  "strncmp_from p q k 0 = 0"
| "strncmp_from p q k (Suc n) =
     (if p k \<noteq> 0 \<and> p k = q k then strncmp_from p q (Suc k) n
      else uint (p k) - uint (q k))"

definition strncmp :: "reader \<Rightarrow> reader \<Rightarrow> u32 \<Rightarrow> int" where
  "strncmp p q n = strncmp_from p q 0 (unat n)"

section \<open>String copies and lengths\<close>

fun strncpy_loop :: "mem \<Rightarrow> u32 \<Rightarrow> u32 \<Rightarrow> nat \<Rightarrow> mem" where
  "strncpy_loop m s t 0 = m"
| "strncpy_loop m s t (Suc n) =
     (if m t \<noteq> 0 then strncpy_loop (m(s := m t)) (s + 1) (t + 1) n
      else stosb (m(s := m t)) (s + 1) 0 n)"

definition strncpy :: "mem \<Rightarrow> u32 \<Rightarrow> u32 \<Rightarrow> int \<Rightarrow> mem" where
  "strncpy m s t n = strncpy_loop m s t (nat n)"

fun safestrcpy_loop :: "mem \<Rightarrow> u32 \<Rightarrow> u32 \<Rightarrow> nat \<Rightarrow> mem" where
  "safestrcpy_loop m s t 0 = m(s := 0)"
| "safestrcpy_loop m s t (Suc n) =
     (if m t \<noteq> 0 then safestrcpy_loop (m(s := m t)) (s + 1) (t + 1) n
      else (m(s := m t))(s + 1 := 0))"

definition safestrcpy :: "mem \<Rightarrow> u32 \<Rightarrow> u32 \<Rightarrow> int \<Rightarrow> mem" where
  "safestrcpy m s t n = (if n \<le> 0 then m else safestrcpy_loop m s t (nat n - 1))"

partial_function (option) strlen_from :: "reader \<Rightarrow> nat \<Rightarrow> nat option" where
  "strlen_from s n = (if s n \<noteq> 0 then strlen_from s (n + 1) else Some n)"

definition strlen :: "reader \<Rightarrow> nat option" where
  "strlen s = strlen_from s 0"

text \<open>
  \<open>cstr r n\<close> is the C string read through \<open>r\<close> in a buffer of \<open>n\<close> bytes: the bytes before the first
  NUL, or all \<open>n\<close>. \<open>strncpy_bytes r n\<close> is that string padded with NULs to \<open>n\<close> bytes.
\<close>

definition cstr_from :: "reader \<Rightarrow> nat \<Rightarrow> nat \<Rightarrow> u8 list" where
  "cstr_from r k n = takeWhile (\<lambda>c. c \<noteq> 0) (map r [k..<k + n])"

definition cstr :: "reader \<Rightarrow> nat \<Rightarrow> u8 list" where
  "cstr r n = cstr_from r 0 n"

definition strncpy_bytes :: "reader \<Rightarrow> nat \<Rightarrow> u8 list" where
  "strncpy_bytes r n = cstr r n @ replicate (n - length (cstr r n)) 0"

section \<open>Addresses\<close>

lemma rd_0 [simp]: "rd m t 0 = m t"
  by (simp add: rd_def)

lemma addr_step: "unat (a - (d + 1)) = (if a = d then 2 ^ 32 - 1 else unat (a - d) - 1)" for a d :: u32
proof (cases "a = d")
  case False
  have "a - (d + 1) = (a - d) - 1" by simp
  moreover have "a - d \<noteq> 0" using False by simp
  ultimately show ?thesis using False unat_minus_one by metis
qed (simp add: unsigned_minus_1_eq_mask mask_eq_exp_minus_1)

lemma addr_0_iff: "unat (a - d) = 0 \<longleftrightarrow> a = d" for a d :: u32
  by (simp add: unat_eq_zero)

lemma addr_plus: "unat k \<le> unat (a - d) \<Longrightarrow> unat (a - (d + k)) = unat (a - d) - unat k" for a d k:: u32
  by (metis diff_diff_eq unat_sub word_le_nat_alt)

lemma addr_plus': "unat (a - d) < unat k \<Longrightarrow> unat (a - (d + k)) = 2 ^ 32 + unat (a - d) - unat k" for a d k:: u32
  using unat_sub_if_size[of "a - d" k] by (simp add: word_le_nat_alt word_size diff_diff_eq)

lemma unat_less_4: "unat x < 4 \<longleftrightarrow> x = 0 \<or> x = 1 \<or> x = 2 \<or> x = 3" for x :: u32
proof
  assume "unat x < 4"
  then have "unat x = 0 \<or> unat x = 1 \<or> unat x = 2 \<or> unat x = 3" by arith
  then show "x = 0 \<or> x = 1 \<or> x = 2 \<or> x = 3"
    by (simp add: word_unat_eq_iff)
qed auto

section \<open>What the stores write\<close>

lemma stosb_apply:
  "n \<le> 2 ^ 32 \<Longrightarrow> stosb m d c n a = (if unat (a - d) < n then c else m a)"
proof (induction n arbitrary: m d)
  case (Suc n)
  then show ?case
    using addr_0_iff [of a d] by (auto simp: addr_step)
qed simp

lemma store32_apply:
  "store32 m d w a = (if unat (a - d) < 4 then le32 w ! unat (a - d) else m a)"
proof -
  obtain x where x: "a = d + x" by (metis add_diff_cancel_left' diff_add_cancel add.commute)
  show ?thesis
    by (auto simp: x store32_def le32_def unat_less_4)
qed

lemma load_store32 [simp]: "load32 (store32 m a w) a = w"
proof -
  have "[store32 m a w a, store32 m a w (a + 1), store32 m a w (a + 2), store32 m a w (a + 3)] = le32 w"
    by (simp add: store32_apply le32_def)
  then show ?thesis by (simp add: load32_def)
qed

lemma load_store32_other:
  assumes "4 \<le> unat (b - a)" "4 \<le> unat (a - b)"
  shows "load32 (store32 m a w) b = load32 m b"
proof -
  have *: "4 \<le> unat (b + k - a)" if "k = 0 \<or> k = 1 \<or> k = 2 \<or> k = 3" for k :: u32
  proof (rule ccontr)
    assume "\<not> ?thesis"
    then have "b + k - a = 0 \<or> b + k - a = 1 \<or> b + k - a = 2 \<or> b + k - a = 3"
      by (simp add: unat_less_4 flip: not_less)
    then have "a - b = k \<or> a - b = k - 1 \<or> a - b = k - 2 \<or> a - b = k - 3"
      by (auto simp: algebra_simps)
    moreover have "\<not> unat (a - b) < 4 \<and> \<not> unat (b - a) < 4" using assms by simp
    moreover have "b - a = - (a - b)" by simp
    ultimately show False using that unfolding unat_less_4 by (elim disjE) simp_all
  qed
  show ?thesis using *[of 0] *[of 1] *[of 2] *[of 3]
    by (simp add: load32_def store32_apply not_less)
qed

lemma stosl_apply:
  "4 * n \<le> 2 ^ 32 \<Longrightarrow>
   stosl m d w n a = (if unat (a - d) < 4 * n then le32 w ! (unat (a - d) mod 4) else m a)"
proof (induction n arbitrary: m d)
  case (Suc n)
  show ?case
  proof (cases "unat (a - d) < 4")
    case True
    then show ?thesis using Suc by (simp add: addr_plus' store32_apply)
  next
    case False
    then have "unat (a - (d + 4)) = unat (a - d) - 4" using addr_plus [of 4 a d] by simp
    then show ?thesis using False Suc by (auto simp: store32_apply le_mod_geq)
  qed
qed simp

lemma le32_splat:
  fixes c :: u32
  assumes "k < 4"
  shows "le32 (push_bit 24 (take_bit 8 c) OR push_bit 16 (take_bit 8 c) OR
    push_bit 8 (take_bit 8 c) OR take_bit 8 c) ! k = ucast c"
proof -
  have "k = 0 \<or> k = 1 \<or> k = 2 \<or> k = 3" using assms by arith
  then show ?thesis
    by (elim disjE; simp add: le32_def; intro bit_word_eqI) (auto simp: bit_simps)
qed

lemma memset_apply: "memset m dst c n a = (if unat (a - dst) < unat n then ucast c else m a)"
proof (cases "dst mod 4 = 0 \<and> n mod 4 = 0")
  case True
  then have "unat (n mod 4) = 0" by simp
  then have "unat n mod 4 = 0" by (simp add: unat_mod)
  then have n4: "4 * unat (n div 4) = unat n" unfolding unat_div by (simp add: mod_0_imp_dvd)
  have "unat n \<le> 2 ^ 32" using unat32_lt [of n] by simp
  then show ?thesis using True n4
    by (simp add: memset_def Let_def stosl_apply le32_splat and_FF)
next
  case False
  then show ?thesis using unat32_lt [of n] by (auto simp: memset_def stosb_apply)
qed

lemma copy_up_apply:
  assumes "n \<le> 2 ^ 32" "d = s \<or> n \<le> unat (d - s)"
  shows "copy_up m d s n a = (if unat (a - d) < n then m (s + (a - d)) else m a)"
  using assms
proof (induction n arbitrary: m d s)
  case (Suc n)
  have e: "s + 1 + (a - (d + 1)) = s + (a - d)" by simp
  have ne: "s + (a - d) \<noteq> d" if "a \<noteq> d" "unat (a - d) < Suc n"
  proof
    assume "s + (a - d) = d"
    then have "a - d = d - s" by (metis add_diff_cancel_left')
    with that Suc.prems show False by auto
  qed
  show ?case using Suc ne addr_0_iff [of a d]
    by (auto simp: addr_step e)
qed simp

lemma copy_down_apply:
  assumes "n \<le> 2 ^ 32" "s = d \<or> n \<le> unat (s - d)"
  shows "copy_down m (d + of_nat n) (s + of_nat n) n a =
    (if unat (a - d) < n then m (s + (a - d)) else m a)"
  using assms
proof (induction n arbitrary: m)
  case (Suc n)
  have un: "unat (of_nat n :: u32) = n" using Suc.prems(1) by (simp add: unat_of_nat)
  have an: "a = d + of_nat n \<longleftrightarrow> unat (a - d) = n"
    by (metis add_diff_cancel_left' diff_add_cancel add.commute un word_unat_eq_iff)
  have ne: "s + (a - d) \<noteq> d + of_nat n" if "unat (a - d) < n"
  proof
    assume "s + (a - d) = d + of_nat n"
    then have "s - d + (a - d) = of_nat n" by (simp add: algebra_simps)
    with un have "unat (s - d + (a - d)) = n" by metis
    then have "(unat (s - d) + unat (a - d)) mod 2 ^ 32 = n" unfolding unat_word_ariths by simp
    with that Suc.prems show False
      using unat32_lt [of "s - d"] by (auto simp: mod_if split: if_splits)
  qed
  show ?case using Suc ne an
    by (auto)
qed simp

lemma memmove_apply:
  assumes "unat src + unat n < 2 ^ 32" "unat dst + unat n \<le> 2 ^ 32"
  shows "memmove m dst src n a = (if unat (a - dst) < unat n then m (src + (a - dst)) else m a)"
proof -
  have n: "unat n \<le> 2 ^ 32" "n = of_nat (unat n)" using unat32_lt [of n] by simp_all
  have sn: "unat (src + n) = unat src + unat n"
    using assms(1) by (simp add: unat_word_ariths)
  show ?thesis
  proof (cases "src < dst \<and> src + n > dst")
    case True
    then have "unat src < unat dst" by (simp add: word_less_nat_alt)
    then have "unat (src - dst) = 2 ^ 32 + unat src - unat dst"
      using unat_sub_if_size [of src dst] by (simp add: word_le_nat_alt word_size)
    with assms have "unat n \<le> unat (src - dst)" by simp
    then show ?thesis using True n copy_down_apply [of "unat n" src dst m a]
      by (simp add: memmove_def)
  next
    case False
    have "dst = src \<or> unat n \<le> unat (dst - src)"
      using False assms sn unat_sub_if_size [of dst src]
      by (auto simp: word_le_nat_alt word_less_nat_alt word_size not_less word_unat_eq_iff)
    then show ?thesis using False n copy_up_apply [of "unat n" dst src m a]
      by (auto simp: memmove_def)
  qed
qed

section \<open>C strings\<close>

lemma cstr_from_0 [simp]: "cstr_from r k 0 = []"
  by (simp add: cstr_from_def)

lemma cstr_from_Suc [simp]:
  "cstr_from r k (Suc n) = (if r k = 0 then [] else r k # cstr_from r (Suc k) n)"
proof -
  have "[k..<k + Suc n] = k # [Suc k..<Suc k + n]" by (simp add: upt_conv_Cons)
  then show ?thesis by (simp add: cstr_from_def)
qed

lemma cstr_from_cong:
  "(\<And>j. j < n \<Longrightarrow> r (k + j) = r' (k' + j)) \<Longrightarrow> cstr_from r k n = cstr_from r' k' n"
proof (induction n arbitrary: k k')
  case (Suc n)
  have "r k = r' k'" using Suc.prems [of 0] by simp
  moreover have "cstr_from r (Suc k) n = cstr_from r' (Suc k') n"
    using Suc.prems [of "Suc _"] by (intro Suc.IH) simp
  ultimately show ?case by simp
qed simp

lemma length_cstr_from: "length (cstr_from r k n) \<le> n"
  by (induction n arbitrary: k) auto

lemma memcmp_from_0: "memcmp_from p q k n = 0 \<longleftrightarrow> (\<forall>j<n. p (k + j) = q (k + j))"
proof (induction n arbitrary: k)
  case (Suc n)
  then show ?case by (auto simp: All_less_Suc2)
qed simp

lemma memcmp_eq_0_iff: "memcmp p q n = 0 \<longleftrightarrow> (\<forall>j<unat n. p j = q j)"
  by (simp add: memcmp_def memcmp_from_0)

lemma strncmp_from_0: "strncmp_from p q k n = 0 \<longleftrightarrow> cstr_from p k n = cstr_from q k n"
  by (induction n arbitrary: k) (auto simp: uint_0_iff)

lemma strncmp_eq_0_iff: "strncmp p q n = 0 \<longleftrightarrow> cstr p (unat n) = cstr q (unat n)"
  by (simp add: strncmp_def cstr_def strncmp_from_0)

lemma strlen_from_Some:
  assumes "r n = 0" "\<forall>j<n. k \<le> j \<longrightarrow> r j \<noteq> 0" "k \<le> n"
  shows "strlen_from r k = Some n"
  using assms
proof (induction "n - k" arbitrary: k)
  case (Suc d)
  then have "strlen_from r (k + 1) = Some n" by simp
  moreover have "r k \<noteq> 0" using Suc by simp
  ultimately show ?case by (subst strlen_from.simps) simp
next
  case 0
  then show ?case by (subst strlen_from.simps) simp
qed

lemma strlen_eq: "r n = 0 \<Longrightarrow> \<forall>j<n. r j \<noteq> 0 \<Longrightarrow> strlen r = Some n"
  by (simp add: strlen_def strlen_from_Some)

lemma strncpy_loop_apply:
  assumes "n \<le> 2 ^ 32" "\<And>j i. j < n \<Longrightarrow> i < n \<Longrightarrow> s + of_nat i \<noteq> t + of_nat j"
  shows "strncpy_loop m s t n a = (if unat (a - s) < n
     then (cstr_from (rd m t) 0 n @ replicate (n - length (cstr_from (rd m t) 0 n)) 0) ! unat (a - s) else m a)"
  using assms
proof (induction n arbitrary: m s t)
  case (Suc n)
  have e: "cstr_from (rd (m(s := v)) (t + 1)) 0 n = cstr_from (rd m t) 1 n" for v
  proof (rule cstr_from_cong)
    fix j assume "j < n"
    then show "rd (m(s := v)) (t + 1) (0 + j) = rd m t (1 + j)"
      using Suc.prems(2) [of "Suc j" 0] by (auto simp: rd_def algebra_simps)
  qed
  have p: "s + 1 + of_nat i \<noteq> t + 1 + of_nat j" if "j < n" "i < n" for i j
    using Suc.prems(2)[of "Suc j" "Suc i"] that by (simp add: algebra_simps)
  show ?case
  proof (cases "m t = 0")
    case True
    then show ?thesis using Suc.prems addr_0_iff[of a s] by (auto simp: stosb_apply rd_def addr_step nth_Cons' nth_replicate)
  next
    case False
    have "strncpy_loop m s t (Suc n) a = strncpy_loop (m(s := m t)) (s + 1) (t + 1) n a"
      using False by simp
    also have "\<dots> = (if unat (a - (s + 1)) < n
      then (cstr_from (rd m t) 1 n @ replicate (n - length (cstr_from (rd m t) 1 n)) 0) ! unat (a - (s + 1))
      else (m(s := m t)) a)"
      by (subst e [of "m t", symmetric])+ (rule Suc.IH, use Suc.prems(1) p in auto)
    finally show ?thesis using False Suc.prems(1) addr_0_iff [of a s]
      by (auto simp: addr_step nth_Cons' simp del: strncpy_loop.simps)
  qed
qed simp

lemma safestrcpy_loop_apply:
  assumes "n < 2 ^ 32" "\<And>j i. j \<le> n \<Longrightarrow> i \<le> n \<Longrightarrow> s + of_nat i \<noteq> t + of_nat j"
  shows "(\<forall>k < length (cstr_from (rd m t) 0 n). safestrcpy_loop m s t n (s + of_nat k) = m (t + of_nat k)) \<and>
     safestrcpy_loop m s t n (s + of_nat (length (cstr_from (rd m t) 0 n))) = 0 \<and>
     (\<forall>a. n < unat (a - s) \<longrightarrow> safestrcpy_loop m s t n a = m a)"
  using assms
proof (induction n arbitrary: m s t)
  case (Suc n)
  have e: "cstr_from (rd (m(s := v)) (t + 1)) 0 n = cstr_from (rd m t) 1 n" for v
  proof (rule cstr_from_cong)
    fix j assume "j < n"
    then show "rd (m(s := v)) (t + 1) (0 + j) = rd m t (1 + j)"
      using Suc.prems(2) [of "Suc j" 0] by (auto simp: rd_def algebra_simps)
  qed
  have p: "s + 1 + of_nat i \<noteq> t + 1 + of_nat j" if "j \<le> n" "i \<le> n" for i j
    using Suc.prems(2)[of "Suc j" "Suc i"] that by (simp add: algebra_simps)
  show ?case
  proof (cases "m t = 0")
    case True
    then show ?thesis 
using Suc.prems(1) addr_0_iff [of _ s] addr_0_iff [of _ "s+1"] by (auto simp: rd_def addr_step)
  next
    case False
    let ?f = "safestrcpy_loop (m(s := m t)) (s + 1) (t + 1) n" and ?l = "length (cstr_from (rd m t) 1 n)"
    have f: "safestrcpy_loop m s t (Suc n) = ?f" using False by simp
    let ?lm = "length (cstr_from (rd (m(s := m t)) (t + 1)) 0 n)"
    have IH0: "(\<forall>k < ?lm. ?f (s + 1 + of_nat k) = (m(s := m t)) (t + 1 + of_nat k)) \<and>
      ?f (s + 1 + of_nat ?lm) = 0 \<and> (\<forall>a. n < unat (a - (s + 1)) \<longrightarrow> ?f a = (m(s := m t)) a)"
      by (rule Suc.IH) (use Suc.prems(1) p in auto)
    have IH: "\<forall>k < ?l. ?f (s + 1 + of_nat k) = (m(s := m t)) (t + 1 + of_nat k)"
      "?f (s + 1 + of_nat ?l) = 0" "\<forall>a. n < unat (a - (s + 1)) \<longrightarrow> ?f a = (m(s := m t)) a"
      using IH0 unfolding e [of "m t"] by simp_all
    have "?f (s + of_nat k) = m (t + of_nat k)" if k: "k < Suc ?l" for k
    proof (cases k)
      case 0
      then show ?thesis using IH(3) [rule_format, of s] Suc.prems(1) by (simp add: addr_step)
    next
      case (Suc k')
      then have "k' < n" using k length_cstr_from [of "rd m t" 1 n] e [of "m t"] by simp
      then have "t + 1 + of_nat k' \<noteq> s"
        using Suc.prems(2) [of "Suc k'" 0] by (simp add: algebra_simps)
      then show ?thesis using IH(1) [rule_format, of k'] k Suc by (simp add: algebra_simps)
    qed
    moreover have "?f a = m a" if "Suc n < unat (a - s)" for a
    proof -
      have "a \<noteq> s" using that by auto
      then show ?thesis using IH(3) [rule_format, of a] that by (simp add: addr_step)
    qed
    moreover have "cstr_from (rd m t) 0 (Suc n) = m t # cstr_from (rd m t) 1 n"
      using False by (simp add: rd_def)
    ultimately show ?thesis unfolding f using IH(2) by (simp add: algebra_simps)
  qed
qed simp

section \<open>Properties\<close>

text \<open>
  \<open>memmove\<close> copies correctly even when the two ranges overlap, as long as neither wraps around the
  address space: every byte of the destination gets the byte the source had before the call, and no
  other byte changes.
\<close>

lemma memmove_overlap_correct:
  assumes "unat src + unat n < 2 ^ 32" "unat dst + unat n \<le> 2 ^ 32"
  shows "(\<forall>k < unat n. memmove m dst src n (dst + of_nat k) = m (src + of_nat k)) \<and>
    (\<forall>a. unat n \<le> unat (a - dst) \<longrightarrow> memmove m dst src n a = m a)"
proof -
  have "unat (of_nat k :: u32) = k" if "k < unat n" for k
    using that unat32_lt [of n] by (simp add: unat_of_nat)
  then show ?thesis using memmove_apply [OF assms] by simp
qed

text \<open>
  \<open>strncmp\<close> returns 0 exactly when the two C strings, cut off at \<open>n\<close> bytes, are equal; \<open>memcmp\<close>
  returns 0 exactly when the first \<open>n\<close> bytes agree.
\<close>

lemma comparisons_decide_equality:
  "(strncmp p q n = 0 \<longleftrightarrow> cstr p (unat n) = cstr q (unat n)) \<and>
   (memcmp p q n = 0 \<longleftrightarrow> map p [0..<unat n] = map q [0..<unat n])"
  by (auto simp: strncmp_eq_0_iff memcmp_eq_0_iff)

lemma cstr_from_eqI:
  assumes "length xs < n" "\<And>j. j < length xs \<Longrightarrow> r j = xs ! j" "0 \<notin> set xs" "r (length xs) = 0"
  shows "cstr_from r 0 n = xs"
proof -
  let ?l = "length xs"
  have "[0..<n] = [0..<?l] @ ?l # [Suc ?l..<n]"
    using assms(1) upt_add_eq_append [of 0 ?l "n - ?l"] upt_conv_Cons [of ?l n] by simp
  moreover have "map r [0..<?l] = xs" using assms(2) by (intro nth_equalityI) auto
  moreover have "takeWhile (\<lambda>c. c \<noteq> 0) (xs @ 0 # ys) = xs" for ys
    using assms(3) by (subst takeWhile_append2) auto
  ultimately show ?thesis using assms(4) by (simp add: cstr_from_def)
qed

lemma cstr_from_nth: "j < length (cstr_from r 0 n) \<Longrightarrow> cstr_from r 0 n ! j = r j"
  using length_cstr_from [of r 0 n] by (simp add: cstr_from_def takeWhile_nth)

lemma cstr_from_no_0: "0 \<notin> set (cstr_from r k n)"
  by (auto simp: cstr_from_def dest: set_takeWhileD)

text \<open>
  \<open>safestrcpy\<close> into a buffer of \<open>n > 0\<close> bytes that does not overlap the source always leaves a
  NUL-terminated string there: the source string cut off at \<open>n - 1\<close> bytes, its terminator, and no
  byte changed outside the buffer.
\<close>

lemma safestrcpy_terminates_string:
  assumes "0 < n" "n \<le> 2 ^ 31" "\<And>i j. i < nat n \<Longrightarrow> j < nat n \<Longrightarrow> s + of_nat i \<noteq> t + of_nat j"
  shows "cstr (rd (safestrcpy m s t n) s) (nat n) = cstr (rd m t) (nat n - 1) \<and>
    length (cstr (rd (safestrcpy m s t n) s) (nat n)) < nat n \<and>
    (\<forall>a. nat n \<le> unat (a - s) \<longrightarrow> safestrcpy m s t n a = m a)"
proof -
  let ?k = "nat n - 1" and ?m = "safestrcpy m s t n"
  let ?c = "cstr_from (rd m t) 0 ?k"
  have k: "?k < 2 ^ 32" "Suc ?k = nat n" using assms(1,2) by auto
  have sp: "(\<forall>j < length ?c. ?m (s + of_nat j) = m (t + of_nat j)) \<and> ?m (s + of_nat (length ?c)) = 0 \<and>
      (\<forall>a. ?k < unat (a - s) \<longrightarrow> ?m a = m a)"
    using safestrcpy_loop_apply [of ?k s t m] assms k by (auto simp: safestrcpy_def less_Suc_eq_le [symmetric])
  have l: "length ?c < nat n" using length_cstr_from [of "rd m t" 0 ?k] k(2) by simp
  have "cstr_from (rd ?m s) 0 (nat n) = ?c"
    using sp by (intro cstr_from_eqI [OF l _ cstr_from_no_0]) (auto simp: rd_def cstr_from_nth)
  then show ?thesis using sp k l by (auto simp: cstr_def)
qed

end
