(* ===== verification/Spinlock.thy ===== *)
theory Spinlock
  imports Strings
begin

text \<open>
  \<open>xv6/spinlock.c\<close>, with \<open>cpuid\<close> and \<open>mycpu\<close> of \<open>xv6/proc.c\<close> and \<open>initlock\<close> .. \<open>popcli\<close> on a machine
  with several CPUs.

  A CPU is known to the hardware by its local APIC id; \<open>iflag\<close> is the interrupt flag of each CPU's
  eflags register. \<open>acquire\<close> is the whole function; when the lock is held by another CPU its
  \<open>xchg\<close> loop does not end in this CPU's own steps, which is the outcome \<open>Spins\<close>. The interleaving
  of several CPUs inside \<open>acquire\<close> and \<open>release\<close> is the step relation \<open>lock_step\<close> further down.
  The rest of the kernel runs on one CPU between two switches and sees of all this only which
  locks that CPU holds: the record \<open>kst\<close> with the operations \<open>acq\<close> and \<open>rel\<close>, which refine
  \<open>acquire\<close> and \<open>release\<close>.
\<close>

section \<open>State\<close>

datatype lock_id =
    LK_kmem | LK_ptable | LK_bcache | LK_log | LK_icache | LK_ftable | LK_ticks | LK_cons
  | LK_sleep chan
  | LK_pipe u32

record spinlock =
  locked :: u32
  lname :: string
  lcpu :: "nat option"
  pcs :: "u32 list"

record cpu =
  apicid :: u8
  ncli :: int
  intena :: bool

record smp =
  locks :: "lock_id \<Rightarrow> spinlock"
  cpus :: "nat \<Rightarrow> cpu"
  ncpu :: nat
  iflag :: "u8 \<Rightarrow> bool"
  smem :: mem

section \<open>Which CPU am I\<close>

fun find_cpu :: "(nat \<Rightarrow> cpu) \<Rightarrow> u8 \<Rightarrow> nat \<Rightarrow> nat option" where
  "find_cpu cs ap 0 = None"
| "find_cpu cs ap (Suc n) =
     (case find_cpu cs ap n of Some i \<Rightarrow> Some i
      | None \<Rightarrow> if apicid (cs n) = ap then Some n else None)"

definition mycpu :: "u8 \<Rightarrow> smp \<Rightarrow> nat res" where
  "mycpu hw m =
     (if iflag m hw then Inl (Panic ''mycpu called with interrupts enabled'')
      else case find_cpu (cpus m) hw (ncpu m) of
        Some i \<Rightarrow> Inr i
      | None \<Rightarrow> Inl (Panic ''unknown apicid''))"

definition cpuid :: "u8 \<Rightarrow> smp \<Rightarrow> nat res" where
  "cpuid hw m = mycpu hw m"

section \<open>Interrupt nesting\<close>

definition set_cpu :: "nat \<Rightarrow> (cpu \<Rightarrow> cpu) \<Rightarrow> smp \<Rightarrow> smp" where
  "set_cpu c f m = m\<lparr>cpus := (cpus m)(c := f (cpus m c))\<rparr>"

definition set_if :: "u8 \<Rightarrow> bool \<Rightarrow> smp \<Rightarrow> smp" where
  "set_if hw b m = m\<lparr>iflag := (iflag m)(hw := b)\<rparr>"

definition pushcli :: "u8 \<Rightarrow> smp \<Rightarrow> smp res" where
  "pushcli hw m =
     (let eflags = iflag m hw; m = set_if hw False m in
      bind_r (mycpu hw m) (\<lambda>c.
      let m = (if ncli (cpus m c) = 0 then set_cpu c (\<lambda>p. p\<lparr>intena := eflags\<rparr>) m else m) in
      Inr (set_cpu c (\<lambda>p. p\<lparr>ncli := ncli p + 1\<rparr>) m)))"

definition popcli :: "u8 \<Rightarrow> smp \<Rightarrow> smp res" where
  "popcli hw m =
     (if iflag m hw then Inl (Panic ''popcli - interruptible'')
      else bind_r (mycpu hw m) (\<lambda>c.
        let m = set_cpu c (\<lambda>p. p\<lparr>ncli := ncli p - 1\<rparr>) m in
        if ncli (cpus m c) < 0 then Inl (Panic ''popcli'')
        else if ncli (cpus m c) = 0 \<and> intena (cpus m c) then Inr (set_if hw True m)
        else Inr m))"

section \<open>Locks\<close>

definition set_lock :: "lock_id \<Rightarrow> (spinlock \<Rightarrow> spinlock) \<Rightarrow> smp \<Rightarrow> smp" where
  "set_lock l f m = m\<lparr>locks := (locks m)(l := f (locks m l))\<rparr>"

definition initlock :: "lock_id \<Rightarrow> string \<Rightarrow> smp \<Rightarrow> smp" where
  "initlock l nm m = set_lock l (\<lambda>k. k\<lparr>lname := nm, locked := 0, lcpu := None\<rparr>) m"

fun callerpcs :: "mem \<Rightarrow> u32 \<Rightarrow> nat \<Rightarrow> u32 list" where
  "callerpcs m ebp 0 = []"
| "callerpcs m ebp (Suc n) =
     (if ebp = 0 \<or> ebp < 0x80000000 \<or> ebp = 0xffffffff then replicate (Suc n) 0
      else load32 m (ebp + 4) # callerpcs m (load32 m ebp) n)"

definition getcallerpcs :: "mem \<Rightarrow> u32 \<Rightarrow> u32 list" where
  "getcallerpcs m v = callerpcs m (v - 8) 10"

definition holding :: "u8 \<Rightarrow> lock_id \<Rightarrow> smp \<Rightarrow> bool res" where
  "holding hw l m =
     (if locked (locks m l) \<noteq> 0
      then bind_r (mycpu hw m) (\<lambda>c. Inr (lcpu (locks m l) = Some c))
      else Inr False)"

text \<open>\<open>v\<close> is the stack address of the argument, from which the caller's frames are walked.\<close>

definition acquire :: "u8 \<Rightarrow> u32 \<Rightarrow> lock_id \<Rightarrow> smp \<Rightarrow> smp res" where
  "acquire hw v l m =
     bind_r (pushcli hw m) (\<lambda>m.
     bind_r (holding hw l m) (\<lambda>h.
     if h then Inl (Panic ''acquire'')
     else if locked (locks m l) \<noteq> 0 then Inl Spins
     else
       let m = set_lock l (\<lambda>k. k\<lparr>locked := 1\<rparr>) m in
       bind_r (mycpu hw m) (\<lambda>c.
       Inr (set_lock l (\<lambda>k. k\<lparr>lcpu := Some c, pcs := getcallerpcs (smem m) v\<rparr>) m))))"

definition release :: "u8 \<Rightarrow> lock_id \<Rightarrow> smp \<Rightarrow> smp res" where
  "release hw l m =
     bind_r (holding hw l m) (\<lambda>h.
     if \<not> h then Inl (Panic ''release'')
     else
       let m = set_lock l (\<lambda>k. k\<lparr>pcs := (pcs k)[0 := 0], lcpu := None\<rparr>) m;
           m = set_lock l (\<lambda>k. k\<lparr>locked := 0\<rparr>) m in
       popcli hw m)"

section \<open>The locks the running CPU holds\<close>

record kst =
  held :: "lock_id list"

definition acq :: "lock_id \<Rightarrow> 'a kst_scheme \<Rightarrow> 'a kst_scheme res" where
  "acq l s = (if l \<in> set (held s) then Inl (Panic ''acquire'') else Inr (s\<lparr>held := l # held s\<rparr>))"

definition rel :: "lock_id \<Rightarrow> 'a kst_scheme \<Rightarrow> 'a kst_scheme res" where
  "rel l s = (if l \<in> set (held s) then Inr (s\<lparr>held := removeAll l (held s)\<rparr>)
              else Inl (Panic ''release''))"

section \<open>The lock interface\<close>

locale lock_api =
  fixes take_lock :: "lock_id \<Rightarrow> 's \<Rightarrow> 's res"
    and drop_lock :: "lock_id \<Rightarrow> 's \<Rightarrow> 's res"
    and owns :: "lock_id \<Rightarrow> 's \<Rightarrow> bool"
  assumes take_owned: "owns l s \<Longrightarrow> \<exists>e. take_lock l s = Inl e"
    and take_free: "take_lock l s = Inr s' \<Longrightarrow> owns k s' \<longleftrightarrow> k = l \<or> owns k s"
    and drop_unowned: "\<not> owns l s \<Longrightarrow> \<exists>e. drop_lock l s = Inl e"
    and drop_owned: "drop_lock l s = Inr s' \<Longrightarrow> owns k s' \<longleftrightarrow> k \<noteq> l \<and> owns k s"
begin

text \<open>
  A critical section whose body keeps the set of owned locks leaves that set as it was before the
  section; taking the same lock twice never succeeds.
\<close>

lemma bracket_balanced:
  assumes "take_lock l s = Inr s1" "\<And>k. owns k s2 \<longleftrightarrow> owns k s1" "drop_lock l s2 = Inr s3"
  shows "owns k s3 \<longleftrightarrow> owns k s"
proof -
  have "\<not> owns l s" using assms(1) take_owned by (metis sum.distinct(1))
  then show ?thesis using take_free [OF assms(1)] assms(2) drop_owned [OF assms(3)] by blast
qed

lemma no_reentry: "take_lock l s = Inr s1 \<Longrightarrow> \<exists>e. take_lock l s1 = Inl e"
  using take_free take_owned by blast

end

lemma acq_free [simp]: "l \<notin> set (held s) \<Longrightarrow> acq l s = Inr (s\<lparr>held := l # held s\<rparr>)"
  by (simp add: acq_def)

lemma rel_held [simp]: "l \<in> set (held s) \<Longrightarrow> rel l s = Inr (s\<lparr>held := removeAll l (held s)\<rparr>)"
  by (simp add: rel_def)

interpretation kl: lock_api acq rel "\<lambda>l s. l \<in> set (held s)"
  by unfold_locales (auto simp: acq_def rel_def split: if_splits)

section \<open>The multiprocessor implementation provides the interface\<close>

definition cpu_owns :: "u8 \<Rightarrow> lock_id \<Rightarrow> smp \<Rightarrow> bool" where
  "cpu_owns hw l m \<longleftrightarrow> locked (locks m l) \<noteq> 0 \<and>
     (\<exists>c. find_cpu (cpus m) hw (ncpu m) = Some c \<and> lcpu (locks m l) = Some c)"

lemma find_cpu_cong: "(\<And>i. apicid (cs i) = apicid (cs' i)) \<Longrightarrow> find_cpu cs ap n = find_cpu cs' ap n"
  by (induction n) (auto split: option.splits)

lemma find_cpu_set_cpu [simp]:
  "(\<And>p. apicid (f p) = apicid p) \<Longrightarrow>
   find_cpu (cpus (set_cpu c f m)) ap n = find_cpu (cpus m) ap n"
  by (rule find_cpu_cong) (simp add: set_cpu_def)

lemma smp_frames [simp]:
  "locks (set_cpu c f m) = locks m" "ncpu (set_cpu c f m) = ncpu m" "iflag (set_cpu c f m) = iflag m"
  "smem (set_cpu c f m) = smem m" "cpus (set_cpu c f m) c = f (cpus m c)"
  "locks (set_if hw b m) = locks m" "ncpu (set_if hw b m) = ncpu m" "cpus (set_if hw b m) = cpus m"
  "smem (set_if hw b m) = smem m" "iflag (set_if hw b m) hw = b"
  "cpus (set_lock l g m) = cpus m" "ncpu (set_lock l g m) = ncpu m" "iflag (set_lock l g m) = iflag m"
  "smem (set_lock l g m) = smem m"
  "locks (set_lock l g m) k = (if k = l then g (locks m l) else locks m k)"
  by (simp_all add: set_cpu_def set_if_def set_lock_def)

lemma mycpu_Inr: "mycpu hw m = Inr c \<longleftrightarrow> \<not> iflag m hw \<and> find_cpu (cpus m) hw (ncpu m) = Some c"
  by (auto simp: mycpu_def split: option.splits)

lemma pushcli_Some:
  assumes "find_cpu (cpus m) hw (ncpu m) = Some c"
  shows "pushcli hw m = Inr (set_cpu c (\<lambda>p. p\<lparr>intena := (if ncli p = 0 then iflag m hw else intena p),
    ncli := ncli p + 1\<rparr>) (set_if hw False m))"
proof -
  have "mycpu hw (set_if hw False m) = Inr c" using assms by (simp add: mycpu_Inr)
  then show ?thesis by (simp add: pushcli_def Let_def set_cpu_def)
qed

lemma pushcli_None:
  "find_cpu (cpus m) hw (ncpu m) = None \<Longrightarrow> \<exists>e. pushcli hw m = Inl e"
  by (simp add: pushcli_def mycpu_def)

lemma popcli_Some:
  assumes "find_cpu (cpus m) hw (ncpu m) = Some c" "\<not> iflag m hw" "0 < ncli (cpus m c)"
  shows "popcli hw m = Inr (set_if hw (ncli (cpus m c) = 1 \<and> intena (cpus m c))
    (set_cpu c (\<lambda>p. p\<lparr>ncli := ncli p - 1\<rparr>) m))"
proof -
  have "mycpu hw m = Inr c" using assms by (simp add: mycpu_Inr)
  then show ?thesis using assms
    by (auto simp: popcli_def Let_def set_if_def fun_upd_idem)
qed

lemma popcli_frame:
  "popcli hw m = Inr m' \<Longrightarrow> locks m' = locks m \<and> ncpu m' = ncpu m \<and>
     find_cpu (cpus m') ap n = find_cpu (cpus m) ap n"
  by (auto simp: popcli_def Let_def bind_r_eq_Inr split: if_splits)

lemma acquire_Inr:
  assumes "acquire hw v l m = Inr m'"
  shows "\<not> cpu_owns hw l m \<and> (\<forall>k. cpu_owns hw k m' \<longleftrightarrow> k = l \<or> cpu_owns hw k m)"
proof (cases "find_cpu (cpus m) hw (ncpu m)")
  case None
  then show ?thesis using assms pushcli_None [OF None] by (auto simp: acquire_def)
next
  case (Some c)
  then show ?thesis using assms
    by (auto simp: acquire_def pushcli_Some bind_r_eq_Inr holding_def mycpu_Inr cpu_owns_def Let_def
        split: if_splits)
qed

lemma release_Inr:
  assumes "release hw l m = Inr m'"
  shows "cpu_owns hw l m \<and> (\<forall>k. cpu_owns hw k m' \<longleftrightarrow> k \<noteq> l \<and> cpu_owns hw k m)"
  using assms
  by (auto simp: release_def bind_r_eq_Inr holding_def mycpu_Inr cpu_owns_def Let_def
      split: if_splits dest!: popcli_frame [where ap = hw and n = "ncpu m"])

lemma not_Inr_Inl: "(\<And>x. m \<noteq> Inr x) \<Longrightarrow> \<exists>e. m = Inl e"
  by (cases m) auto

interpretation sl: lock_api "acquire hw v" "release hw" "cpu_owns hw" for hw v
proof
  show "cpu_owns hw l s \<Longrightarrow> \<exists>e. acquire hw v l s = Inl e" for l s
    using acquire_Inr not_Inr_Inl by metis
  show "acquire hw v l s = Inr s' \<Longrightarrow> cpu_owns hw k s' \<longleftrightarrow> k = l \<or> cpu_owns hw k s" for l s s' k
    using acquire_Inr by metis
  show "\<not> cpu_owns hw l s \<Longrightarrow> \<exists>e. release hw l s = Inl e" for l s
    using release_Inr not_Inr_Inl by metis
  show "release hw l s = Inr s' \<Longrightarrow> cpu_owns hw k s' \<longleftrightarrow> k \<noteq> l \<and> cpu_owns hw k s" for l s s' k
    using release_Inr by metis
qed

section \<open>The held-lock view refines the multiprocessor locks\<close>

definition held_rel :: "u8 \<Rightarrow> smp \<Rightarrow> 'a kst_scheme \<Rightarrow> bool" where
  "held_rel hw m s \<longleftrightarrow> (\<forall>l. l \<in> set (held s) \<longleftrightarrow> cpu_owns hw l m)"

lemma acquire_simulated:
  assumes "held_rel hw m s" "acquire hw v l m = Inr m'"
  shows "\<exists>s'. acq l s = Inr s' \<and> held_rel hw m' s'"
  using assms acquire_Inr [OF assms(2)] by (auto simp: held_rel_def acq_def)

lemma release_simulated:
  assumes "held_rel hw m s" "release hw l m = Inr m'"
  shows "\<exists>s'. rel l s = Inr s' \<and> held_rel hw m' s'"
  using assms release_Inr [OF assms(2)] by (auto simp: held_rel_def rel_def)

section \<open>Nested cli\<close>

fun times_r :: "nat \<Rightarrow> ('s \<Rightarrow> 's res) \<Rightarrow> 's \<Rightarrow> 's res" where
  "times_r 0 f s = Inr s"
| "times_r (Suc n) f s = bind_r (f s) (times_r n f)"

definition cli_ok :: "u8 \<Rightarrow> nat \<Rightarrow> smp \<Rightarrow> bool" where
  "cli_ok hw c m \<longleftrightarrow> find_cpu (cpus m) hw (ncpu m) = Some c \<and> 0 \<le> ncli (cpus m c) \<and>
     (0 < ncli (cpus m c) \<longrightarrow> \<not> iflag m hw)"

text \<open>The interrupt flag the CPU will have once every pending \<open>popcli\<close> has run.\<close>

definition saved_if :: "u8 \<Rightarrow> nat \<Rightarrow> smp \<Rightarrow> bool" where
  "saved_if hw c m = (if ncli (cpus m c) = 0 then iflag m hw else intena (cpus m c))"

lemma pushcli_step:
  assumes "cli_ok hw c m"
  shows "\<exists>m'. pushcli hw m = Inr m' \<and> cli_ok hw c m' \<and> ncli (cpus m' c) = ncli (cpus m c) + 1 \<and>
    \<not> iflag m' hw \<and> saved_if hw c m' = saved_if hw c m"
  using assms pushcli_Some [of m hw c] by (auto simp: cli_ok_def saved_if_def)

lemma popcli_step:
  assumes "cli_ok hw c m" "0 < ncli (cpus m c)"
  shows "\<exists>m'. popcli hw m = Inr m' \<and> cli_ok hw c m' \<and> ncli (cpus m' c) = ncli (cpus m c) - 1 \<and>
    saved_if hw c m' = saved_if hw c m"
  using assms popcli_Some [of m hw c] by (auto simp: cli_ok_def saved_if_def)

lemma pushcli_times:
  "cli_ok hw c m \<Longrightarrow> \<exists>m'. times_r n (pushcli hw) m = Inr m' \<and> cli_ok hw c m' \<and>
     ncli (cpus m' c) = ncli (cpus m c) + int n \<and> saved_if hw c m' = saved_if hw c m"
proof (induction n arbitrary: m)
  case (Suc n)
  obtain m1 where m1: "pushcli hw m = Inr m1" "cli_ok hw c m1"
    "ncli (cpus m1 c) = ncli (cpus m c) + 1" "saved_if hw c m1 = saved_if hw c m"
    using pushcli_step [OF Suc.prems] by blast
  then show ?case using Suc.IH [of m1] by auto
qed simp

lemma popcli_times:
  "cli_ok hw c m \<Longrightarrow> int n \<le> ncli (cpus m c) \<Longrightarrow> \<exists>m'. times_r n (popcli hw) m = Inr m' \<and>
     cli_ok hw c m' \<and> ncli (cpus m' c) = ncli (cpus m c) - int n \<and>
     saved_if hw c m' = saved_if hw c m"
proof (induction n arbitrary: m)
  case (Suc n)
  then obtain m1 where m1: "popcli hw m = Inr m1" "cli_ok hw c m1"
    "ncli (cpus m1 c) = ncli (cpus m c) - 1" "saved_if hw c m1 = saved_if hw c m"
    using popcli_step [of hw c m] by auto
  then show ?case using Suc.IH [of m1] Suc.prems by auto
qed simp

section \<open>Interleaved CPUs\<close>

text \<open>
  The instructions of \<open>acquire\<close> and \<open>release\<close> that touch a lock, one step each, for any number of
  CPUs: a CPU that passed the \<open>holding\<close> check spins on \<open>xchg\<close>; the CPU whose \<open>xchg\<close> returned 0 records
  itself in \<open>lk->cpu\<close>; \<open>release\<close> clears \<open>lk->cpu\<close> and then stores 0 into \<open>lk->locked\<close>.
\<close>

datatype phase = Won | Recorded | Cleared

record lockm =
  word :: "lock_id \<Rightarrow> u32"
  cpuf :: "lock_id \<Rightarrow> nat option"
  spin :: "nat \<Rightarrow> lock_id option"
  crit :: "nat \<Rightarrow> lock_id \<Rightarrow> phase option"

definition lockm_init :: lockm where
  "lockm_init = \<lparr>word = (\<lambda>_. 0), cpuf = (\<lambda>_. None), spin = (\<lambda>_. None), crit = (\<lambda>_ _. None)\<rparr>"

definition set_crit :: "nat \<Rightarrow> lock_id \<Rightarrow> phase option \<Rightarrow> lockm \<Rightarrow> lockm" where
  "set_crit h l ph m = m\<lparr>crit := (crit m)(h := (crit m h)(l := ph))\<rparr>"

inductive lock_step :: "lockm \<Rightarrow> lockm \<Rightarrow> bool" where
  enter: "spin m h = None \<Longrightarrow> \<not> (word m l \<noteq> 0 \<and> cpuf m l = Some h) \<Longrightarrow>
     lock_step m (m\<lparr>spin := (spin m)(h := Some l)\<rparr>)"
| xchg_lost: "spin m h = Some l \<Longrightarrow> word m l \<noteq> 0 \<Longrightarrow>
     lock_step m (m\<lparr>word := (word m)(l := 1)\<rparr>)"
| xchg_won: "spin m h = Some l \<Longrightarrow> word m l = 0 \<Longrightarrow>
     lock_step m (set_crit h l (Some Won) (m\<lparr>word := (word m)(l := 1), spin := (spin m)(h := None)\<rparr>))"
| record_cpu: "crit m h l = Some Won \<Longrightarrow>
     lock_step m (set_crit h l (Some Recorded) (m\<lparr>cpuf := (cpuf m)(l := Some h)\<rparr>))"
| clear_cpu: "crit m h l = Some Recorded \<Longrightarrow> word m l \<noteq> 0 \<Longrightarrow> cpuf m l = Some h \<Longrightarrow>
     lock_step m (set_crit h l (Some Cleared) (m\<lparr>cpuf := (cpuf m)(l := None)\<rparr>))"
| store_0: "crit m h l = Some Cleared \<Longrightarrow>
     lock_step m (set_crit h l None (m\<lparr>word := (word m)(l := 0)\<rparr>))"

inductive_simps lock_step_simps: "lock_step m m'"

inductive lock_reachable :: "lockm \<Rightarrow> bool" where
  start: "lock_reachable lockm_init"
| step: "lock_reachable m \<Longrightarrow> lock_step m m' \<Longrightarrow> lock_reachable m'"

definition lock_inv :: "lockm \<Rightarrow> bool" where
  "lock_inv m \<longleftrightarrow>
     (\<forall>h l. crit m h l \<noteq> None \<longrightarrow> word m l \<noteq> 0) \<and>
     (\<forall>h h' l. crit m h l \<noteq> None \<longrightarrow> crit m h' l \<noteq> None \<longrightarrow> h = h') \<and>
     (\<forall>h l. cpuf m l = Some h \<longleftrightarrow> crit m h l = Some Recorded)"

lemma lock_inv_init: "lock_inv lockm_init"
  by (simp add: lock_inv_def lockm_init_def)

lemma lock_invD:
  assumes "lock_inv m"
  shows "crit m h l = Some ph \<Longrightarrow> word m l \<noteq> 0"
    and "crit m h l = Some ph \<Longrightarrow> crit m h' l = Some ph' \<Longrightarrow> h = h'"
    and "cpuf m l = Some h \<longleftrightarrow> crit m h l = Some Recorded"
  using assms unfolding lock_inv_def by (metis option.distinct(1))+

lemma lock_inv_step:
  assumes "lock_step m m'" "lock_inv m"
  shows "lock_inv m'"
proof -
  note inv = lock_invD [OF assms(2)]
  from assms(1) show ?thesis
  proof cases
    case (enter h l)
    with assms(2) show ?thesis by (simp add: lock_inv_def)
  next
    case (xchg_lost h l)
    with assms(2) show ?thesis by (simp add: lock_inv_def)
  next
    case (xchg_won h l)
    with inv show ?thesis by (fastforce simp: lock_inv_def set_crit_def)
  next
    case (record_cpu h l)
    with inv show ?thesis by (fastforce simp: lock_inv_def set_crit_def)
  next
    case (clear_cpu h l)
    with inv show ?thesis by (fastforce simp: lock_inv_def set_crit_def)
  next
    case (store_0 h l)
    with inv show ?thesis by (fastforce simp: lock_inv_def set_crit_def)
  qed
qed

lemma lock_reachable_inv: "lock_reachable m \<Longrightarrow> lock_inv m"
  by (induction rule: lock_reachable.induct) (auto intro: lock_inv_init lock_inv_step)

section \<open>Properties\<close>

text \<open>
  C14: mutual exclusion. In every state that any interleaving of CPUs executing \<open>acquire\<close> and \<open>release\<close>
  reaches, at most one CPU is between winning the \<open>xchg\<close> of a lock and the store that releases it, and
  the test of \<open>holding\<close> is true of a CPU exactly while it is inside its critical section.
\<close>

theorem spinlock_mutual_exclusion:
  assumes "lock_reachable m"
  shows "(crit m h l \<noteq> None \<longrightarrow> crit m h' l \<noteq> None \<longrightarrow> h = h') \<and>
    ((word m l \<noteq> 0 \<and> cpuf m l = Some h) \<longleftrightarrow> crit m h l = Some Recorded)"
  using lock_invD [OF lock_reachable_inv [OF assms]] by blast

lemma lock_demo_reachable:
  "\<exists>m. lock_reachable m \<and> crit m 0 LK_kmem = Some Won"
proof -
  let ?m1 = "lockm_init\<lparr>spin := (spin lockm_init)(0 := Some LK_kmem)\<rparr>"
  have "lock_step lockm_init ?m1" by (rule lock_step.enter) (simp_all add: lockm_init_def)
  then have "lock_reachable ?m1" by (rule lock_reachable.step [OF lock_reachable.start])
  moreover have "lock_step ?m1 (set_crit 0 LK_kmem (Some Won)
      (?m1\<lparr>word := (word ?m1)(LK_kmem := 1), spin := (spin ?m1)(0 := None)\<rparr>))"
    by (rule lock_step.xchg_won) (simp_all add: lockm_init_def)
  ultimately have "lock_reachable (set_crit 0 LK_kmem (Some Won)
      (?m1\<lparr>word := (word ?m1)(LK_kmem := 1), spin := (spin ?m1)(0 := None)\<rparr>))"
    by (rule lock_reachable.step)
  moreover have "crit (set_crit 0 LK_kmem (Some Won) m) 0 LK_kmem = Some Won" for m
    by (simp add: set_crit_def)
  ultimately show ?thesis by blast
qed

theorem spinlock_mutual_exclusion_witness:
  "\<exists>m. lock_reachable m \<and> crit m 0 LK_kmem = Some Won \<and> crit m 1 LK_kmem = None"
proof -
  obtain m where m: "lock_reachable m" "crit m 0 LK_kmem = Some Won" using lock_demo_reachable by blast
  have "(0::nat) \<noteq> 1" by simp
  with spinlock_mutual_exclusion [OF m(1), of 0 LK_kmem 1] m(2) have "crit m 1 LK_kmem = None" by blast
  with m show ?thesis by blast
qed

text \<open>
  Interrupt nesting. On a CPU whose \<open>cli\<close> depth is consistent, \<open>n\<close> nested \<open>pushcli\<close> calls followed
  by \<open>n\<close> \<open>popcli\<close> calls never panic, keep interrupts off in between, and give back the depth and,
  when the depth is back to 0, the interrupt flag the CPU had before.
\<close>

lemma cli_nests:
  assumes "cli_ok hw c m"
  shows "\<exists>m1 m2. times_r n (pushcli hw) m = Inr m1 \<and> times_r n (popcli hw) m1 = Inr m2 \<and>
    (0 < n \<longrightarrow> \<not> iflag m1 hw) \<and> ncli (cpus m2 c) = ncli (cpus m c) \<and>
    (ncli (cpus m c) = 0 \<longrightarrow> iflag m2 hw = iflag m hw)"
proof -
  obtain m1 where m1: "times_r n (pushcli hw) m = Inr m1" "cli_ok hw c m1"
    "ncli (cpus m1 c) = ncli (cpus m c) + int n" "saved_if hw c m1 = saved_if hw c m"
    using pushcli_times [OF assms] by blast
  have d: "0 \<le> ncli (cpus m c)" using assms by (simp add: cli_ok_def)
  obtain m2 where m2: "times_r n (popcli hw) m1 = Inr m2" "ncli (cpus m2 c) = ncli (cpus m1 c) - int n"
    "saved_if hw c m2 = saved_if hw c m1"
    using popcli_times [OF m1(2), of n] m1(3) d by auto
  have "0 < n \<longrightarrow> \<not> iflag m1 hw" using m1(2,3) d by (auto simp: cli_ok_def)
  moreover have "ncli (cpus m c) = 0 \<longrightarrow> iflag m2 hw = iflag m hw"
    using m2 m1(3,4) by (auto simp: saved_if_def)
  ultimately show ?thesis using m1 m2 by auto
qed

definition smp_demo :: smp where
  "smp_demo = \<lparr>locks = (\<lambda>_. \<lparr>locked = 0, lname = [], lcpu = None, pcs = []\<rparr>),
     cpus = (\<lambda>_. \<lparr>apicid = 7, ncli = 0, intena = False\<rparr>), ncpu = 1, iflag = (\<lambda>_. True), smem = (\<lambda>_. 0)\<rparr>"

text \<open>
  C25: the list of held locks the other components use is a refinement of the multiprocessor locks:
  whenever \<open>acquire\<close> or \<open>release\<close> succeeds on the machine, \<open>acq\<close> or \<open>rel\<close> succeeds on the list, and the
  list stays exactly the set of locks this CPU owns.
\<close>

theorem held_locks_refine_spinlocks:
  assumes "held_rel hw m s"
  shows "(acquire hw v l m = Inr m' \<longrightarrow> (\<exists>s'. acq l s = Inr s' \<and> held_rel hw m' s')) \<and>
    (release hw l m = Inr m' \<longrightarrow> (\<exists>s'. rel l s = Inr s' \<and> held_rel hw m' s'))"
  using acquire_simulated [OF assms] release_simulated [OF assms] by blast

theorem held_locks_refine_spinlocks_witness:
  "\<exists>m' s'. acquire 7 0 LK_kmem smp_demo = Inr m' \<and> acq LK_kmem \<lparr>held = []\<rparr> = Inr s' \<and> held_rel 7 m' s'"
proof -
  have "held_rel 7 smp_demo \<lparr>held = []\<rparr>" by (simp add: held_rel_def cpu_owns_def smp_demo_def)
  moreover have "\<exists>m'. acquire 7 0 LK_kmem smp_demo = Inr m'"
    by (simp add: acquire_def smp_demo_def pushcli_def mycpu_def holding_def popcli_def set_cpu_def set_if_def
        set_lock_def Let_def)
  ultimately show ?thesis using held_locks_refine_spinlocks by blast
qed

end
