(* ===== verification/Kalloc.thy ===== *)
theory Kalloc
  imports Spinlock
begin

text \<open>
  \<open>xv6/kalloc.c\<close>: the physical page allocator, with the address constants of \<open>xv6/memlayout.h\<close> and
  \<open>xv6/mmu.h\<close>.

  The free list lives in memory as in the source: the first word of a free page is the address of
  the next free page. \<open>kpool s xs\<close> relates it to the list \<open>xs\<close> of free pages, and the operations
  refine push and pop of that list. The lock calls of the source are made on the held-lock state
  of \<open>Spinlock\<close>; as in the source they are skipped until \<open>kinit2\<close> has run.
\<close>

definition PGSIZE :: u32 where "PGSIZE = 4096"
definition KERNBASE :: u32 where "KERNBASE = 0x80000000"
definition PHYSTOP :: u32 where "PHYSTOP = 0x20000000"

definition V2P :: "u32 \<Rightarrow> u32" where "V2P a = a - KERNBASE"
definition P2V :: "u32 \<Rightarrow> u32" where "P2V a = a + KERNBASE"

definition PGROUNDUP :: "u32 \<Rightarrow> u32" where
  "PGROUNDUP sz = (sz + PGSIZE - 1) AND NOT (PGSIZE - 1)"

definition PGROUNDDOWN :: "u32 \<Rightarrow> u32" where
  "PGROUNDDOWN a = a AND NOT (PGSIZE - 1)"

record kmem_st = kst +
  mem :: mem
  kend :: u32
  use_lock :: bool
  freelist :: u32

definition lock_kmem :: "'a kmem_st_scheme \<Rightarrow> 'a kmem_st_scheme res" where
  "lock_kmem s = (if use_lock s then acq LK_kmem s else Inr s)"

definition unlock_kmem :: "'a kmem_st_scheme \<Rightarrow> 'a kmem_st_scheme res" where
  "unlock_kmem s = (if use_lock s then rel LK_kmem s else Inr s)"

definition kfree :: "u32 \<Rightarrow> 'a kmem_st_scheme \<Rightarrow> 'a kmem_st_scheme res" where
  "kfree v s =
     (if v mod PGSIZE \<noteq> 0 \<or> v < kend s \<or> V2P v \<ge> PHYSTOP then Inl (Panic ''kfree'')
      else
        let s = s\<lparr>mem := memset (mem s) v 1 PGSIZE\<rparr> in
        bind_r (lock_kmem s) (\<lambda>s.
        let s = s\<lparr>mem := store32 (mem s) v (freelist s)\<rparr>; s = s\<lparr>freelist := v\<rparr> in
        unlock_kmem s))"

definition kalloc :: "'a kmem_st_scheme \<Rightarrow> (u32 \<times> 'a kmem_st_scheme) res" where
  "kalloc s =
     bind_r (lock_kmem s) (\<lambda>s.
     let r = freelist s;
         s = (if r \<noteq> 0 then s\<lparr>freelist := load32 (mem s) r\<rparr> else s) in
     bind_r (unlock_kmem s) (\<lambda>s. Inr (r, s)))"

lemma kfree_Inr_range:
  "kfree v s = Inr s' \<Longrightarrow> v mod PGSIZE = 0 \<and> kend s \<le> v \<and> V2P v < PHYSTOP"
  by (auto simp: kfree_def not_less not_le split: if_splits)

lemma V2P_bound: "V2P p < PHYSTOP \<Longrightarrow> unat KERNBASE \<le> unat p \<and> unat p < unat KERNBASE + unat PHYSTOP"
  by (auto simp: V2P_def word_less_nat_alt KERNBASE_def PHYSTOP_def unat_sub_if_size word_size
      word_le_nat_alt split: if_splits)

function freerange_from :: "u32 \<Rightarrow> u32 \<Rightarrow> 'a kmem_st_scheme \<Rightarrow> 'a kmem_st_scheme res" where
  "freerange_from p vend s =
     (if p + PGSIZE \<le> vend
      then bind_r (kfree p s) (\<lambda>s. freerange_from (p + PGSIZE) vend s)
      else Inr s)"
  by pat_completeness auto
termination
proof (relation "measure (\<lambda>(p, vend, s). 2 ^ 32 - unat p)")
  fix p vend :: u32 and s s' :: "'a kmem_st_scheme"
  assume "kfree p s = Inr s'"
  then have "unat p < 3 * 2 ^ 30"
    using V2P_bound kfree_Inr_range by (fastforce simp: KERNBASE_def PHYSTOP_def)
  then have "unat (p + PGSIZE) = unat p + 4096"
    by (simp add: unat_word_ariths PGSIZE_def)
  then show "((p + PGSIZE, vend, s'), (p, vend, s)) \<in> measure (\<lambda>(p, vend, s). 2 ^ 32 - unat p)"
    using unat32_lt [of p] unat32_lt [of "p + PGSIZE"] by simp
qed simp

declare freerange_from.simps [simp del]

definition freerange :: "u32 \<Rightarrow> u32 \<Rightarrow> 'a kmem_st_scheme \<Rightarrow> 'a kmem_st_scheme res" where
  "freerange vstart vend s = freerange_from (PGROUNDUP vstart) vend s"

definition kinit1 :: "u32 \<Rightarrow> u32 \<Rightarrow> 'a kmem_st_scheme \<Rightarrow> 'a kmem_st_scheme res" where
  "kinit1 vstart vend s = freerange vstart vend (s\<lparr>use_lock := False\<rparr>)"

definition kinit2 :: "u32 \<Rightarrow> u32 \<Rightarrow> 'a kmem_st_scheme \<Rightarrow> 'a kmem_st_scheme res" where
  "kinit2 vstart vend s =
     bind_r (freerange vstart vend s) (\<lambda>s. Inr (s\<lparr>use_lock := True\<rparr>))"

section \<open>The list of free pages\<close>

fun flist :: "mem \<Rightarrow> u32 \<Rightarrow> u32 list \<Rightarrow> bool" where
  "flist m p [] \<longleftrightarrow> p = 0"
| "flist m p (x # xs) \<longleftrightarrow> p = x \<and> x \<noteq> 0 \<and> flist m (load32 m x) xs"

definition page_ok :: "'a kmem_st_scheme \<Rightarrow> u32 \<Rightarrow> bool" where
  "page_ok s v \<longleftrightarrow> v mod PGSIZE = 0 \<and> kend s \<le> v \<and> V2P v < PHYSTOP"

definition kpool :: "'a kmem_st_scheme \<Rightarrow> u32 list \<Rightarrow> bool" where
  "kpool s xs \<longleftrightarrow> flist (mem s) (freelist s) xs \<and> distinct xs \<and> (\<forall>x\<in>set xs. page_ok s x) \<and>
     LK_kmem \<notin> set (held s)"

lemma page_ok_nonzero: "page_ok s v \<Longrightarrow> v \<noteq> 0"
  by (auto simp: page_ok_def V2P_def KERNBASE_def PHYSTOP_def)

lemma page_separate:
  fixes a v k :: u32
  assumes "a mod PGSIZE = 0" "v mod PGSIZE = 0" "a \<noteq> v" "unat k < 4096"
  shows "4096 \<le> unat (a + k - v)"
proof -
  have am: "unat a mod 4096 = 0" "unat v mod 4096 = 0"
    using assms(1,2) by (simp_all add: PGSIZE_def word_unat_eq_iff unat_mod)
  then obtain i j where ij: "unat a = 4096 * i" "unat v = 4096 * j" by (auto elim!: dvdE simp: mod_eq_0_iff_dvd)
  have lt: "i < 2 ^ 20" "j < 2 ^ 20" using unat32_lt [of a] unat32_lt [of v] ij by simp_all
  have "i \<noteq> j" using assms(3) ij by (auto simp: word_unat_eq_iff)
  have ak: "unat (a + k) = unat a + unat k"
    using ij lt assms(4) by (simp add: unat_word_ariths)
  show ?thesis
    using ij lt ak assms(4) \<open>i \<noteq> j\<close> unat_sub_if_size [of "a + k" v]
    by (auto simp: word_le_nat_alt word_size)
qed

lemma flist_frame:
  "flist m p xs \<Longrightarrow> (\<And>x. x \<in> set xs \<Longrightarrow> load32 m' x = load32 m x) \<Longrightarrow> flist m' p xs"
  by (induction xs arbitrary: p) auto

lemma load32_memset_other:
  assumes "a mod PGSIZE = 0" "v mod PGSIZE = 0" "a \<noteq> v"
  shows "load32 (memset m v c PGSIZE) a = load32 m a"
  using page_separate [OF assms, of 0] page_separate [OF assms, of 1]
    page_separate [OF assms, of 2] page_separate [OF assms, of 3]
  by (simp add: load32_def memset_apply PGSIZE_def not_less)

lemma load32_store32_page:
  assumes "a mod PGSIZE = 0" "v mod PGSIZE = 0" "a \<noteq> v"
  shows "load32 (store32 m v w) a = load32 m a"
  using page_separate [OF assms, of 0] page_separate [OF assms(2,1), of 0] assms(3)
  by (intro load_store32_other) simp_all

text \<open>Writing inside a page that is not free keeps the pool.\<close>

lemma load32_other_page:
  assumes "y mod PGSIZE = 0" "x mod PGSIZE = 0" "y \<noteq> x"
    and "\<And>a. 4096 \<le> unat (a - x) \<Longrightarrow> m' a = m a"
  shows "load32 m' y = load32 m y"
  using page_separate [OF assms(1-3), of 0] page_separate [OF assms(1-3), of 1]
    page_separate [OF assms(1-3), of 2] page_separate [OF assms(1-3), of 3]
  by (simp add: load32_def assms(4))

lemma kpool_page_write:
  assumes "kpool s xs" "page_ok s x" "x \<notin> set xs" "\<And>a. 4096 \<le> unat (a - x) \<Longrightarrow> m' a = mem s a"
  shows "kpool (s\<lparr>mem := m'\<rparr>) xs"
proof -
  have "load32 m' y = load32 (mem s) y" if "y \<in> set xs" for y
    using assms that by (intro load32_other_page [of y x]) (auto simp: kpool_def page_ok_def)
  then have "flist m' (freelist s) xs"
    using assms(1) by (auto simp: kpool_def intro: flist_frame)
  then show ?thesis using assms(1) by (simp add: kpool_def page_ok_def)
qed

lemma store32_in_page:
  assumes "unat k \<le> 4092" "4096 \<le> unat (a - x)"
  shows "store32 m (x + k) w a = m a"
  using assms addr_plus [of k a x] by (auto simp: store32_apply)

lemma memset_in_page:
  assumes "unat k + unat n \<le> 4096" "4096 \<le> unat (a - x)"
  shows "memset m (x + k) c n a = m a"
  using assms addr_plus [of k a x] by (auto simp: memset_apply)

section \<open>Push and pop\<close>

lemma kfree_Inr:
  assumes "page_ok s v" "LK_kmem \<notin> set (held s)"
  shows "kfree v s =
    Inr (s\<lparr>mem := store32 (memset (mem s) v 1 PGSIZE) v (freelist s), freelist := v\<rparr>)"
  using assms by (auto simp: kfree_def page_ok_def lock_kmem_def unlock_kmem_def Let_def)

lemma kalloc_Inr:
  assumes "LK_kmem \<notin> set (held s)"
  shows "kalloc s = Inr (freelist s,
    if freelist s = 0 then s else s\<lparr>freelist := load32 (mem s) (freelist s)\<rparr>)"
  using assms by (auto simp: kalloc_def lock_kmem_def unlock_kmem_def Let_def)

lemma kfree_kpool:
  assumes "kpool s xs" "page_ok s v" "v \<notin> set xs"
  shows "\<exists>s'. kfree v s = Inr s' \<and> kpool s' (v # xs) \<and> held s' = held s \<and> kend s' = kend s \<and>
    (\<forall>a. 4096 \<le> unat (a - v) \<longrightarrow> mem s' a = mem s a)"
proof -
  let ?m = "store32 (memset (mem s) v 1 PGSIZE) v (freelist s)"
  have *: "x mod PGSIZE = 0 \<and> x \<noteq> v" if "x \<in> set xs" for x
    using assms that by (auto simp: kpool_def page_ok_def)
  have "v mod PGSIZE = 0" using assms(2) by (simp add: page_ok_def)
  then have "load32 ?m x = load32 (mem s) x" if "x \<in> set xs" for x
    using * [OF that] by (simp add: load32_store32_page load32_memset_other)
  then have "flist ?m (freelist s) xs"
    using assms(1) by (auto simp: kpool_def intro: flist_frame)
  moreover have "?m a = mem s a" if "4096 \<le> unat (a - v)" for a
    using that by (simp add: store32_apply memset_apply PGSIZE_def)
  ultimately show ?thesis
    using assms page_ok_nonzero [OF assms(2)]
    by (auto simp: kfree_Inr kpool_def page_ok_def)
qed

lemma kalloc_kpool_Nil: "kpool s [] \<Longrightarrow> kalloc s = Inr (0, s)"
  by (simp add: kpool_def kalloc_Inr)

lemma kalloc_kpool_Cons:
  "kpool s (x # xs) \<Longrightarrow>
   kalloc s = Inr (x, s\<lparr>freelist := load32 (mem s) x\<rparr>) \<and> kpool (s\<lparr>freelist := load32 (mem s) x\<rparr>) xs"
  by (auto simp: kpool_def kalloc_Inr page_ok_def)

lemma kalloc_kend: "kalloc s = Inr (r, s') \<Longrightarrow> kend s' = kend s"
  by (auto simp: kalloc_def lock_kmem_def unlock_kmem_def acq_def rel_def bind_r_eq_Inr
      Let_def split: if_splits)

section \<open>The allocator interface\<close>

text \<open>
  What the clients of the allocator (page tables, kernel stacks, pipes, the network buffers) rely
  on: allocation returns null only when no page is free, and otherwise a valid page that leaves the
  pool; freeing a page that is not free puts it back.
\<close>

locale page_allocator =
  fixes alloc :: "'s \<Rightarrow> (u32 \<times> 's) res"
    and free :: "u32 \<Rightarrow> 's \<Rightarrow> 's res"
    and pool :: "'s \<Rightarrow> u32 list \<Rightarrow> bool"
    and page :: "'s \<Rightarrow> u32 \<Rightarrow> bool"
  assumes alloc_Nil: "pool s [] \<Longrightarrow> \<exists>s'. alloc s = Inr (0, s') \<and> pool s' []"
    and alloc_Cons: "pool s (x # xs) \<Longrightarrow> \<exists>s'. alloc s = Inr (x, s') \<and> pool s' xs"
    and free_page: "pool s xs \<Longrightarrow> page s v \<Longrightarrow> v \<notin> set xs \<Longrightarrow> \<exists>s'. free v s = Inr s' \<and> pool s' (v # xs)"
    and pool_distinct: "pool s xs \<Longrightarrow> distinct xs"
    and pool_page: "pool s xs \<Longrightarrow> x \<in> set xs \<Longrightarrow> page s x \<and> x \<noteq> 0"
    and page_stable: "alloc s = Inr (r, s') \<Longrightarrow> page s' v \<longleftrightarrow> page s v"
begin

fun alloc_many :: "nat \<Rightarrow> 's \<Rightarrow> (u32 list \<times> 's) res" where
  "alloc_many 0 s = Inr ([], s)"
| "alloc_many (Suc n) s =
     bind_r (alloc s) (\<lambda>(r, s). bind_r (alloc_many n s) (\<lambda>(rs, s). Inr (r # rs, s)))"

lemma alloc_many_take:
  "pool s xs \<Longrightarrow> n \<le> length xs \<Longrightarrow>
   \<exists>s'. alloc_many n s = Inr (take n xs, s') \<and> pool s' (drop n xs)"
proof (induction n arbitrary: s xs)
  case (Suc n)
  then obtain x ys where xs: "xs = x # ys" by (cases xs) auto
  with Suc.prems obtain s1 where "alloc s = Inr (x, s1)" "pool s1 ys"
    using alloc_Cons by blast
  with Suc.IH [of s1 ys] Suc.prems xs show ?case by auto
qed simp

lemma alloc_many_distinct:
  assumes "pool s xs" "n \<le> length xs" "alloc_many n s = Inr (ps, s')"
  shows "distinct ps \<and> length ps = n \<and> 0 \<notin> set ps"
proof -
  have "ps = take n xs" using alloc_many_take [OF assms(1,2)] assms(3) by auto
  then show ?thesis
    using pool_distinct [OF assms(1)] pool_page [OF assms(1)] assms(2) in_set_takeD by fastforce
qed

lemma alloc_free_restores:
  assumes "pool s (x # xs)"
  shows "\<exists>s1 s2. alloc s = Inr (x, s1) \<and> free x s1 = Inr s2 \<and> pool s2 (x # xs)"
proof -
  obtain s1 where s1: "alloc s = Inr (x, s1)" "pool s1 xs" using alloc_Cons [OF assms] by blast
  moreover have "page s1 x" using pool_page [OF assms] page_stable [OF s1(1)] by simp
  moreover have "x \<notin> set xs" using pool_distinct [OF assms] by simp
  ultimately show ?thesis using free_page by blast
qed

end

interpretation km: page_allocator kalloc kfree kpool page_ok
proof
  show "kpool s [] \<Longrightarrow> \<exists>s'. kalloc s = Inr (0, s') \<and> kpool s' []" for s :: "'a kmem_st_scheme"
    using kalloc_kpool_Nil by blast
  show "kpool s (x # xs) \<Longrightarrow> \<exists>s'. kalloc s = Inr (x, s') \<and> kpool s' xs"
    for s :: "'a kmem_st_scheme" and x xs
    using kalloc_kpool_Cons by blast
  show "kpool s xs \<Longrightarrow> page_ok s v \<Longrightarrow> v \<notin> set xs \<Longrightarrow> \<exists>s'. kfree v s = Inr s' \<and> kpool s' (v # xs)"
    for s :: "'a kmem_st_scheme" and xs v
    using kfree_kpool by blast
  show "kpool s xs \<Longrightarrow> distinct xs" for s :: "'a kmem_st_scheme" and xs
    by (simp add: kpool_def)
  show "kpool s xs \<Longrightarrow> x \<in> set xs \<Longrightarrow> page_ok s x \<and> x \<noteq> 0" for s :: "'a kmem_st_scheme" and xs x
    using page_ok_nonzero by (auto simp: kpool_def)
  show "kalloc s = Inr (r, s') \<Longrightarrow> page_ok s' v \<longleftrightarrow> page_ok s v" for s s' :: "'a kmem_st_scheme" and r v
    using kalloc_kend [of s r s'] by (simp add: page_ok_def)
qed

section \<open>Building the pool at boot\<close>

text \<open>The pages \<open>freerange\<close> frees, in the order it frees them.\<close>

fun pages_from :: "u32 \<Rightarrow> nat \<Rightarrow> u32 list" where
  "pages_from p 0 = []"
| "pages_from p (Suc n) = p # pages_from (p + PGSIZE) n"

lemma pages_from_nth: "x \<in> set (pages_from p n) \<longleftrightarrow> (\<exists>k<n. x = p + of_nat k * PGSIZE)"
  by (induction n arbitrary: p) (auto simp: Ex_less_Suc2 algebra_simps)

lemma freerange_from_kpool:
  assumes "kpool s xs" "p mod PGSIZE = 0" "kend s \<le> p" "KERNBASE \<le> p"
    and "unat p + n * 4096 \<le> unat vend" "unat vend < unat p + Suc n * 4096"
    and "unat vend \<le> unat KERNBASE + unat PHYSTOP"
    and "\<And>x. x \<in> set xs \<Longrightarrow> unat x < unat p"
  shows "\<exists>s'. freerange_from p vend s = Inr s' \<and> kpool s' (rev (pages_from p n) @ xs) \<and>
    held s' = held s"
  using assms
proof (induction n arbitrary: p s xs)
  case 0
  then have "unat (p + PGSIZE) = unat p + 4096"
    by (simp add: unat_word_ariths PGSIZE_def KERNBASE_def PHYSTOP_def)
  with 0 show ?case by (subst freerange_from.simps) (simp add: word_le_nat_alt)
next
  case (Suc n)
  have up: "unat (p + PGSIZE) = unat p + 4096"
    using Suc.prems by (simp add: unat_word_ariths PGSIZE_def KERNBASE_def PHYSTOP_def)
  have "page_ok s p"
    using Suc.prems
    by (auto simp: page_ok_def V2P_def word_less_nat_alt word_le_nat_alt unat_sub PHYSTOP_def KERNBASE_def)
  moreover have "p \<notin> set xs" using Suc.prems(8) by auto
  ultimately obtain s1 where s1: "kfree p s = Inr s1" "kpool s1 (p # xs)" "held s1 = held s"
    "kend s1 = kend s"
    using kfree_kpool [OF Suc.prems(1)] by blast
  have "unat (p + PGSIZE) mod 4096 = 0"
    using Suc.prems(2) up by (simp add: PGSIZE_def word_unat_eq_iff unat_mod)
  then have al: "(p + PGSIZE) mod PGSIZE = 0" by (simp add: PGSIZE_def word_unat_eq_iff unat_mod)
  have "\<exists>s'. freerange_from (p + PGSIZE) vend s1 = Inr s' \<and>
     kpool s' (rev (pages_from (p + PGSIZE) n) @ (p # xs)) \<and> held s' = held s1"
  proof (rule Suc.IH [OF s1(2) al])
    show "kend s1 \<le> p + PGSIZE" "KERNBASE \<le> p + PGSIZE"
      using Suc.prems(3,4) up s1(4) by (simp_all add: word_le_nat_alt)
    show "unat x < unat (p + PGSIZE)" if "x \<in> set (p # xs)" for x
      using that Suc.prems(8) up by fastforce
  qed (use Suc.prems up in simp_all)
  moreover have "p + PGSIZE \<le> vend" using Suc.prems(5) up by (simp add: word_le_nat_alt)
  ultimately show ?case using s1 by (subst freerange_from.simps) simp
qed

section \<open>Properties\<close>

definition kmem_demo :: kmem_st where
  "kmem_demo = \<lparr>held = [], mem = (\<lambda>_. 0), kend = 0x80100000, use_lock = True, freelist = 0x80200000\<rparr>"

lemma kmem_demo_pool: "kpool kmem_demo [0x80200000]"
  by (simp add: kpool_def kmem_demo_def page_ok_def load32_def of_le32_def PGSIZE_def V2P_def
      KERNBASE_def PHYSTOP_def)

text \<open>
  C18: \<open>kalloc\<close> refines popping the list of free pages. With an empty pool it returns the null
  pointer and changes nothing; otherwise it returns the page at the head of the list, which leaves
  the pool. Memory is not written and \<open>kmem.lock\<close> is released again.
\<close>

theorem kalloc_pops_pool:
  assumes "kpool s xs"
  shows "\<exists>s'. kalloc s = Inr ((case xs of [] \<Rightarrow> 0 | x # _ \<Rightarrow> x), s') \<and> kpool s' (tl xs) \<and>
    mem s' = mem s \<and> held s' = held s"
proof (cases xs)
  case Nil
  then show ?thesis using kalloc_kpool_Nil assms by auto
next
  case (Cons x ys)
  then show ?thesis using kalloc_kpool_Cons [of s x ys] assms by auto
qed

theorem kalloc_pops_pool_witness:
  "kpool kmem_demo [0x80200000] \<and>
   (\<exists>s'. kalloc kmem_demo = Inr (0x80200000, s') \<and> kpool s' [] \<and> held s' = [])"
  using kalloc_pops_pool [OF kmem_demo_pool] kmem_demo_pool by (auto simp: kmem_demo_def)

text \<open>
  \<open>kfree\<close> refines pushing onto the list of free pages. For a page-aligned address inside the
  allocator's physical range that is not already free, it puts the page at the head of the pool,
  keeps every byte outside that page, and leaves the lock state as it was; for any other address
  outside the range it panics.
\<close>

lemma kfree_pushes_pool:
  assumes "kpool s xs" "v \<notin> set xs"
  shows "if page_ok s v
    then \<exists>s'. kfree v s = Inr s' \<and> kpool s' (v # xs) \<and> held s' = held s \<and>
      (\<forall>a. 4096 \<le> unat (a - v) \<longrightarrow> mem s' a = mem s a)
    else kfree v s = Inl (Panic ''kfree'')"
proof (cases "page_ok s v")
  case True
  then show ?thesis using kfree_kpool [OF assms(1) True assms(2)] by auto
next
  case False
  then have "v mod PGSIZE \<noteq> 0 \<or> v < kend s \<or> V2P v \<ge> PHYSTOP"
    unfolding page_ok_def by (simp only: de_Morgan_conj not_le not_less)
  then have "kfree v s = Inl (Panic ''kfree'')" unfolding kfree_def by (rule if_P)
  with False show ?thesis by simp
qed

text \<open>
  At boot, freeing a page-aligned range \<open>[p, vend)\<close> of memory above \<open>end\<close> and below
  \<open>P2V(PHYSTOP)\<close> puts exactly its whole pages into the pool (the last page of the range first),
  without panicking and without leaving \<open>kmem.lock\<close> held.
\<close>

lemma freerange_fills_pool:
  assumes "kpool s []" "p mod PGSIZE = 0" "kend s \<le> p" "KERNBASE \<le> p"
    and "unat p + n * 4096 \<le> unat vend" "unat vend < unat p + Suc n * 4096"
    and "unat vend \<le> unat KERNBASE + unat PHYSTOP"
  shows "\<exists>s'. freerange_from p vend s = Inr s' \<and> kpool s' (rev (pages_from p n)) \<and> held s' = held s"
  using freerange_from_kpool [OF assms] by simp

end
