(* ===== verification/Vm.thy ===== *)
theory Vm
  imports Kalloc
begin

text \<open>
  \<open>xv6/vm.c\<close> with the page-table macros of \<open>xv6/mmu.h\<close> and the layout constants of
  \<open>xv6/memlayout.h\<close>: two-level page tables that live in kernel memory.

  A \<open>pde_t *\<close> or \<open>pte_t *\<close> is the kernel virtual address of the entry; a page directory is the
  address of its page. The linker symbol \<open>data\<close> and the frame buffer's description \<open>gpu\<close>, which
  \<open>setupkvm\<close> reads, are fields of the state. Loops over pages carry a bound on the number of
  turns, computed from the range they walk; \<open>loaduvm\<close>, which reads an inode, is in a later theory.
  The messages \<open>allocuvm\<close> prints when memory runs out are not modelled.
\<close>

definition PTE_P :: u32 where "PTE_P = 1"
definition PTE_W :: u32 where "PTE_W = 2"
definition PTE_U :: u32 where "PTE_U = 4"

definition PDX :: "u32 \<Rightarrow> u32" where "PDX va = drop_bit 22 va AND 0x3FF"
definition PTX :: "u32 \<Rightarrow> u32" where "PTX va = drop_bit 12 va AND 0x3FF"

definition PGADDR :: "u32 \<Rightarrow> u32 \<Rightarrow> u32 \<Rightarrow> u32" where
  "PGADDR d t off = push_bit 22 d OR push_bit 12 t OR off"

definition PTE_ADDR :: "u32 \<Rightarrow> u32" where "PTE_ADDR pte = pte AND NOT 0xFFF"
definition PTE_FLAGS :: "u32 \<Rightarrow> u32" where "PTE_FLAGS pte = pte AND 0xFFF"

definition EXTMEM :: u32 where "EXTMEM = 0x100000"
definition DEVSPACE :: u32 where "DEVSPACE = 0xFE000000"
definition KERNLINK :: u32 where "KERNLINK = KERNBASE + EXTMEM"
definition PCI_BAR_BASE :: u32 where "PCI_BAR_BASE = 0x80000000"
definition PCI_VP_OFFSET :: u32 where "PCI_VP_OFFSET = 0x40000000"
definition NPDENTRIES :: nat where "NPDENTRIES = 1024"

record gpu =
  pvram_addr :: u32
  vvram_addr :: u32
  vram_size :: u32
  horizontal_resolution :: u32
  vertical_resolution :: u32
  pixels_per_line :: u32

record vm_st = kmem_st +
  data_addr :: u32
  vgpu :: gpu

section \<open>Walking and mapping\<close>

definition walkpgdir :: "u32 \<Rightarrow> u32 \<Rightarrow> bool \<Rightarrow> 'a kmem_st_scheme \<Rightarrow> (u32 \<times> 'a kmem_st_scheme) res" where
  "walkpgdir pgdir va alloc s =
     (let pde = pgdir + 4 * PDX va in
      if load32 (mem s) pde AND PTE_P \<noteq> 0
      then Inr (P2V (PTE_ADDR (load32 (mem s) pde)) + 4 * PTX va, s)
      else if \<not> alloc then Inr (0, s)
      else bind_r (kalloc s) (\<lambda>(pgtab, s).
        if pgtab = 0 then Inr (0, s)
        else
          let s = s\<lparr>mem := memset (mem s) pgtab 0 PGSIZE\<rparr>;
              s = s\<lparr>mem := store32 (mem s) pde (V2P pgtab OR PTE_P OR PTE_W OR PTE_U)\<rparr> in
          Inr (pgtab + 4 * PTX va, s)))"

fun mappages_loop :: "nat \<Rightarrow> u32 \<Rightarrow> u32 \<Rightarrow> u32 \<Rightarrow> u32 \<Rightarrow> u32 \<Rightarrow> 'a kmem_st_scheme \<Rightarrow> (int \<times> 'a kmem_st_scheme) res" where
  "mappages_loop 0 pgdir a lst pa perm s = Inl NoFuel"
| "mappages_loop (Suc fuel) pgdir a lst pa perm s =
     bind_r (walkpgdir pgdir a True s) (\<lambda>(pte, s).
     if pte = 0 then Inr (- 1, s)
     else if load32 (mem s) pte AND PTE_P \<noteq> 0 then Inl (Panic ''remap'')
     else
       let s = s\<lparr>mem := store32 (mem s) pte (pa OR perm OR PTE_P)\<rparr> in
       if a = lst then Inr (0, s)
       else mappages_loop fuel pgdir (a + PGSIZE) lst (pa + PGSIZE) perm s)"

definition mappages :: "u32 \<Rightarrow> u32 \<Rightarrow> u32 \<Rightarrow> u32 \<Rightarrow> u32 \<Rightarrow> 'a kmem_st_scheme \<Rightarrow> (int \<times> 'a kmem_st_scheme) res" where
  "mappages pgdir va sz pa perm s =
     (let a = PGROUNDDOWN va; lst = PGROUNDDOWN (va + sz - 1) in
      mappages_loop (Suc (unat ((lst - a) div PGSIZE))) pgdir a lst pa perm s)"

section \<open>User memory\<close>

fun deallocuvm_loop :: "nat \<Rightarrow> u32 \<Rightarrow> u32 \<Rightarrow> u32 \<Rightarrow> 'a kmem_st_scheme \<Rightarrow> 'a kmem_st_scheme res" where
  "deallocuvm_loop 0 pgdir a oldsz s = Inl NoFuel"
| "deallocuvm_loop (Suc fuel) pgdir a oldsz s =
     (if \<not> a < oldsz then Inr s
      else bind_r (walkpgdir pgdir a False s) (\<lambda>(pte, s).
        if pte = 0
        then deallocuvm_loop fuel pgdir (PGADDR (PDX a + 1) 0 0 - PGSIZE + PGSIZE) oldsz s
        else if load32 (mem s) pte AND PTE_P \<noteq> 0 then
          let pa = PTE_ADDR (load32 (mem s) pte) in
          if pa = 0 then Inl (Panic ''kfree'')
          else bind_r (kfree (P2V pa) s) (\<lambda>s.
            deallocuvm_loop fuel pgdir (a + PGSIZE) oldsz (s\<lparr>mem := store32 (mem s) pte 0\<rparr>))
        else deallocuvm_loop fuel pgdir (a + PGSIZE) oldsz s))"

definition deallocuvm :: "u32 \<Rightarrow> u32 \<Rightarrow> u32 \<Rightarrow> 'a kmem_st_scheme \<Rightarrow> (u32 \<times> 'a kmem_st_scheme) res" where
  "deallocuvm pgdir oldsz newsz s =
     (if newsz \<ge> oldsz then Inr (oldsz, s)
      else bind_r (deallocuvm_loop (unat (oldsz div PGSIZE) + 2) pgdir (PGROUNDUP newsz) oldsz s)
        (\<lambda>s. Inr (newsz, s)))"

fun allocuvm_loop :: "nat \<Rightarrow> u32 \<Rightarrow> u32 \<Rightarrow> u32 \<Rightarrow> u32 \<Rightarrow> 'a kmem_st_scheme \<Rightarrow> (u32 \<times> 'a kmem_st_scheme) res" where
  "allocuvm_loop 0 pgdir a oldsz newsz s = Inl NoFuel"
| "allocuvm_loop (Suc fuel) pgdir a oldsz newsz s =
     (if \<not> a < newsz then Inr (newsz, s)
      else bind_r (kalloc s) (\<lambda>(m, s).
        if m = 0 then bind_r (deallocuvm pgdir newsz oldsz s) (\<lambda>(_, s). Inr (0, s))
        else bind_r (mappages pgdir a PGSIZE (V2P m) (PTE_W OR PTE_U) (s\<lparr>mem := memset (mem s) m 0 PGSIZE\<rparr>)) (\<lambda>(r, s).
          if r < 0 then
            bind_r (deallocuvm pgdir newsz oldsz s) (\<lambda>(_, s).
            bind_r (kfree m s) (\<lambda>s. Inr (0, s)))
          else allocuvm_loop fuel pgdir (a + PGSIZE) oldsz newsz s)))"

definition allocuvm :: "u32 \<Rightarrow> u32 \<Rightarrow> u32 \<Rightarrow> 'a kmem_st_scheme \<Rightarrow> (u32 \<times> 'a kmem_st_scheme) res" where
  "allocuvm pgdir oldsz newsz s =
     (if newsz \<ge> KERNBASE then Inr (0, s)
      else if newsz < oldsz then Inr (oldsz, s)
      else allocuvm_loop (unat (newsz div PGSIZE) + 2) pgdir (PGROUNDUP oldsz) oldsz newsz s)"

fun freevm_loop :: "u32 \<Rightarrow> u32 list \<Rightarrow> 'a kmem_st_scheme \<Rightarrow> 'a kmem_st_scheme res" where
  "freevm_loop pgdir [] s = Inr s"
| "freevm_loop pgdir (i # is) s =
     (let e = load32 (mem s) (pgdir + 4 * i) in
      if e AND PTE_P \<noteq> 0
      then bind_r (kfree (P2V (PTE_ADDR e)) s) (freevm_loop pgdir is)
      else freevm_loop pgdir is s)"

definition freevm :: "u32 \<Rightarrow> 'a kmem_st_scheme \<Rightarrow> 'a kmem_st_scheme res" where
  "freevm pgdir s =
     (if pgdir = 0 then Inl (Panic ''freevm: no pgdir'')
      else bind_r (deallocuvm pgdir KERNBASE 0 s) (\<lambda>(_, s).
        bind_r (freevm_loop pgdir (map of_nat [0..<NPDENTRIES]) s) (kfree pgdir)))"

definition clearpteu :: "u32 \<Rightarrow> u32 \<Rightarrow> 'a kmem_st_scheme \<Rightarrow> 'a kmem_st_scheme res" where
  "clearpteu pgdir uva s =
     bind_r (walkpgdir pgdir uva False s) (\<lambda>(pte, s).
     if pte = 0 then Inl (Panic ''clearpteu'')
     else Inr (s\<lparr>mem := store32 (mem s) pte (load32 (mem s) pte AND NOT PTE_U)\<rparr>))"

definition inituvm :: "u32 \<Rightarrow> u32 \<Rightarrow> u32 \<Rightarrow> 'a kmem_st_scheme \<Rightarrow> 'a kmem_st_scheme res" where
  "inituvm pgdir init sz s =
     (if sz \<ge> PGSIZE then Inl (Panic ''inituvm: more than a page'')
      else bind_r (kalloc s) (\<lambda>(m, s).
        if m = 0 then Inl (Faults ''inituvm: null page'')
        else
          bind_r (mappages pgdir 0 PGSIZE (V2P m) (PTE_W OR PTE_U) (s\<lparr>mem := memset (mem s) m 0 PGSIZE\<rparr>))
            (\<lambda>(_, s). Inr (s\<lparr>mem := memmove (mem s) m init sz\<rparr>))))"

section \<open>The kernel part of a page table\<close>

record kmap_entry =
  kvirt :: u32
  phys_start :: u32
  phys_end :: u32
  kperm :: u32

definition kmap :: "'a vm_st_scheme \<Rightarrow> kmap_entry list" where
  "kmap s =
     [\<lparr>kvirt = KERNBASE, phys_start = 0, phys_end = EXTMEM, kperm = PTE_W\<rparr>,
      \<lparr>kvirt = KERNLINK, phys_start = V2P KERNLINK, phys_end = V2P (data_addr s), kperm = 0\<rparr>,
      \<lparr>kvirt = data_addr s, phys_start = V2P (data_addr s), phys_end = PHYSTOP, kperm = PTE_W\<rparr>,
      \<lparr>kvirt = DEVSPACE - vram_size (vgpu s), phys_start = pvram_addr (vgpu s),
       phys_end = pvram_addr (vgpu s) + vram_size (vgpu s), kperm = PTE_W\<rparr>,
      \<lparr>kvirt = PCI_BAR_BASE + PCI_VP_OFFSET, phys_start = PCI_BAR_BASE,
       phys_end = 0x10000000 + PCI_BAR_BASE, kperm = PTE_W\<rparr>,
      \<lparr>kvirt = DEVSPACE, phys_start = DEVSPACE, phys_end = 0, kperm = PTE_W\<rparr>]"

fun kmap_loop :: "u32 \<Rightarrow> kmap_entry list \<Rightarrow> 'a kmem_st_scheme \<Rightarrow> (u32 \<times> 'a kmem_st_scheme) res" where
  "kmap_loop pgdir [] s = Inr (pgdir, s)"
| "kmap_loop pgdir (k # ks) s =
     bind_r (mappages pgdir (kvirt k) (phys_end k - phys_start k) (phys_start k) (kperm k) s) (\<lambda>(r, s).
     if r < 0 then bind_r (freevm pgdir s) (\<lambda>s. Inr (0, s))
     else kmap_loop pgdir ks s)"

definition setupkvm :: "'a vm_st_scheme \<Rightarrow> (u32 \<times> 'a vm_st_scheme) res" where
  "setupkvm s =
     bind_r (kalloc s) (\<lambda>(pgdir, s).
     if pgdir = 0 then Inr (0, s)
     else if P2V PHYSTOP > DEVSPACE then Inl (Panic ''PHYSTOP too high'')
     else kmap_loop pgdir (kmap s) (s\<lparr>mem := memset (mem s) pgdir 0 PGSIZE\<rparr>))"

fun copyuvm_loop :: "nat \<Rightarrow> u32 \<Rightarrow> u32 \<Rightarrow> u32 \<Rightarrow> u32 \<Rightarrow> 'a vm_st_scheme \<Rightarrow> (u32 \<times> 'a vm_st_scheme) res" where
  "copyuvm_loop 0 pgdir d i sz s = Inl NoFuel"
| "copyuvm_loop (Suc fuel) pgdir d i sz s =
     (if \<not> i < sz then Inr (d, s)
      else bind_r (walkpgdir pgdir i False s) (\<lambda>(pte, s).
        if pte = 0 then Inl (Panic ''copyuvm: pte should exist'')
        else if load32 (mem s) pte AND PTE_P = 0 then Inl (Panic ''copyuvm: page not present'')
        else
          let pa = PTE_ADDR (load32 (mem s) pte); flags = PTE_FLAGS (load32 (mem s) pte) in
          bind_r (kalloc s) (\<lambda>(m, s).
          if m = 0 then bind_r (freevm d s) (\<lambda>s. Inr (0, s))
          else
            bind_r (mappages d i PGSIZE (V2P m) flags (s\<lparr>mem := memmove (mem s) m (P2V pa) PGSIZE\<rparr>)) (\<lambda>(r, s).
            if r < 0 then bind_r (freevm d s) (\<lambda>s. Inr (0, s))
            else copyuvm_loop fuel pgdir d (i + PGSIZE) sz s))))"

definition copyuvm :: "u32 \<Rightarrow> u32 \<Rightarrow> 'a vm_st_scheme \<Rightarrow> (u32 \<times> 'a vm_st_scheme) res" where
  "copyuvm pgdir sz s =
     bind_r (setupkvm s) (\<lambda>(d, s).
     if d = 0 then Inr (0, s)
     else copyuvm_loop (unat (sz div PGSIZE) + 2) pgdir d 0 sz s)"

section \<open>Access to user memory\<close>

text \<open>\<open>uva2ka\<close> dereferences the result of \<open>walkpgdir\<close> without testing it for null.\<close>

definition uva2ka :: "u32 \<Rightarrow> u32 \<Rightarrow> 'a kmem_st_scheme \<Rightarrow> u32 res" where
  "uva2ka pgdir uva s =
     bind_r (walkpgdir pgdir uva False s) (\<lambda>(pte, s).
     if pte = 0 then Inl (Faults ''uva2ka: null pte'')
     else if load32 (mem s) pte AND PTE_P = 0 then Inr 0
     else if load32 (mem s) pte AND PTE_U = 0 then Inr 0
     else Inr (P2V (PTE_ADDR (load32 (mem s) pte))))"

function copyout :: "u32 \<Rightarrow> u32 \<Rightarrow> u32 \<Rightarrow> u32 \<Rightarrow> 'a kmem_st_scheme \<Rightarrow> (int \<times> 'a kmem_st_scheme) res" where
  "copyout pgdir va p len s =
     (if \<not> len > 0 then Inr (0, s)
      else
        let va0 = PGROUNDDOWN va in
        bind_r (uva2ka pgdir va0 s) (\<lambda>pa0.
        if pa0 = 0 then Inr (- 1, s)
        else
          let n = PGSIZE - (va - va0);
              n = (if n > len then len else n) in
          copyout pgdir (va0 + PGSIZE) (p + n) (len - n)
            (s\<lparr>mem := memmove (mem s) (pa0 + (va - va0)) p n\<rparr>)))"
  by pat_completeness auto

lemma PGROUNDDOWN_mod: "PGROUNDDOWN va = va - va mod 4096" for va :: u32
proof -
  have m: "va mod 4096 = va AND 0xFFF"
    using take_bit_eq_mod [of 12 va] by (simp add: take_bit_eq_mask mask_eq_exp_minus_1)
  have "va - (va AND 0xFFF) = va AND NOT (va AND 0xFFF)"
    by (rule disjunctive_diff) (simp add: bit_and_iff)
  also have "\<dots> = va AND NOT 0xFFF" by (rule bit_word_eqI) (auto simp: bit_simps)
  finally show ?thesis by (simp add: m PGROUNDDOWN_def PGSIZE_def)
qed

lemma page_offset: "va - PGROUNDDOWN va = va mod 4096" for va :: u32
  by (simp add: PGROUNDDOWN_mod)

lemma page_offset_lt: "unat (va mod 4096 :: u32) < 4096"
  by (simp add: unat_mod)

termination copyout
proof (relation "measure (\<lambda>(pgdir, va, p, len, s). unat len)")
  fix pgdir va p len va0 pa0 x xa and s :: "'a kmem_st_scheme"
  assume "\<not> \<not> 0 < len" "va0 = PGROUNDDOWN va" "x = PGSIZE - (va - va0)" "xa = (if len < x then len else x)"
  moreover have "0 < unat (PGSIZE - (va - PGROUNDDOWN va))"
    using page_offset_lt [of va]
    by (auto simp: PGSIZE_def page_offset unat_sub word_le_nat_alt)
  ultimately have "0 < unat xa" "xa \<le> len" by (auto simp: word_less_nat_alt word_le_nat_alt)
  then show "((pgdir, va0 + PGSIZE, p + xa, len - xa,
      s\<lparr>mem := memmove (mem s) (pa0 + (va - va0)) p xa\<rparr>), pgdir, va, p, len, s) \<in>
      measure (\<lambda>(pgdir, va, p, len, s). unat len)"
    by (simp add: unat_sub) (simp add: word_le_nat_alt)
qed simp

declare copyout.simps [simp del]

section \<open>Page-table entries in memory\<close>

text \<open>
  Two words of page-aligned pages are the same word or do not overlap; every store of this file is
  to such a word.
\<close>

lemma PDX_lt [simp]: "unat (PDX va) < 1024"
  and PTX_lt [simp]: "unat (PTX va) < 1024"
proof -
  have "x AND 0x3FF = take_bit 10 x" for x :: u32 by (simp add: take_bit_eq_mask mask_eq_exp_minus_1)
  then show "unat (PDX va) < 1024" "unat (PTX va) < 1024"
    by (simp_all add: PDX_def PTX_def unat_mod take_bit_eq_mod)
qed

lemma unat_entry: "unat i < 1024 \<Longrightarrow> unat (4 * i :: u32) = 4 * unat i"
  by (simp add: unat_word_ariths)

lemma entry_off: "unat i < 1024 \<Longrightarrow> unat (4 * i :: u32) \<le> 4092"
  by (simp add: unat_entry)

lemma entry_sep_same:
  fixes p i j :: u32
  assumes "unat i < 1024" "unat j < 1024" "i \<noteq> j"
  shows "4 \<le> unat (p + 4 * i - (p + 4 * j))"
proof -
  have "unat i \<noteq> unat j" using assms(3) by (simp add: word_unat_eq_iff)
  then show ?thesis
    using assms unat_sub_if_size [of "4 * i" "4 * j"]
    by (auto simp: unat_entry word_le_nat_alt word_size)
qed

lemma entry_sep_other:
  fixes p q i j :: u32
  assumes "p mod PGSIZE = 0" "q mod PGSIZE = 0" "p \<noteq> q" "unat i < 1024" "unat j < 1024"
  shows "4 \<le> unat (p + 4 * i - (q + 4 * j))"
proof -
  have "4096 \<le> unat (p + 4 * i - q)" using assms by (intro page_separate) (simp_all add: unat_entry)
  then show ?thesis using assms(5) by (simp add: addr_plus unat_entry)
qed

lemma load_store_entry:
  assumes "p mod PGSIZE = 0" "q mod PGSIZE = 0" "unat i < 1024" "unat j < 1024"
  shows "load32 (store32 m (p + 4 * i) w) (q + 4 * j) =
    (if p = q \<and> i = j then w else load32 m (q + 4 * j))"
  using assms entry_sep_same [of i j p] entry_sep_same [of j i p] entry_sep_other [of p q i j]
    entry_sep_other [of q p j i]
  by (cases "p = q") (auto intro: load_store32_other)

lemma entry_byte:
  assumes "unat j < 1024" "k < (4 :: nat)"
  shows "unat (4 * j + of_nat k :: u32) < 4096"
  using assms by (simp add: unat_word_ariths unat_of_nat unat_entry take_bit_eq_mod)

lemma load_page_write:
  assumes "p mod PGSIZE = 0" "q mod PGSIZE = 0" "p \<noteq> q" "unat j < 1024"
    and "\<And>a. 4096 \<le> unat (a - p) \<Longrightarrow> m' a = m a"
  shows "load32 m' (q + 4 * j) = load32 m (q + 4 * j)"
proof -
  have "m' (q + (4 * j + of_nat k)) = m (q + (4 * j + of_nat k))" if "k < 4" for k
    using page_separate [OF assms(2,1) _ entry_byte [OF assms(4) that]] assms(3,5) by auto
  from this [of 0] this [of 1] this [of 2] this [of 3] show ?thesis
    by (simp add: load32_def add.assoc)
qed

lemma load_memset_entry:
  assumes "p mod PGSIZE = 0" "q mod PGSIZE = 0" "unat j < 1024"
  shows "load32 (memset m p 0 PGSIZE) (q + 4 * j) = (if p = q then 0 else load32 m (q + 4 * j))"
proof (cases "p = q")
  case True
  have "memset m q 0 PGSIZE (q + (4 * j + of_nat k)) = 0" if "k < 4" for k
    using entry_byte [OF assms(3) that] by (simp add: memset_apply PGSIZE_def)
  from this [of 0] this [of 1] this [of 2] this [of 3] True show ?thesis
    by (simp add: load32_def of_le32_def add.assoc)
next
  case False
  then show ?thesis
    using assms load_page_write [of p q j "memset m p 0 PGSIZE" m] by (simp add: memset_apply PGSIZE_def)
qed

lemma flag_bits [simp]: "w AND PTE_P = 0 \<longleftrightarrow> \<not> bit w 0" "w AND PTE_W = 0 \<longleftrightarrow> \<not> bit w 1"
  "w AND PTE_U = 0 \<longleftrightarrow> \<not> bit w 2"
  using and_pow2_eq_0_iff [of 0 w] and_pow2_eq_0_iff [of 1 w] and_pow2_eq_0_iff [of 2 w]
  by (simp_all add: PTE_P_def PTE_W_def PTE_U_def)

lemma aligned_bits: "p mod PGSIZE = 0 \<longleftrightarrow> (\<forall>n<12. \<not> bit p n)" for p :: u32
proof -
  have "p mod PGSIZE = take_bit 12 p" by (simp add: take_bit_eq_mod PGSIZE_def)
  then show ?thesis by (auto simp: bit_eq_iff bit_simps possible_bit_def)
qed

lemma PTE_ADDR_OR [simp]:
  assumes "p mod PGSIZE = 0" "unat f < 4096"
  shows "PTE_ADDR (p OR f) = p"
proof (rule bit_word_eqI)
  fix n assume "n < LENGTH(32)"
  have "f = take_bit 12 f" using assms(2) by (simp add: take_bit_eq_mod word_unat_eq_iff unat_mod)
  then have "\<not> bit f n" if "12 \<le> n" using that by (metis bit_take_bit_iff not_less)
  moreover have "bit (0xFFF :: u32) n \<longleftrightarrow> n < 12"
    using bit_mask_iff [of 12 n, where ?'a = u32] \<open>n < LENGTH(32)\<close> by (simp add: mask_eq_exp_minus_1)
  ultimately show "bit (PTE_ADDR (p OR f)) n = bit p n"
    using assms(1) \<open>n < LENGTH(32)\<close> by (auto simp: PTE_ADDR_def bit_simps aligned_bits)
qed

lemma V2P_aligned [simp]: "V2P p mod PGSIZE = 0 \<longleftrightarrow> p mod PGSIZE = 0"
  and P2V_aligned [simp]: "P2V p mod PGSIZE = 0 \<longleftrightarrow> p mod PGSIZE = 0"
proof -
  have "unat (p + 0x80000000) mod 4096 = unat p mod 4096" for p :: u32
  proof -
    have "unat (p + 0x80000000) mod 4096 = (unat p + 2147483648) mod 2 ^ 32 mod 4096"
      by (simp add: unat_word_ariths)
    also have "\<dots> = (unat p + 2147483648) mod 4096" by (rule mod_mod_cancel) simp
    also have "\<dots> = unat p mod 4096" using mod_mult_self1 [of "unat p" 524288 4096] by simp
    finally show ?thesis .
  qed
  then have *: "(p + 0x80000000) mod 4096 = 0 \<longleftrightarrow> p mod 4096 = 0" for p :: u32
    by (simp add: word_unat_eq_iff unat_mod)
  have "- 0x80000000 = (0x80000000 :: u32)" by simp
  then have e: "p - 0x80000000 = p + 0x80000000" by (metis diff_conv_add_uminus)
  show "V2P p mod PGSIZE = 0 \<longleftrightarrow> p mod PGSIZE = 0"
    unfolding V2P_def PGSIZE_def KERNBASE_def e by (rule *)
  show "P2V p mod PGSIZE = 0 \<longleftrightarrow> p mod PGSIZE = 0"
    unfolding P2V_def PGSIZE_def KERNBASE_def by (rule *)
qed

lemma P2V_V2P [simp]: "P2V (V2P p) = p" "V2P (P2V p) = p"
  by (simp_all add: P2V_def V2P_def)

lemma index_bits: "bit (PDX a) n \<longleftrightarrow> n < 10 \<and> bit a (22 + n)" "bit (PTX a) n \<longleftrightarrow> n < 10 \<and> bit a (12 + n)"
  "bit (PGROUNDDOWN a) n \<longleftrightarrow> 12 \<le> n \<and> bit a n"
proof -
  have "x AND 0x3FF = take_bit 10 x" for x :: u32 by (simp add: take_bit_eq_mask mask_eq_exp_minus_1)
  then show "bit (PDX a) n \<longleftrightarrow> n < 10 \<and> bit a (22 + n)" "bit (PTX a) n \<longleftrightarrow> n < 10 \<and> bit a (12 + n)"
    unfolding PDX_def PTX_def by (simp_all only: bit_take_bit_iff bit_drop_bit_eq comp_apply)
  have "PGROUNDDOWN a = a AND NOT (mask 12)"
    by (simp add: PGROUNDDOWN_def PGSIZE_def mask_eq_exp_minus_1)
  then show "bit (PGROUNDDOWN a) n \<longleftrightarrow> 12 \<le> n \<and> bit a n"
    by (auto simp: bit_and_iff bit_not_iff bit_mask_iff dest: bit_imp_le_length)
qed

lemma same_page_iff: "PGROUNDDOWN a = PGROUNDDOWN b \<longleftrightarrow> PDX a = PDX b \<and> PTX a = PTX b"
proof
  assume *: "PGROUNDDOWN a = PGROUNDDOWN b"
  have "bit a n = bit b n" if "12 \<le> n" for n using * index_bits(3) [of _ n] that by metis
  then show "PDX a = PDX b \<and> PTX a = PTX b" by (auto intro!: bit_word_eqI simp: index_bits)
next
  assume *: "PDX a = PDX b \<and> PTX a = PTX b"
  show "PGROUNDDOWN a = PGROUNDDOWN b"
  proof (rule bit_word_eqI)
    fix n assume n: "n < LENGTH(32)"
    have "bit (PTX a) (n - 12) = bit (PTX b) (n - 12)" "bit (PDX a) (n - 22) = bit (PDX b) (n - 22)"
      using * by simp_all
    then show "bit (PGROUNDDOWN a) n = bit (PGROUNDDOWN b) n"
      using n by (cases "n < 22") (auto simp: index_bits)
  qed
qed

section \<open>Page tables as maps\<close>

text \<open>
  \<open>entry m pd va\<close> is the page-table entry the MMU finds for \<open>va\<close>, with 0 where the directory has no
  table; \<open>umap\<close> is the kernel address of the page it maps. \<open>pt_ok\<close> says that the directory and its
  tables are pages of the allocator, all different and none of them free.
\<close>

definition pde_at :: "mem \<Rightarrow> u32 \<Rightarrow> u32 \<Rightarrow> u32" where
  "pde_at m pd va = load32 m (pd + 4 * PDX va)"

definition has_tab :: "mem \<Rightarrow> u32 \<Rightarrow> u32 \<Rightarrow> bool" where
  "has_tab m pd va \<longleftrightarrow> bit (pde_at m pd va) 0"

definition ptab :: "mem \<Rightarrow> u32 \<Rightarrow> u32 \<Rightarrow> u32" where
  "ptab m pd va = P2V (PTE_ADDR (pde_at m pd va))"

definition entry :: "mem \<Rightarrow> u32 \<Rightarrow> u32 \<Rightarrow> u32" where
  "entry m pd va = (if has_tab m pd va then load32 m (ptab m pd va + 4 * PTX va) else 0)"

definition umap :: "mem \<Rightarrow> u32 \<Rightarrow> u32 \<Rightarrow> u32 option" where
  "umap m pd va = (if bit (entry m pd va) 0 then Some (P2V (PTE_ADDR (entry m pd va))) else None)"

definition pt_ok :: "'a kmem_st_scheme \<Rightarrow> u32 \<Rightarrow> u32 list \<Rightarrow> bool" where
  "pt_ok s pd xs \<longleftrightarrow> kpool s xs \<and> page_ok s pd \<and> pd \<notin> set xs \<and>
     (\<forall>va. has_tab (mem s) pd va \<longrightarrow> page_ok s (ptab (mem s) pd va) \<and> ptab (mem s) pd va \<noteq> pd \<and>
       ptab (mem s) pd va \<notin> set xs) \<and>
     (\<forall>va va'. has_tab (mem s) pd va \<and> has_tab (mem s) pd va' \<and>
       ptab (mem s) pd va = ptab (mem s) pd va' \<longrightarrow> PDX va = PDX va')"

lemma pt_okD:
  assumes "pt_ok s pd xs"
  shows "kpool s xs" "page_ok s pd" "pd \<notin> set xs"
    "\<And>va. has_tab (mem s) pd va \<Longrightarrow> page_ok s (ptab (mem s) pd va)"
    "\<And>va. has_tab (mem s) pd va \<Longrightarrow> ptab (mem s) pd va \<noteq> pd"
    "\<And>va. has_tab (mem s) pd va \<Longrightarrow> ptab (mem s) pd va \<notin> set xs"
    "\<And>va va'. has_tab (mem s) pd va \<Longrightarrow> has_tab (mem s) pd va' \<Longrightarrow>
       ptab (mem s) pd va = ptab (mem s) pd va' \<Longrightarrow> PDX va = PDX va'"
  using assms unfolding pt_ok_def by blast+

lemma page_okD: "page_ok s p \<Longrightarrow> p mod PGSIZE = 0" "page_ok s p \<Longrightarrow> p \<noteq> 0"
  by (simp add: page_ok_def) (rule page_ok_nonzero)

lemma page_ok_entry_nonzero:
  assumes "page_ok s p" "unat i < 1024"
  shows "p + 4 * i \<noteq> 0"
proof -
  have "unat p < 3 * 2 ^ 30" "0 < unat p"
    using V2P_bound [of p] assms(1) page_okD(2) by (auto simp: page_ok_def KERNBASE_def PHYSTOP_def unat_gt_0)
  then have "unat (p + 4 * i) = unat p + 4 * unat i" using assms(2) by (simp add: unat_word_ariths)
  then show ?thesis using \<open>0 < unat p\<close> by (metis add_is_0 less_irrefl unat_0)
qed

lemma walkpgdir_look:
  "has_tab (mem s) pd va \<Longrightarrow> walkpgdir pd va alloc s = Inr (ptab (mem s) pd va + 4 * PTX va, s)"
  "\<not> has_tab (mem s) pd va \<Longrightarrow> walkpgdir pd va False s = Inr (0, s)"
  by (simp_all add: walkpgdir_def has_tab_def ptab_def pde_at_def Let_def)

lemma entry_store:
  fixes w :: u32
  assumes "pt_ok s pd xs" "has_tab (mem s) pd va"
  defines "m' \<equiv> store32 (mem s) (ptab (mem s) pd va + 4 * PTX va) w"
  shows "pde_at m' pd va' = pde_at (mem s) pd va'"
    and "entry m' pd va' = (if PGROUNDDOWN va' = PGROUNDDOWN va then w else entry (mem s) pd va')"
proof -
  note ok = pt_okD [OF assms(1)]
  have p: "pde_at m' pd va' = pde_at (mem s) pd va'" for va'
    using ok(2) ok(4,5) [OF assms(2)] by (simp add: pde_at_def m'_def load_store_entry page_okD)
  then show "pde_at m' pd va' = pde_at (mem s) pd va'" .
  have t: "ptab m' pd va' = ptab (mem s) pd va'" "has_tab m' pd va' = has_tab (mem s) pd va'" for va'
    by (simp_all add: ptab_def has_tab_def p)
  show "entry m' pd va' = (if PGROUNDDOWN va' = PGROUNDDOWN va then w else entry (mem s) pd va')"
  proof (cases "has_tab (mem s) pd va'")
    case True
    have "load32 m' (ptab (mem s) pd va' + 4 * PTX va') =
        (if ptab (mem s) pd va = ptab (mem s) pd va' \<and> PTX va = PTX va' then w
         else load32 (mem s) (ptab (mem s) pd va' + 4 * PTX va'))"
      using ok(4) [OF assms(2)] ok(4) [OF True] by (simp add: m'_def load_store_entry page_okD)
    moreover have "ptab (mem s) pd va = ptab (mem s) pd va' \<longleftrightarrow> PDX va = PDX va'"
      using ok(7) [OF assms(2) True] by (auto simp: ptab_def pde_at_def)
    ultimately show ?thesis using True by (auto simp: entry_def t same_page_iff)
  next
    case False
    then have "PDX va' \<noteq> PDX va" using assms(2) by (auto simp: has_tab_def pde_at_def)
    with False show ?thesis by (simp add: entry_def t same_page_iff)
  qed
qed

lemma pt_ok_cong:
  assumes "pt_ok s pd xs" "\<And>va. pde_at m' pd va = pde_at (mem s) pd va" "kpool (s\<lparr>mem := m', freelist := f\<rparr>) ys"
    and "set ys \<inter> insert pd (ptab (mem s) pd ` {va. has_tab (mem s) pd va}) = {}"
  shows "pt_ok (s\<lparr>mem := m', freelist := f\<rparr>) pd ys"
proof -
  have "has_tab m' pd = has_tab (mem s) pd" "ptab m' pd = ptab (mem s) pd"
    by (simp_all add: fun_eq_iff has_tab_def ptab_def assms(2))
  moreover have "ptab (mem s) pd va \<notin> set ys" if "has_tab (mem s) pd va" for va
    using assms(4) that by blast
  ultimately show ?thesis using assms(1,3,4) unfolding pt_ok_def by (simp add: page_ok_def)
qed

lemma kpool_freelist [simp]: "kpool (s\<lparr>mem := m, freelist := freelist s\<rparr>) xs = kpool (s\<lparr>mem := m\<rparr>) xs"
  by (simp add: kpool_def page_ok_def)

lemma kpool_store_entry:
  assumes "kpool s xs" "page_ok s p" "p \<notin> set xs" "unat i < 1024"
  shows "kpool (s\<lparr>mem := store32 (mem s) (p + 4 * i) w\<rparr>) xs"
  using assms by (intro kpool_page_write) (auto simp: store32_in_page entry_off)

lemma pt_ok_store:
  assumes "pt_ok s pd xs" "has_tab (mem s) pd va"
  shows "pt_ok (s\<lparr>mem := store32 (mem s) (ptab (mem s) pd va + 4 * PTX va) w\<rparr>) pd xs"
proof -
  note ok = pt_okD [OF assms(1)]
  have "kpool (s\<lparr>mem := store32 (mem s) (ptab (mem s) pd va + 4 * PTX va) w\<rparr>) xs"
    using ok(1) ok(4,6) [OF assms(2)] by (intro kpool_store_entry) simp_all
  moreover have "set xs \<inter> insert pd (ptab (mem s) pd ` {va. has_tab (mem s) pd va}) = {}"
    using ok(3,6) by blast
  ultimately show ?thesis
    using pt_ok_cong [OF assms(1) entry_store(1) [OF assms], where w2 = w and f = "freelist s" and ys = xs]
    by simp
qed

text \<open>A table that \<open>walkpgdir\<close> adds is empty: no translation changes.\<close>

definition add_tab :: "u32 \<Rightarrow> u32 \<Rightarrow> u32 \<Rightarrow> mem \<Rightarrow> mem" where
  "add_tab pd va x m =
     store32 (memset m x 0 PGSIZE) (pd + 4 * PDX va) (V2P x OR PTE_P OR PTE_W OR PTE_U)"

lemma unat_flags: "unat (PTE_P OR PTE_W OR PTE_U) = 7" "PTE_P OR PTE_W OR PTE_U = 7"
  "PTE_W OR PTE_U = 6"
  by (simp_all add: PTE_P_def PTE_W_def PTE_U_def)

lemma add_tab_pde:
  assumes "pd mod PGSIZE = 0" "x mod PGSIZE = 0" "x \<noteq> pd"
  shows "pde_at (add_tab pd va x m) pd va' =
    (if PDX va' = PDX va then V2P x OR 7 else pde_at m pd va')"
  using assms
  by (auto simp: pde_at_def add_tab_def load_store_entry load_memset_entry unat_flags(2))

lemma add_tab_tab:
  assumes "pd mod PGSIZE = 0" "x mod PGSIZE = 0" "x \<noteq> pd"
  shows "has_tab (add_tab pd va x m) pd va' \<longleftrightarrow> PDX va' = PDX va \<or> has_tab m pd va'"
    "ptab (add_tab pd va x m) pd va' = (if PDX va' = PDX va then x else ptab m pd va')"
  using assms by (simp_all add: has_tab_def ptab_def add_tab_pde bit_simps)

lemma add_tab_outside:
  assumes "4096 \<le> unat (a - pd)" "4096 \<le> unat (a - x)"
  shows "add_tab pd va x m a = m a"
  using assms by (simp add: add_tab_def store32_in_page entry_off memset_apply PGSIZE_def)

lemma add_tab_entry:
  assumes "pt_ok s pd (x # xs)" "\<not> has_tab (mem s) pd va"
  shows "entry (add_tab pd va x (mem s)) pd va' = entry (mem s) pd va'"
proof -
  note ok = pt_okD [OF assms(1)]
  have x: "x mod PGSIZE = 0" "x \<noteq> pd" using ok(1,3) by (auto simp: kpool_def page_okD)
  have pd: "pd mod PGSIZE = 0" using ok(2) by (rule page_okD)
  note at = add_tab_tab [OF pd x]
  show ?thesis
  proof (cases "PDX va' = PDX va")
    case True
    then have "\<not> has_tab (mem s) pd va'" using assms(2) by (simp add: has_tab_def pde_at_def)
    moreover have "load32 (add_tab pd va x (mem s)) (x + 4 * PTX va') = 0"
      using pd x by (simp add: add_tab_def load_store_entry load_memset_entry)
    ultimately show ?thesis using True by (simp add: entry_def at)
  next
    case False
    have "load32 (add_tab pd va x (mem s)) (ptab (mem s) pd va' + 4 * PTX va') =
        load32 (mem s) (ptab (mem s) pd va' + 4 * PTX va')" if "has_tab (mem s) pd va'"
      using pd x ok(4,5,6) [OF that] by (auto simp: add_tab_def load_store_entry load_memset_entry page_okD)
    with False show ?thesis by (simp add: entry_def at)
  qed
qed

lemma add_tab_pt_ok:
  assumes "pt_ok s pd (x # xs)" "\<not> has_tab (mem s) pd va"
  defines "s' \<equiv> s\<lparr>freelist := load32 (mem s) x, mem := add_tab pd va x (mem s)\<rparr>"
  shows "pt_ok s' pd xs"
proof -
  note ok = pt_okD [OF assms(1)]
  have x: "x mod PGSIZE = 0" "x \<noteq> pd" "x \<notin> set xs" "page_ok s x"
    using ok(1,3) by (auto simp: kpool_def page_okD)
  have pd: "pd mod PGSIZE = 0" using ok(2) by (rule page_okD)
  note at = add_tab_tab [OF pd x(1,2)]
  let ?s1 = "s\<lparr>freelist := load32 (mem s) x\<rparr>"
  let ?s2 = "?s1\<lparr>mem := memset (mem s) x 0 PGSIZE\<rparr>"
  have "kpool ?s1 xs" using kalloc_kpool_Cons ok(1) by blast
  then have "kpool ?s2 xs"
    using x by (intro kpool_page_write [of _ _ x]) (simp_all add: page_ok_def memset_apply PGSIZE_def)
  then have "kpool s' xs"
    using kpool_store_entry [of ?s2 xs pd "PDX va"] ok(2,3)
    by (simp add: s'_def add_tab_def page_ok_def)
  moreover have "PDX v = PDX v'" if h: "has_tab (mem s') pd v" "has_tab (mem s') pd v'"
      and e: "ptab (mem s') pd v = ptab (mem s') pd v'" for v v'
  proof (cases "PDX v = PDX va \<or> PDX v' = PDX va")
    case True
    have n: "ptab (mem s) pd w \<noteq> x" if "has_tab (mem s) pd w" for w using ok(6) [OF that] by simp
    show ?thesis using True h e n [of v] n [of v'] by (simp add: s'_def at split: if_splits)
  next
    case False
    then have "ptab (mem s) pd v = ptab (mem s) pd v'" "has_tab (mem s) pd v" "has_tab (mem s) pd v'"
      using h e by (simp_all add: s'_def at)
    then show ?thesis using ok(7) by blast
  qed
  moreover have "page_ok s' (ptab (mem s') pd v) \<and> ptab (mem s') pd v \<noteq> pd \<and> ptab (mem s') pd v \<notin> set xs"
    if "has_tab (mem s') pd v" for v
    using that ok(4-6) [of v] x by (auto simp: s'_def at page_ok_def split: if_splits)
  moreover have "page_ok s' pd" "pd \<notin> set xs" using ok(2,3) by (simp_all add: s'_def page_ok_def)
  ultimately show ?thesis unfolding pt_ok_def by blast
qed

text \<open>The outcomes of \<open>walkpgdir\<close> with allocation.\<close>

lemma walkpgdir_alloc:
  assumes "pt_ok s pd xs"
  obtains (fail) "xs = []" "\<not> has_tab (mem s) pd va" "walkpgdir pd va True s = Inr (0, s)"
  | (found) "has_tab (mem s) pd va" "walkpgdir pd va True s = Inr (ptab (mem s) pd va + 4 * PTX va, s)"
  | (new) x ys where "xs = x # ys" "\<not> has_tab (mem s) pd va"
      "walkpgdir pd va True s = Inr (ptab (add_tab pd va x (mem s)) pd va + 4 * PTX va,
         s\<lparr>freelist := load32 (mem s) x, mem := add_tab pd va x (mem s)\<rparr>)"
proof (cases "has_tab (mem s) pd va")
  case True
  then show ?thesis using found walkpgdir_look(1) by blast
next
  case False
  note ok = pt_okD [OF assms]
  have w: "walkpgdir pd va True s = bind_r (kalloc s) (\<lambda>(pgtab, s). if pgtab = 0 then Inr (0, s) else
      Inr (pgtab + 4 * PTX va, s\<lparr>mem := add_tab pd va pgtab (mem s)\<rparr>))"
    using False by (simp add: walkpgdir_def has_tab_def pde_at_def Let_def add_tab_def cong: if_cong)
  show ?thesis
  proof (cases xs)
    case Nil
    then show ?thesis using fail False w kalloc_kpool_Nil [of s] ok(1) by simp
  next
    case (Cons x ys)
    then have x: "x mod PGSIZE = 0" "x \<noteq> pd" "x \<noteq> 0"
      using ok(1,3) page_okD by (auto simp: kpool_def)
    then have "walkpgdir pd va True s = Inr (ptab (add_tab pd va x (mem s)) pd va + 4 * PTX va,
         s\<lparr>freelist := load32 (mem s) x, mem := add_tab pd va x (mem s)\<rparr>)"
      using w kalloc_kpool_Cons [of s x ys] ok(1,2) Cons by (simp add: add_tab_tab page_okD)
    then show ?thesis using new Cons False by blast
  qed
qed

definition tabs :: "mem \<Rightarrow> u32 \<Rightarrow> u32 set" where
  "tabs m pd = ptab m pd ` {va. has_tab m pd va}"

text \<open>
  \<open>pt_step s s' pd xs ys\<close>: from \<open>s\<close> to \<open>s'\<close> the pool shrank from \<open>xs\<close> to \<open>ys\<close>, the pages it lost became
  tables of \<open>pd\<close>, and only the directory and its tables were written.
\<close>

definition pt_step :: "'a kmem_st_scheme \<Rightarrow> 'a kmem_st_scheme \<Rightarrow> u32 \<Rightarrow> u32 list \<Rightarrow> u32 list \<Rightarrow> bool" where
  "pt_step s s' pd xs ys \<longleftrightarrow> pt_ok s' pd ys \<and> (\<exists>zs. xs = zs @ ys) \<and>
     tabs (mem s') pd \<subseteq> tabs (mem s) pd \<union> (set xs - set ys) \<and>
     (\<forall>b. (\<forall>p\<in>insert pd (tabs (mem s') pd). 4096 \<le> unat (b - p)) \<longrightarrow> mem s' b = mem s b) \<and>
     (\<exists>m f. s' = s\<lparr>mem := m, freelist := f\<rparr>)"

lemma page_of_aligned: "a mod PGSIZE = 0 \<Longrightarrow> PGROUNDDOWN a = a" for a :: u32
  by (simp add: PGROUNDDOWN_mod PGSIZE_def)

lemma page_last:
  assumes "a mod PGSIZE = 0"
  shows "PGROUNDDOWN (a + PGSIZE - 1) = a"
proof -
  have "unat a mod 4096 = 0" using assms by (simp add: PGSIZE_def word_unat_eq_iff unat_mod)
  then have "unat a + 4095 < 2 ^ 32" using unat32_lt [of a] by (auto elim!: dvdE simp: mod_eq_0_iff_dvd)
  then have "unat (a + 4095) = unat a + 4095" by (simp add: unat_word_ariths)
  then have "(a + 4095) mod 4096 = 4095"
    using \<open>unat a mod 4096 = 0\<close> by (simp add: word_unat_eq_iff unat_mod mod_add_eq flip: mod_add_left_eq [of "unat a"])
  then show ?thesis by (simp add: PGROUNDDOWN_mod PGSIZE_def add.commute)
qed

lemma pt_step_store:
  assumes "pt_ok s pd xs" "has_tab (mem s) pd va"
  shows "pt_step s (s\<lparr>mem := store32 (mem s) (ptab (mem s) pd va + 4 * PTX va) w\<rparr>) pd xs xs"
proof -
  let ?m = "store32 (mem s) (ptab (mem s) pd va + 4 * PTX va) w"
  have "has_tab ?m pd = has_tab (mem s) pd" "ptab ?m pd = ptab (mem s) pd"
    using entry_store(1) [OF assms, of w] by (simp_all add: fun_eq_iff has_tab_def ptab_def)
  then have t: "tabs ?m pd = tabs (mem s) pd" by (simp add: tabs_def)
  have "ptab (mem s) pd va \<in> tabs (mem s) pd" using assms(2) by (auto simp: tabs_def)
  then have "?m b = mem s b" if "\<forall>p\<in>insert pd (tabs (mem s) pd). 4096 \<le> unat (b - p)" for b
    using that by (auto simp: store32_in_page entry_off)
  moreover have "\<exists>m f. s\<lparr>mem := ?m\<rparr> = s\<lparr>mem := m, freelist := f\<rparr>"
    by (rule exI [of _ ?m], rule exI [of _ "freelist s"]) simp
  ultimately show ?thesis using pt_ok_store [OF assms] by (simp add: pt_step_def t)
qed

lemma pt_step_add_tab:
  assumes "pt_ok s pd (x # xs)" "\<not> has_tab (mem s) pd va"
  shows "pt_step s (s\<lparr>freelist := load32 (mem s) x, mem := add_tab pd va x (mem s)\<rparr>) pd (x # xs) xs"
proof -
  note ok = pt_okD [OF assms(1)]
  have x: "x mod PGSIZE = 0" "x \<noteq> pd" "x \<notin> set xs" using ok(1,3) by (auto simp: kpool_def page_okD)
  have pd: "pd mod PGSIZE = 0" using ok(2) by (rule page_okD)
  have "tabs (add_tab pd va x (mem s)) pd \<subseteq> tabs (mem s) pd \<union> {x}" "x \<in> tabs (add_tab pd va x (mem s)) pd"
    by (auto simp: tabs_def add_tab_tab [OF pd x(1,2)] image_iff)
  moreover have "\<exists>m f. s\<lparr>freelist := load32 (mem s) x, mem := add_tab pd va x (mem s)\<rparr> = s\<lparr>mem := m, freelist := f\<rparr>"
    by (rule exI [of _ "add_tab pd va x (mem s)"], rule exI [of _ "load32 (mem s) x"]) simp
  ultimately show ?thesis
    using add_tab_pt_ok [OF assms] x(3) by (auto simp: pt_step_def add_tab_outside)
qed

lemma pt_step_trans:
  assumes "pt_step s s1 pd xs ys" "pt_step s1 s2 pd ys zs" "tabs (mem s1) pd \<subseteq> tabs (mem s2) pd"
  shows "pt_step s s2 pd xs zs"
proof -
  obtain us vs where u: "xs = us @ ys" "ys = vs @ zs" using assms(1,2) by (auto simp: pt_step_def)
  have "distinct ys" using assms(1) by (auto simp: pt_step_def pt_ok_def kpool_def)
  obtain m f m' f' where e: "s1 = s\<lparr>mem := m, freelist := f\<rparr>" "s2 = s1\<lparr>mem := m', freelist := f'\<rparr>"
    using assms(1,2) by (auto simp: pt_step_def)
  have "tabs (mem s2) pd \<subseteq> tabs (mem s) pd \<union> (set xs - set zs)"
    using assms(1,2) u by (auto simp: pt_step_def)
  moreover have "mem s2 b = mem s b" if "\<forall>p\<in>insert pd (tabs (mem s2) pd). 4096 \<le> unat (b - p)" for b
    using that assms by (auto simp: pt_step_def subset_iff)
  moreover have "s2 = s\<lparr>mem := m', freelist := f'\<rparr>" using e by simp
  ultimately show ?thesis using assms(2) u unfolding pt_step_def by auto
qed

lemma pt_step_refl: "pt_ok s pd xs \<Longrightarrow> pt_step s s pd xs xs"
proof -
  have "s = s\<lparr>mem := mem s, freelist := freelist s\<rparr>" by simp
  then show "pt_ok s pd xs \<Longrightarrow> pt_step s s pd xs xs" unfolding pt_step_def by blast
qed

lemma mappages_page:
  assumes "pt_ok s pd xs" "a mod PGSIZE = 0" "\<not> bit (entry (mem s) pd a) 0"
  obtains (fail) "xs = []" "mappages pd a PGSIZE pa perm s = Inr (- 1, s)"
  | (ok) s' ys where "mappages pd a PGSIZE pa perm s = Inr (0, s')" "pt_step s s' pd xs ys"
      "length xs \<le> Suc (length ys)"
      "\<And>va. entry (mem s') pd va = (if PGROUNDDOWN va = a then pa OR perm OR PTE_P else entry (mem s) pd va)"
proof -
  note pg = page_of_aligned [OF assms(2)] page_last [OF assms(2)]
  have m: "mappages pd a PGSIZE pa perm s = bind_r (walkpgdir pd a True s) (\<lambda>(pte, s).
     if pte = 0 then Inr (- 1, s)
     else if load32 (mem s) pte AND PTE_P \<noteq> 0 then Inl (Panic ''remap'')
     else Inr (0, s\<lparr>mem := store32 (mem s) pte (pa OR perm OR PTE_P)\<rparr>))"
    by (simp add: mappages_def pg Let_def cong: if_cong)
  have step: thesis if w: "walkpgdir pd a True s = Inr (ptab (mem s1) pd a + 4 * PTX a, s1)"
    and s1: "pt_step s s1 pd xs ys" "has_tab (mem s1) pd a" "\<And>va. entry (mem s1) pd va = entry (mem s) pd va"
      "length xs \<le> Suc (length ys)" for s1 ys
  proof -
    have k: "pt_ok s1 pd ys" using s1(1) by (simp add: pt_step_def)
    let ?s2 = "s1\<lparr>mem := store32 (mem s1) (ptab (mem s1) pd a + 4 * PTX a) (pa OR perm OR PTE_P)\<rparr>"
    have "ptab (mem s1) pd a + 4 * PTX a \<noteq> 0"
      using pt_okD(4) [OF k s1(2)] by (intro page_ok_entry_nonzero) simp_all
    moreover have "\<not> bit (load32 (mem s1) (ptab (mem s1) pd a + 4 * PTX a)) 0"
      using assms(3) s1(2) s1(3) [of a] by (simp add: entry_def)
    ultimately have "mappages pd a PGSIZE pa perm s = Inr (0, ?s2)" by (simp add: m w)
    moreover have "pt_step s ?s2 pd xs ys"
    proof (rule pt_step_trans [OF s1(1) pt_step_store [OF k s1(2)]])
      show "tabs (mem s1) pd \<subseteq> tabs (mem ?s2) pd"
        using entry_store(1) [OF k s1(2)] by (simp add: tabs_def has_tab_def ptab_def)
    qed
    ultimately show thesis
      using ok entry_store(2) [OF k s1(2)] s1(3,4) by (simp add: pg)
  qed
  show thesis
  proof (rule walkpgdir_alloc [OF assms(1), of a])
    show thesis if "xs = []" "walkpgdir pd a True s = Inr (0, s)" using fail that by (simp add: m)
    show thesis if "has_tab (mem s) pd a" "walkpgdir pd a True s = Inr (ptab (mem s) pd a + 4 * PTX a, s)"
      by (rule step [OF that(2) pt_step_refl [OF assms(1)] that(1)]) simp_all
    show thesis if n: "xs = x # ys" "\<not> has_tab (mem s) pd a"
      "walkpgdir pd a True s = Inr (ptab (add_tab pd a x (mem s)) pd a + 4 * PTX a,
         s\<lparr>freelist := load32 (mem s) x, mem := add_tab pd a x (mem s)\<rparr>)" for x ys
    proof (rule step [OF _ pt_step_add_tab [of s pd x ys a, folded n(1)]])
      have "x mod PGSIZE = 0" "x \<noteq> pd" "pd mod PGSIZE = 0"
        using pt_okD [OF assms(1)] n(1) by (auto simp: kpool_def page_okD)
      then show "has_tab (mem (s\<lparr>freelist := load32 (mem s) x, mem := add_tab pd a x (mem s)\<rparr>)) pd a"
        by (simp add: add_tab_tab)
    qed (use n assms(1) add_tab_entry [of s pd x ys a] in simp_all)
  qed
qed

section \<open>Growing and shrinking user memory\<close>

text \<open>
  \<open>uvm_ok\<close>: every user page is a page of the allocator of its own, neither free nor part of the page
  table.
\<close>

definition uvm_ok :: "'a kmem_st_scheme \<Rightarrow> u32 \<Rightarrow> u32 list \<Rightarrow> bool" where
  "uvm_ok s pd xs \<longleftrightarrow> pt_ok s pd xs \<and> KERNBASE < kend s \<and>
     (\<forall>va<KERNBASE. \<forall>p. umap (mem s) pd va = Some p \<longrightarrow>
        page_ok s p \<and> p \<notin> set xs \<and> p \<notin> insert pd (tabs (mem s) pd)) \<and>
     (\<forall>va<KERNBASE. \<forall>va'<KERNBASE. \<forall>p. umap (mem s) pd va = Some p \<longrightarrow> umap (mem s) pd va' = Some p \<longrightarrow>
        PGROUNDDOWN va = PGROUNDDOWN va')"

lemma uvm_okD:
  assumes "uvm_ok s pd xs"
  shows "pt_ok s pd xs" "kpool s xs" "KERNBASE < kend s"
    "\<And>va p. va < KERNBASE \<Longrightarrow> umap (mem s) pd va = Some p \<Longrightarrow>
       page_ok s p \<and> p \<notin> set xs \<and> p \<notin> insert pd (tabs (mem s) pd)"
    "\<And>va va' p. va < KERNBASE \<Longrightarrow> va' < KERNBASE \<Longrightarrow> umap (mem s) pd va = Some p \<Longrightarrow>
       umap (mem s) pd va' = Some p \<Longrightarrow> PGROUNDDOWN va = PGROUNDDOWN va'"
  using assms unfolding uvm_ok_def pt_ok_def by blast+

lemma data_write:
  assumes "pt_ok s pd xs" "p mod PGSIZE = 0" "p \<notin> insert pd (tabs (mem s) pd)"
    and "\<And>a. 4096 \<le> unat (a - p) \<Longrightarrow> m' a = mem s a"
  shows "pde_at m' pd = pde_at (mem s) pd" "entry m' pd = entry (mem s) pd" "tabs m' pd = tabs (mem s) pd"
    "umap m' pd = umap (mem s) pd"
proof -
  note ok = pt_okD [OF assms(1)]
  have "load32 m' (q + 4 * i) = load32 (mem s) (q + 4 * i)"
    if "page_ok s q" "q \<noteq> p" "unat i < 1024" for q i
    using that assms(2,4) page_okD(1) by (intro load_page_write [of p q]) auto
  note l = this
  show e: "pde_at m' pd = pde_at (mem s) pd"
    using assms(3) ok(2) by (auto simp: fun_eq_iff pde_at_def intro!: l)
  then have t: "has_tab m' pd = has_tab (mem s) pd" "ptab m' pd = ptab (mem s) pd"
    by (simp_all add: fun_eq_iff has_tab_def ptab_def)
  then show "tabs m' pd = tabs (mem s) pd" by (simp add: tabs_def)
  show en: "entry m' pd = entry (mem s) pd"
    using assms(3) ok(4) by (auto simp: fun_eq_iff entry_def t tabs_def intro!: l)
  show "umap m' pd = umap (mem s) pd" by (simp add: fun_eq_iff umap_def en)
qed

lemma pt_ok_kalloc:
  assumes "pt_ok s pd (x # xs)"
  shows "pt_ok (s\<lparr>freelist := load32 (mem s) x\<rparr>) pd xs"
proof -
  have "kpool (s\<lparr>freelist := load32 (mem s) x\<rparr>) xs" using kalloc_kpool_Cons pt_okD(1) [OF assms] by blast
  then show ?thesis using assms unfolding pt_ok_def by (simp add: page_ok_def)
qed

lemma pt_ok_data_write:
  assumes "pt_ok s pd xs" "page_ok s p" "p \<notin> set xs" "p \<notin> insert pd (tabs (mem s) pd)"
    and "\<And>a. 4096 \<le> unat (a - p) \<Longrightarrow> m' a = mem s a"
  shows "pt_ok (s\<lparr>mem := m'\<rparr>) pd xs"
proof -
  have "kpool (s\<lparr>mem := m'\<rparr>) xs"
    using kpool_page_write [OF pt_okD(1) [OF assms(1)] assms(2,3)] assms(5) by blast
  moreover have "set xs \<inter> insert pd (ptab (mem s) pd ` {va. has_tab (mem s) pd va}) = {}"
    using pt_okD(3,6) [OF assms(1)] by blast
  moreover have "pde_at m' pd va = pde_at (mem s) pd va" for va
    using data_write(1) [OF assms(1) _ assms(4,5)] page_okD(1) [OF assms(2)] by (simp add: fun_eq_iff)
  ultimately show ?thesis
    using pt_ok_cong [OF assms(1), where f = "freelist s" and ys = xs and m' = m'] by simp
qed

text \<open>One turn of the loop of \<open>allocuvm\<close>: a zeroed page from the pool is mapped at \<open>a\<close>.\<close>

lemma umap_entry: "entry m pd va = (V2P p OR 6 OR PTE_P) \<Longrightarrow> p mod PGSIZE = 0 \<Longrightarrow> umap m pd va = Some p"
proof -
  have e: "V2P p OR 6 OR PTE_P = V2P p OR 7" by (simp add: PTE_P_def or.assoc)
  show "entry m pd va = (V2P p OR 6 OR PTE_P) \<Longrightarrow> p mod PGSIZE = 0 \<Longrightarrow> umap m pd va = Some p"
    unfolding umap_def e by (simp add: bit_simps)
qed

definition user_same :: "mem \<Rightarrow> mem \<Rightarrow> u32 \<Rightarrow> (u32 \<Rightarrow> bool) \<Rightarrow> bool" where
  "user_same m m' pd P \<longleftrightarrow> (\<forall>va<KERNBASE. \<forall>p k. P (PGROUNDDOWN va) \<longrightarrow> umap m pd va = Some p \<longrightarrow> unat k < 4096 \<longrightarrow>
     m' (p + k) = m (p + k))"

lemma tabs_aligned: "pt_ok s pd xs \<Longrightarrow> t \<in> insert pd (tabs (mem s) pd) \<Longrightarrow> t mod PGSIZE = 0"
  using pt_okD(2,4) page_okD(1) by (fastforce simp: tabs_def)

lemma tabs_not_free: "pt_ok s pd xs \<Longrightarrow> t \<in> insert pd (tabs (mem s) pd) \<Longrightarrow> t \<notin> set xs"
  using pt_okD(3,6) by (fastforce simp: tabs_def)

lemma pt_step_other_page:
  assumes "pt_step s s' pd xs ys" "p mod PGSIZE = 0" "p \<notin> insert pd (tabs (mem s') pd)" "unat k < 4096"
  shows "mem s' (p + k) = mem s (p + k)"
proof -
  have "4096 \<le> unat (p + k - t)" if "t \<in> insert pd (tabs (mem s') pd)" for t
    using that assms(1-3) tabs_aligned [of s' pd ys t]
    by (intro page_separate [OF assms(2) _ _ assms(4)]) (auto simp: pt_step_def)
  then show ?thesis using assms(1) by (auto simp: pt_step_def)
qed

lemma alloc_step:
  assumes u: "uvm_ok s pd (x # xs)" and a: "a mod PGSIZE = 0" "a < KERNBASE" "umap (mem s) pd a = None"
  defines "s1 \<equiv> s\<lparr>freelist := load32 (mem s) x, mem := memset (mem s) x 0 PGSIZE\<rparr>"
  obtains (nomem) "xs = []" "mappages pd a PGSIZE (V2P x) (PTE_W OR PTE_U) s1 = Inr (- 1, s1)"
      "uvm_ok s1 pd xs" "umap (mem s1) pd = umap (mem s) pd" "x \<notin> insert pd (tabs (mem s1) pd)"
      "page_ok s1 x" "user_same (mem s) (mem s1) pd (\<lambda>_. True)" "\<And>va. va < KERNBASE \<Longrightarrow> umap (mem s) pd va \<noteq> Some x"
  | (mapped) s2 ys where "mappages pd a PGSIZE (V2P x) (PTE_W OR PTE_U) s1 = Inr (0, s2)" "uvm_ok s2 pd ys"
      "\<And>va. umap (mem s2) pd va = (if PGROUNDDOWN va = a then Some x else umap (mem s) pd va)"
      "\<And>va. entry (mem s2) pd va = (if PGROUNDDOWN va = a then V2P x OR 7 else entry (mem s) pd va)"
      "\<And>k. unat k < 4096 \<Longrightarrow> mem s2 (x + k) = 0" "user_same (mem s) (mem s2) pd (\<lambda>_. True)"
      "\<exists>m f. s2 = s\<lparr>mem := m, freelist := f\<rparr>" "length xs \<le> Suc (length ys)"
proof -
  note u' = uvm_okD [OF u]
  have x: "x mod PGSIZE = 0" "page_ok s x" "x \<notin> set xs"
    using u'(2) by (auto simp: kpool_def page_okD)
  have xt: "x \<notin> insert pd (tabs (mem s) pd)" using tabs_not_free [OF u'(1), of x] by auto
  have out: "memset (mem s) x 0 PGSIZE b = mem s b" if "4096 \<le> unat (b - x)" for b
    using that by (simp add: memset_apply PGSIZE_def)
  note d = data_write [OF u'(1) x(1) xt out]
  have p1: "pt_ok s1 pd xs"
    unfolding s1_def using x xt out
    by (intro pt_ok_data_write [of _ _ _ x] pt_ok_kalloc [OF u'(1)]) (simp_all add: page_ok_def)
  have m1: "umap (mem s1) pd = umap (mem s) pd" "entry (mem s1) pd = entry (mem s) pd"
      "tabs (mem s1) pd = tabs (mem s) pd" using d by (simp_all add: s1_def)
  have same1: "mem s1 (p + k) = mem s (p + k)" if "p mod PGSIZE = 0" "p \<noteq> x" "unat k < 4096" for p k
    using page_separate [OF that(1) x(1) that(2,3)] out by (simp add: s1_def)
  have zero: "mem s1 (x + k) = 0" if "unat k < 4096" for k
    using that by (simp add: s1_def memset_apply PGSIZE_def)
  have nx: "umap (mem s) pd va \<noteq> Some x" if "va < KERNBASE" for va using u'(4) [OF that, of x] by auto
  have "\<not> bit (entry (mem s1) pd a) 0" using a(3) unfolding m1(2) umap_def by (metis option.distinct(1))
  with p1 a(1) show thesis
  proof (cases rule: mappages_page [where pa = "V2P x" and perm = "PTE_W OR PTE_U"])
    case f: fail
    have pg1: "page_ok s1 q = page_ok s q" "KERNBASE < kend s1" for q
      using u'(3) by (simp_all add: s1_def page_ok_def)
    have "uvm_ok s1 pd xs"
      using p1 pg1(2) u'(4,5) unfolding uvm_ok_def m1 pg1(1) by (metis list.set_intros(2))
    moreover have "user_same (mem s) (mem s1) pd (\<lambda>_. True)"
      using u'(4) nx same1 page_okD(1) unfolding user_same_def by blast
    moreover have "page_ok s1 x" using x(2) by (simp add: s1_def page_ok_def)
    ultimately show thesis using nomem f m1 xt nx by metis
  next
    case g: (ok s2 ys)
    have e7: "V2P x OR 6 OR PTE_P = V2P x OR 7" by (simp add: PTE_P_def or.assoc)
    have um: "umap (mem s2) pd va = (if PGROUNDDOWN va = a then Some x else umap (mem s) pd va)" for va
      using umap_entry [of "mem s2" pd va x] x(1) g(4) [of va] m1 by (auto simp: umap_def unat_flags)
    obtain m f where st: "s2 = s1\<lparr>mem := m, freelist := f\<rparr>" using g(2) by (auto simp: pt_step_def)
    have t2: "tabs (mem s2) pd \<subseteq> tabs (mem s) pd \<union> (set xs - set ys)" "set ys \<subseteq> set xs" "pt_ok s2 pd ys"
      using g(2) m1 by (auto simp: pt_step_def)
    have pg: "page_ok s2 q = page_ok s q" for q by (simp add: st s1_def page_ok_def)
    have xt2: "x \<notin> insert pd (tabs (mem s2) pd)" using t2 xt x(3) by auto
    have old: "p \<notin> insert pd (tabs (mem s2) pd)" if "va < KERNBASE" "umap (mem s) pd va = Some p" for va p
      using u'(4) [OF that] t2(1) by auto
    have v1: "page_ok s2 p \<and> p \<notin> set ys \<and> p \<notin> insert pd (tabs (mem s2) pd)"
      if "va < KERNBASE" "umap (mem s2) pd va = Some p" for va p
      using that um [of va] u'(4) [of va p] old [of va p] pg x t2(2) xt2 by (auto split: if_splits)
    have v2: "PGROUNDDOWN va = PGROUNDDOWN va'" if "va < KERNBASE" "va' < KERNBASE"
      "umap (mem s2) pd va = Some p" "umap (mem s2) pd va' = Some p" for va va' p
      using that um [of va] um [of va'] u'(5) [of va va' p] nx [of va] nx [of va'] by (auto split: if_splits)
    have "KERNBASE < kend s2" using u'(3) by (simp add: st s1_def)
    then have "uvm_ok s2 pd ys" using t2(3) v1 v2 unfolding uvm_ok_def by blast
    moreover have "mem s2 (x + k) = 0" if "unat k < 4096" for k
      using pt_step_other_page [OF g(2) x(1) xt2 that] zero [OF that] by simp
    moreover have "user_same (mem s) (mem s2) pd (\<lambda>_. True)"
      unfolding user_same_def
      using pt_step_other_page [OF g(2) _ old] same1 u'(4) nx page_okD(1) by metis
    moreover have "\<exists>m f. s2 = s\<lparr>mem := m, freelist := f\<rparr>"
      by (rule exI [of _ m], rule exI [of _ f]) (simp add: st s1_def)
    ultimately show thesis
      using mapped [of s2 ys] g(1,3,4) um m1(2) by (simp add: unat_flags e7)
  qed
qed

lemma dealloc_step:
  assumes u: "uvm_ok s pd xs" and a: "a mod PGSIZE = 0" "a < KERNBASE" "umap (mem s) pd a = Some p"
  obtains s1 where "has_tab (mem s) pd a" "kfree p s = Inr s1"
    "uvm_ok (s1\<lparr>mem := store32 (mem s1) (ptab (mem s) pd a + 4 * PTX a) 0\<rparr>) pd (p # xs)"
    "\<And>va. umap (store32 (mem s1) (ptab (mem s) pd a + 4 * PTX a) 0) pd va =
       (if PGROUNDDOWN va = a then None else umap (mem s) pd va)"
    "user_same (mem s) (store32 (mem s1) (ptab (mem s) pd a + 4 * PTX a) 0) pd (\<lambda>q. q \<noteq> a)"
    "tabs (store32 (mem s1) (ptab (mem s) pd a + 4 * PTX a) 0) pd = tabs (mem s) pd"
    "\<exists>m f. s1 = s\<lparr>mem := m, freelist := f\<rparr>"
proof -
  note u' = uvm_okD [OF u]
  have p: "page_ok s p" "p \<notin> set xs" "p \<notin> insert pd (tabs (mem s) pd)" using u'(4) [OF a(2,3)] by blast+
  have pa: "p mod PGSIZE = 0" using p(1) by (rule page_okD)
  have ht: "has_tab (mem s) pd a" using a(3) by (auto simp: umap_def entry_def split: if_splits)
  obtain s1 where s1: "kfree p s = Inr s1" "kpool s1 (p # xs)"
    "\<And>b. 4096 \<le> unat (b - p) \<Longrightarrow> mem s1 b = mem s b"
    using kfree_kpool [OF u'(2) p(1,2)] by blast
  obtain m f where st: "s1 = s\<lparr>mem := m, freelist := f\<rparr>"
    using s1(1) kfree_Inr [OF p(1)] u'(2) by (auto simp: kpool_def)
  note d = data_write [OF u'(1) pa p(3) s1(3)]
  have k1: "pt_ok s1 pd (p # xs)"
    unfolding st
  proof (rule pt_ok_cong [OF u'(1)])
    show "pde_at m pd va = pde_at (mem s) pd va" for va using d(1) by (simp add: st)
    show "set (p # xs) \<inter> insert pd (ptab (mem s) pd ` {va. has_tab (mem s) pd va}) = {}"
      using p(3) tabs_not_free [OF u'(1)] by (auto simp: tabs_def)
  qed (use s1(2) st in simp)
  have t1: "has_tab (mem s1) pd = has_tab (mem s) pd" "ptab (mem s1) pd = ptab (mem s) pd"
    using d(1) by (simp_all add: fun_eq_iff has_tab_def ptab_def)
  have ht1: "has_tab (mem s1) pd a" using ht by (simp add: t1)
  let ?s2 = "s1\<lparr>mem := store32 (mem s1) (ptab (mem s) pd a + 4 * PTX a) 0\<rparr>"
  have e2: "entry (mem ?s2) pd va = (if PGROUNDDOWN va = a then 0 else entry (mem s) pd va)" for va
    using entry_store(2) [OF k1 ht1, of 0 va] d(2) page_of_aligned [OF a(1)] by (simp add: t1)
  have um: "umap (mem ?s2) pd va = (if PGROUNDDOWN va = a then None else umap (mem s) pd va)" for va
    unfolding umap_def e2 by simp
  have st2: "pt_step s1 ?s2 pd (p # xs) (p # xs)" using pt_step_store [OF k1 ht1, of 0] by (simp add: t1)
  have tb: "tabs (mem ?s2) pd = tabs (mem s) pd"
    using entry_store(1) [OF k1 ht1, of 0] d(1) by (simp add: tabs_def has_tab_def ptab_def)
  have pg: "page_ok ?s2 q = page_ok s q" "KERNBASE < kend ?s2" for q using u'(3) by (simp_all add: st page_ok_def)
  have ne: "q \<noteq> p" if "va < KERNBASE" "umap (mem s) pd va = Some q" "PGROUNDDOWN va \<noteq> a" for va q
    using u'(5) [OF that(1) a(2), of p] that a(3) page_of_aligned [OF a(1)] by auto
  have "uvm_ok ?s2 pd (p # xs)"
    using st2 pg(2) u'(4,5) ne unfolding uvm_ok_def pg(1) um tb pt_step_def
    by (metis option.distinct(1) set_ConsD)
  moreover have "user_same (mem s) (mem ?s2) pd (\<lambda>q. q \<noteq> a)"
    unfolding user_same_def
  proof (intro allI impI)
    fix va q k assume h: "va < KERNBASE" "PGROUNDDOWN va \<noteq> a" "umap (mem s) pd va = Some q" "unat (k::u32) < 4096"
    have q: "q mod PGSIZE = 0" "q \<notin> insert pd (tabs (mem ?s2) pd)" "q \<noteq> p"
      using u'(4) [OF h(1,3)] page_okD(1) tb ne [OF h(1,3,2)] by auto
    have "mem s1 (q + k) = mem s (q + k)" using page_separate [OF q(1) pa q(3) h(4)] s1(3) by blast
    then show "mem ?s2 (q + k) = mem s (q + k)" using pt_step_other_page [OF st2 q(1,2) h(4)] by simp
  qed
  ultimately show thesis using that [OF ht s1(1)] um st tb by (simp, blast)
qed

lemma PGROUNDDOWN_aligned: "PGROUNDDOWN va mod PGSIZE = 0"
  by (simp add: aligned_bits index_bits)

lemma aligned_mod: "a mod PGSIZE = 0 \<longleftrightarrow> unat a mod 4096 = 0" for a :: u32
  by (simp add: PGSIZE_def word_unat_eq_iff unat_mod)

lemma aligned_unat: "a mod PGSIZE = 0 \<Longrightarrow> unat a = 4096 * (unat a div 4096)" for a :: u32
  using mult_div_mod_eq [of 4096 "unat a"] by (simp add: PGSIZE_def word_unat_eq_iff unat_mod)

lemma next_page:
  fixes a q :: u32
  assumes "a mod PGSIZE = 0" "q mod PGSIZE = 0" "unat a < 3 * 2 ^ 30"
  shows "a \<le> q \<longleftrightarrow> q = a \<or> a + PGSIZE \<le> q" "unat (a + PGSIZE) = unat a + 4096"
    "(a + PGSIZE) mod PGSIZE = 0"
proof -
  show n: "unat (a + PGSIZE) = unat a + 4096" using assms(3) by (simp add: PGSIZE_def unat_word_ariths)
  show "a \<le> q \<longleftrightarrow> q = a \<or> a + PGSIZE \<le> q"
  proof -
    obtain i j where "unat a = 4096 * i" "unat q = 4096 * j" using aligned_unat assms(1,2) by metis
    then show ?thesis by (auto simp: word_le_nat_alt n word_unat_eq_iff)
  qed
  show "(a + PGSIZE) mod PGSIZE = 0" using assms(1) by (simp add: aligned_mod n)
qed

lemma unat_PDX: "unat (PDX a) = unat a div 2 ^ 22"
proof -
  have "drop_bit 22 a AND 0x3FF = take_bit 10 (drop_bit 22 a)" by (simp add: take_bit_eq_mask mask_eq_exp_minus_1)
  then have "unat (PDX a) = (unat a div 2 ^ 22) mod 2 ^ 10"
    by (simp add: PDX_def unsigned_take_bit_eq take_bit_eq_mod drop_bit_eq_div unat_div unat_mod)
  moreover have "unat a div 2 ^ 22 < 2 ^ 10" using unat32_lt [of a] by (simp add: less_mult_imp_div_less)
  ultimately show ?thesis by simp
qed

lemma next_table:
  assumes "a mod PGSIZE = 0" "a < KERNBASE"
  defines "b \<equiv> PGADDR (PDX a + 1) 0 0"
  shows "b mod PGSIZE = 0" "unat a + 4096 \<le> unat b"
    "\<And>q. a \<le> PGROUNDDOWN q \<Longrightarrow> PGROUNDDOWN q < b \<Longrightarrow> PDX q = PDX a"
proof -
  have lt: "unat a div 2 ^ 22 < 512"
    using assms(2) by (simp add: word_less_nat_alt KERNBASE_def less_mult_imp_div_less)
  have "unat (push_bit 22 w) = unat w * 2 ^ 22 mod 2 ^ 32" for w :: u32
    by (simp add: push_bit_eq_mult unat_word_ariths)
  moreover have "b = push_bit 22 (PDX a + 1)" by (simp add: b_def PGADDR_def)
  ultimately have "unat b = unat (PDX a + 1) * 2 ^ 22 mod 2 ^ 32" by metis
  moreover have "unat (PDX a + 1) = unat a div 2 ^ 22 + 1"
    using lt unat_PDX [of a] by (simp add: unat_word_ariths)
  ultimately have b: "unat b = (unat a div 2 ^ 22 + 1) * 2 ^ 22" using lt by simp
  then have "unat b mod 4096 = 0" by (simp add: mod_eq_0_iff_dvd)
  then show "b mod PGSIZE = 0" by (simp add: aligned_mod)
  have "unat a < unat b" using b dividend_less_div_times [of "2 ^ 22" "unat a"] by (simp add: add.commute)
  moreover obtain i j where "unat a = 4096 * i" "unat b = 4096 * j"
    using aligned_unat assms(1) \<open>b mod PGSIZE = 0\<close> by metis
  ultimately show "unat a + 4096 \<le> unat b" by simp
  fix q assume q: "a \<le> PGROUNDDOWN q" "PGROUNDDOWN q < b"
  have "unat (PGROUNDDOWN q) div 2 ^ 22 = unat a div 2 ^ 22"
  proof (rule antisym)
    show "unat (PGROUNDDOWN q) div 2 ^ 22 \<le> unat a div 2 ^ 22"
      using q(2) b less_mult_imp_div_less [of "unat (PGROUNDDOWN q)" "unat a div 2 ^ 22 + 1" "2 ^ 22"]
      by (simp add: word_less_nat_alt)
    show "unat a div 2 ^ 22 \<le> unat (PGROUNDDOWN q) div 2 ^ 22"
      using q(1) by (simp add: word_le_nat_alt div_le_mono)
  qed
  then have "PDX (PGROUNDDOWN q) = PDX a" by (simp add: word_unat_eq_iff unat_PDX)
  moreover have "PGROUNDDOWN (PGROUNDDOWN q) = PGROUNDDOWN q" by (simp add: page_of_aligned PGROUNDDOWN_aligned)
  ultimately show "PDX q = PDX a" using same_page_iff [of "PGROUNDDOWN q" q] by simp
qed

end
