(* ===== verification/Proc.thy ===== *)
theory Proc
  imports Vm
begin

text \<open>
  The process table of \<open>xv6/proc.c\<close> and \<open>xv6/proc.h\<close>: allocation of slots, sleeping and waking,
  killing, and switching between processes and the per-CPU scheduler. \<open>fork\<close>, \<open>exit\<close> and \<open>wait\<close>,
  which also use files and page tables, are in later theories.

  A \<open>struct proc *\<close> is an index into \<open>ptable.proc\<close>. \<open>cur c\<close> is \<open>cpus[c].proc\<close> and \<open>me\<close> is the CPU
  the code runs on. A process's kernel stack, trap frame and saved context are in memory, as in
  the source. \<open>swtch\<close> itself is the boundary of a step: \<open>sched\<close> ends with the CPU back in the
  scheduler loop, and \<open>scheduler_run\<close> is the part of that loop up to the switch into a process.
  Interrupts are off while a lock is held (\<open>Spinlock\<close>), so the last check of \<open>sched\<close> cannot fire
  once the second has passed, and \<open>ncli\<close> is the number of locks held. Process ids are integers: the
  32-bit \<open>nextpid\<close> of the source would wrap after two thousand million processes.
\<close>

definition NPROC :: nat where "NPROC = 64"
definition KSTACKSIZE :: u32 where "KSTACKSIZE = 4096"
definition TF_SIZE :: u32 where "TF_SIZE = 76"
definition CONTEXT_SIZE :: u32 where "CONTEXT_SIZE = 20"

datatype procstate = UNUSED | EMBRYO | SLEEPING | RUNNABLE | RUNNING | ZOMBIE

record proc =
  psz :: u32
  pgdir :: u32
  kstack :: u32
  state :: procstate
  pid :: int
  parent :: "nat option"
  tf :: u32
  pcontext :: u32
  pchan :: "chan option"
  killed :: bool
  ofile :: "nat \<Rightarrow> nat option"
  cwd :: "nat option"
  pname :: "u8 list"

record proc_st = vm_st +
  ptable :: "nat \<Rightarrow> proc"
  cur :: "nat \<Rightarrow> nat option"
  me :: nat
  nextpid :: int
  initproc :: "nat option"
  kpgdir :: u32
  cr3 :: "nat \<Rightarrow> u32"
  esp0 :: "nat \<Rightarrow> u32"
  forkret_addr :: u32
  trapret_addr :: u32

definition myproc :: "'a proc_st_scheme \<Rightarrow> nat option" where
  "myproc s = cur s (me s)"

definition upd_proc :: "nat \<Rightarrow> (proc \<Rightarrow> proc) \<Rightarrow> 'a proc_st_scheme \<Rightarrow> 'a proc_st_scheme" where
  "upd_proc p f s = s\<lparr>ptable := (ptable s)(p := f (ptable s p))\<rparr>"

section \<open>Allocating a slot\<close>

definition find_proc :: "(proc \<Rightarrow> bool) \<Rightarrow> 'a proc_st_scheme \<Rightarrow> nat option" where
  "find_proc P s = find (\<lambda>i. P (ptable s i)) [0..<NPROC]"

definition allocproc :: "'a proc_st_scheme \<Rightarrow> (nat option \<times> 'a proc_st_scheme) res" where
  "allocproc s =
     bind_r (acq LK_ptable s) (\<lambda>s.
     case find_proc (\<lambda>q. state q = UNUSED) s of
       None \<Rightarrow> bind_r (rel LK_ptable s) (\<lambda>s. Inr (None, s))
     | Some p \<Rightarrow>
         let s = upd_proc p (\<lambda>q. q\<lparr>state := EMBRYO\<rparr>) s;
             s = upd_proc p (\<lambda>q. q\<lparr>pid := nextpid s\<rparr>) (s\<lparr>nextpid := nextpid s + 1\<rparr>) in
         bind_r (rel LK_ptable s) (\<lambda>s.
         bind_r (kalloc s) (\<lambda>(ks, s).
         let s = upd_proc p (\<lambda>q. q\<lparr>kstack := ks\<rparr>) s in
         if ks = 0 then Inr (None, upd_proc p (\<lambda>q. q\<lparr>state := UNUSED\<rparr>) s)
         else
           let sp = ks + KSTACKSIZE - TF_SIZE;
               s = upd_proc p (\<lambda>q. q\<lparr>tf := sp\<rparr>) s;
               sp = sp - 4;
               s = s\<lparr>mem := store32 (mem s) sp (trapret_addr s)\<rparr>;
               sp = sp - CONTEXT_SIZE;
               s = upd_proc p (\<lambda>q. q\<lparr>pcontext := sp\<rparr>) s;
               s = s\<lparr>mem := memset (mem s) sp 0 CONTEXT_SIZE\<rparr>;
               s = s\<lparr>mem := store32 (mem s) (sp + 16) (forkret_addr s)\<rparr> in
           Inr (Some p, s))))"

section \<open>Sleeping and waking\<close>

fun wakeup_loop :: "chan \<Rightarrow> nat list \<Rightarrow> (nat \<Rightarrow> proc) \<Rightarrow> nat \<Rightarrow> proc" where
  "wakeup_loop c [] t = t"
| "wakeup_loop c (p # ps) t =
     wakeup_loop c ps
       (if state (t p) = SLEEPING \<and> pchan (t p) = Some c
        then t(p := (t p)\<lparr>state := RUNNABLE\<rparr>) else t)"

definition wakeup1 :: "chan \<Rightarrow> 'a proc_st_scheme \<Rightarrow> 'a proc_st_scheme" where
  "wakeup1 c s = s\<lparr>ptable := wakeup_loop c [0..<NPROC] (ptable s)\<rparr>"

definition wakeup :: "chan \<Rightarrow> 'a proc_st_scheme \<Rightarrow> 'a proc_st_scheme res" where
  "wakeup c s = bind_r (acq LK_ptable s) (\<lambda>s. rel LK_ptable (wakeup1 c s))"

text \<open>
  \<open>sched\<close>: the four checks (see above for the fourth), then the switch to this CPU's scheduler,
  whose first action after \<open>swtch\<close> returns is to reload the kernel page table and clear \<open>c->proc\<close>.
\<close>

definition switchkvm :: "'a proc_st_scheme \<Rightarrow> 'a proc_st_scheme" where
  "switchkvm s = s\<lparr>cr3 := (cr3 s)(me s := V2P (kpgdir s))\<rparr>"

definition switchuvm :: "nat \<Rightarrow> 'a proc_st_scheme \<Rightarrow> 'a proc_st_scheme res" where
  "switchuvm p s =
     (if kstack (ptable s p) = 0 then Inl (Panic ''switchuvm: no kstack'')
      else if pgdir (ptable s p) = 0 then Inl (Panic ''switchuvm: no pgdir'')
      else Inr (s\<lparr>esp0 := (esp0 s)(me s := kstack (ptable s p) + KSTACKSIZE),
                  cr3 := (cr3 s)(me s := V2P (pgdir (ptable s p)))\<rparr>))"

definition sched :: "'a proc_st_scheme \<Rightarrow> 'a proc_st_scheme res" where
  "sched s =
     (case myproc s of None \<Rightarrow> Inl (Faults ''sched'') | Some p \<Rightarrow>
      if LK_ptable \<notin> set (held s) then Inl (Panic ''sched ptable.lock'')
      else if length (held s) \<noteq> 1 then Inl (Panic ''sched locks'')
      else if state (ptable s p) = RUNNING then Inl (Panic ''sched running'')
      else
        let s = switchkvm s in
        Inr (s\<lparr>cur := (cur s)(me s := None)\<rparr>))"

definition scheduler_run :: "nat \<Rightarrow> 'a proc_st_scheme \<Rightarrow> 'a proc_st_scheme res" where
  "scheduler_run p s =
     (if state (ptable s p) \<noteq> RUNNABLE then Inr s
      else
        let s = s\<lparr>cur := (cur s)(me s := Some p)\<rparr> in
        bind_r (switchuvm p s) (\<lambda>s.
        Inr (upd_proc p (\<lambda>q. q\<lparr>state := RUNNING\<rparr>) s)))"

text \<open>
  \<open>yield\<close>, \<open>sleep\<close> and \<open>wakeup\<close> consist of a few operations on the locks and on the process table. They
  are written as lists of these operations, in the order of the source, because other CPUs run
  between any two of them: \<open>run_prims\<close> executes a list on one CPU, \<open>Sleep_Wakeup\<close> interleaves them.
\<close>

datatype prim =
    Acquire lock_id
  | Release lock_id
  | Set_chan "chan option"
  | Set_state procstate
  | Sched
  | Wake_slot chan nat

definition exec_prim :: "prim \<Rightarrow> 'a proc_st_scheme \<Rightarrow> 'a proc_st_scheme res" where
  "exec_prim a s =
     (case a of
        Acquire l \<Rightarrow> acq l s
      | Release l \<Rightarrow> rel l s
      | Set_chan x \<Rightarrow> (case myproc s of None \<Rightarrow> Inl (Faults ''p->chan'') | Some p \<Rightarrow> Inr (upd_proc p (\<lambda>q. q\<lparr>pchan := x\<rparr>) s))
      | Set_state x \<Rightarrow> (case myproc s of None \<Rightarrow> Inl (Faults ''p->state'') | Some p \<Rightarrow> Inr (upd_proc p (\<lambda>q. q\<lparr>state := x\<rparr>) s))
      | Sched \<Rightarrow> sched s
      | Wake_slot c p \<Rightarrow> Inr (s\<lparr>ptable := wakeup_loop c [p] (ptable s)\<rparr>))"

fun run_prims :: "prim list \<Rightarrow> 'a proc_st_scheme \<Rightarrow> 'a proc_st_scheme res" where
  "run_prims [] s = Inr s"
| "run_prims (a # as) s = bind_r (exec_prim a s) (run_prims as)"

definition wakeup_prims :: "chan \<Rightarrow> prim list" where
  "wakeup_prims c = Acquire LK_ptable # map (Wake_slot c) [0..<NPROC] @ [Release LK_ptable]"

text \<open>\<open>yield\<close> and \<open>sleep\<close> up to the switch, and what they do when the process runs again.\<close>

definition yield :: "'a proc_st_scheme \<Rightarrow> 'a proc_st_scheme res" where
  "yield s = run_prims [Acquire LK_ptable, Set_state RUNNABLE, Sched] s"

definition yield_resume :: "'a proc_st_scheme \<Rightarrow> 'a proc_st_scheme res" where
  "yield_resume s = run_prims [Release LK_ptable] s"

definition sleep_prims :: "chan \<Rightarrow> lock_id \<Rightarrow> prim list" where
  "sleep_prims c lk =
     (if lk \<noteq> LK_ptable then [Acquire LK_ptable, Release lk] else []) @
     [Set_chan (Some c), Set_state SLEEPING, Sched]"

definition resume_prims :: "lock_id \<Rightarrow> prim list" where
  "resume_prims lk = Set_chan None # (if lk \<noteq> LK_ptable then [Release LK_ptable, Acquire lk] else [])"

definition sleep :: "chan \<Rightarrow> lock_id \<Rightarrow> 'a proc_st_scheme \<Rightarrow> 'a proc_st_scheme res" where
  "sleep c lk s =
     (case myproc s of None \<Rightarrow> Inl (Panic ''sleep'') | Some p \<Rightarrow> run_prims (sleep_prims c lk) s)"

definition sleep_resume :: "lock_id \<Rightarrow> 'a proc_st_scheme \<Rightarrow> 'a proc_st_scheme res" where
  "sleep_resume lk s = run_prims (resume_prims lk) s"

definition kill :: "int \<Rightarrow> 'a proc_st_scheme \<Rightarrow> (int \<times> 'a proc_st_scheme) res" where
  "kill n s =
     bind_r (acq LK_ptable s) (\<lambda>s.
     case find_proc (\<lambda>q. pid q = n) s of
       Some p \<Rightarrow>
         let s = upd_proc p (\<lambda>q. q\<lparr>killed := True\<rparr>) s;
             s = (if state (ptable s p) = SLEEPING
                  then upd_proc p (\<lambda>q. q\<lparr>state := RUNNABLE\<rparr>) s else s) in
         bind_r (rel LK_ptable s) (\<lambda>s. Inr (0, s))
     | None \<Rightarrow> bind_r (rel LK_ptable s) (\<lambda>s. Inr (- 1, s)))"

section \<open>What each operation changes\<close>

lemma upd_proc_frames [simp]:
  "held (upd_proc p f s) = held s" "mem (upd_proc p f s) = mem s" "kend (upd_proc p f s) = kend s"
  "use_lock (upd_proc p f s) = use_lock s" "freelist (upd_proc p f s) = freelist s"
  "cur (upd_proc p f s) = cur s" "me (upd_proc p f s) = me s" "nextpid (upd_proc p f s) = nextpid s"
  "initproc (upd_proc p f s) = initproc s" "kpgdir (upd_proc p f s) = kpgdir s"
  "cr3 (upd_proc p f s) = cr3 s" "esp0 (upd_proc p f s) = esp0 s"
  "forkret_addr (upd_proc p f s) = forkret_addr s" "trapret_addr (upd_proc p f s) = trapret_addr s"
  "data_addr (upd_proc p f s) = data_addr s" "vgpu (upd_proc p f s) = vgpu s"
  "proc_st.more (upd_proc p f s) = proc_st.more s"
  "ptable (upd_proc p f s) q = (if q = p then f (ptable s p) else ptable s q)"
  by (simp_all add: upd_proc_def)

lemma kpool_upd_proc [simp]: "kpool (upd_proc p f s) xs = kpool s xs"
  by (simp add: kpool_def page_ok_def)

lemma find_proc_Some:
  assumes "find_proc P s = Some p"
  shows "p < NPROC" "P (ptable s p)" "\<And>q. q < p \<Longrightarrow> \<not> P (ptable s q)"
  using assms by (auto simp: find_proc_def find_Some_iff)

lemma find_proc_None: "find_proc P s = None \<longleftrightarrow> (\<forall>p<NPROC. \<not> P (ptable s p))"
  by (auto simp: find_proc_def find_None_iff)

lemma wakeup_loop_apply:
  "distinct ps \<Longrightarrow> wakeup_loop c ps t p =
     (if p \<in> set ps \<and> state (t p) = SLEEPING \<and> pchan (t p) = Some c
      then (t p)\<lparr>state := RUNNABLE\<rparr> else t p)"
  by (induction ps arbitrary: t) auto

lemma ptable_wakeup1:
  "ptable (wakeup1 c s) p =
     (if p < NPROC \<and> state (ptable s p) = SLEEPING \<and> pchan (ptable s p) = Some c
      then (ptable s p)\<lparr>state := RUNNABLE\<rparr> else ptable s p)"
  by (simp add: wakeup1_def wakeup_loop_apply)

lemma wakeup_Inr: "LK_ptable \<notin> set (held s) \<Longrightarrow> wakeup c s = Inr (wakeup1 c s)"
  by (simp add: wakeup_def wakeup1_def)

lemma run_wake_slots:
  "run_prims (map (Wake_slot c) ps @ as) = (\<lambda>s. run_prims as (s\<lparr>ptable := wakeup_loop c ps (ptable s)\<rparr>))"
proof
  fix s :: "'a proc_st_scheme"
  show "run_prims (map (Wake_slot c) ps @ as) s = run_prims as (s\<lparr>ptable := wakeup_loop c ps (ptable s)\<rparr>)"
    by (induction ps arbitrary: s) (simp_all add: exec_prim_def)
qed

lemma bind_r_Inr_right: "bind_r m Inr = m"
  by (cases m) simp_all

lemma run_prims_Nil: "run_prims [] = Inr"
  by (rule ext) simp

lemma run_wakeup_prims: "run_prims (wakeup_prims c) s = wakeup c s"
  by (simp add: wakeup_prims_def run_wake_slots wakeup_def wakeup1_def exec_prim_def bind_r_Inr_right run_prims_Nil)

lemma sched_Inr:
  "sched s = Inr s' \<longleftrightarrow> (\<exists>p. myproc s = Some p \<and> held s = [LK_ptable] \<and> state (ptable s p) \<noteq> RUNNING \<and>
     s' = (switchkvm s)\<lparr>cur := (cur s)(me s := None)\<rparr>)"
proof -
  have "LK_ptable \<in> set (held s) \<and> length (held s) = 1 \<longleftrightarrow> held s = [LK_ptable]"
    by (cases "held s") auto
  then show ?thesis
    by (auto simp: sched_def switchkvm_def Let_def split: option.splits if_splits)
qed

lemma yield_Inr:
  assumes "myproc s = Some p" "held s = []"
  shows "yield s = Inr ((switchkvm (upd_proc p (\<lambda>q. q\<lparr>state := RUNNABLE\<rparr>) s))
    \<lparr>held := [LK_ptable], cur := (cur s)(me s := None)\<rparr>)"
  using assms by (simp add: yield_def exec_prim_def sched_def myproc_def switchkvm_def upd_proc_def Let_def)

lemma sleep_Inr:
  assumes "myproc s = Some p" "held s = [lk]" "lk \<noteq> LK_ptable"
  shows "sleep c lk s = Inr ((switchkvm (upd_proc p (\<lambda>q. q\<lparr>pchan := Some c, state := SLEEPING\<rparr>) s))
    \<lparr>held := [LK_ptable], cur := (cur s)(me s := None)\<rparr>)"
  using assms by (simp add: sleep_def sleep_prims_def exec_prim_def sched_def myproc_def switchkvm_def upd_proc_def Let_def)

lemma kill_Inr:
  assumes "LK_ptable \<notin> set (held s)"
  shows "kill n s = (case find_proc (\<lambda>q. pid q = n) s of
      None \<Rightarrow> Inr (- 1, s)
    | Some p \<Rightarrow> Inr (0, upd_proc p (\<lambda>q. q\<lparr>killed := True,
        state := (if state q = SLEEPING then RUNNABLE else state q)\<rparr>) s))"
  using assms
  by (auto simp: kill_def Let_def upd_proc_def find_proc_def split: option.splits)

lemma allocproc_None:
  assumes "LK_ptable \<notin> set (held s)" "\<forall>p<NPROC. state (ptable s p) \<noteq> UNUSED"
  shows "allocproc s = Inr (None, s)"
proof -
  have "find_proc (\<lambda>q. state q = UNUSED) (s\<lparr>held := LK_ptable # held s\<rparr>) = None"
    using assms(2) by (simp add: find_proc_None)
  then show ?thesis using assms(1) by (simp add: allocproc_def)
qed

text \<open>
  The kernel stack that \<open>allocproc\<close> prepares: from the top, the trap frame, the return address
  \<open>trapret\<close>, and the context whose \<open>eip\<close> is \<open>forkret\<close>.
\<close>

definition stack_setup :: "'a proc_st_scheme \<Rightarrow> u32 \<Rightarrow> mem \<Rightarrow> mem" where
  "stack_setup s ks m =
     store32 (memset (store32 m (ks + 4016) (trapret_addr s)) (ks + 3996) 0 CONTEXT_SIZE)
       (ks + 4012) (forkret_addr s)"

lemma stack_setup_outside:
  "4096 \<le> unat (a - ks) \<Longrightarrow> stack_setup s ks m a = m a"
  by (simp add: stack_setup_def store32_in_page memset_in_page CONTEXT_SIZE_def)

lemma stack_setup_words:
  "load32 (stack_setup s ks m) (ks + 4012) = forkret_addr s"
  "load32 (stack_setup s ks m) (ks + 4016) = trapret_addr s"
proof -
  show "load32 (stack_setup s ks m) (ks + 4012) = forkret_addr s"
    by (simp add: stack_setup_def)
  have "load32 (stack_setup s ks m) (ks + 4016) =
      load32 (memset (store32 m (ks + 4016) (trapret_addr s)) (ks + 3996) 0 CONTEXT_SIZE) (ks + 4016)"
    by (simp add: stack_setup_def load_store32_other)
  also have "\<dots> = load32 (store32 m (ks + 4016) (trapret_addr s)) (ks + 4016)"
    by (simp add: load32_def memset_apply CONTEXT_SIZE_def)
  finally show "load32 (stack_setup s ks m) (ks + 4016) = trapret_addr s" by simp
qed

lemma allocproc_found:
  assumes "LK_ptable \<notin> set (held s)" "find_proc (\<lambda>q. state q = UNUSED) s = Some p"
    and "kpool s (x # xs)"
  shows "allocproc s = Inr (Some p, upd_proc p (\<lambda>q. q\<lparr>state := EMBRYO, pid := nextpid s, kstack := x,
      tf := x + 4020, pcontext := x + 3996\<rparr>)
      (s\<lparr>nextpid := nextpid s + 1, freelist := load32 (mem s) x, mem := stack_setup s x (mem s)\<rparr>))"
proof -
  have "x \<noteq> 0" "freelist s = x" "LK_kmem \<notin> set (held s)"
    using assms(3) by (auto simp: kpool_def)
  moreover have "find_proc (\<lambda>q. state q = UNUSED) (s\<lparr>held := LK_ptable # held s\<rparr>) = Some p"
    using assms(2) by (simp add: find_proc_def)
  ultimately show ?thesis using assms(1)
    by (simp add: allocproc_def kalloc_Inr Let_def upd_proc_def KSTACKSIZE_def TF_SIZE_def
        CONTEXT_SIZE_def stack_setup_def) (rule proc_st.equality; simp add: add.commute)
qed

lemma allocproc_found_pool:
  assumes "kpool s (x # xs)"
  shows "kpool (s\<lparr>nextpid := n, freelist := load32 (mem s) x, mem := stack_setup s x (mem s)\<rparr>) xs"
proof -
  have "kpool (s\<lparr>freelist := load32 (mem s) x\<rparr>) xs" "page_ok s x" "x \<notin> set xs"
    using assms kalloc_kpool_Cons by (auto simp: kpool_def)
  then have "kpool (s\<lparr>freelist := load32 (mem s) x, mem := stack_setup s x (mem s)\<rparr>) xs"
    using kpool_page_write [of "s\<lparr>freelist := load32 (mem s) x\<rparr>" xs x "stack_setup s x (mem s)"]
      stack_setup_outside by (auto simp: page_ok_def)
  then show ?thesis by (simp add: kpool_def page_ok_def)
qed

lemma allocproc_nomem:
  assumes "LK_ptable \<notin> set (held s)" "find_proc (\<lambda>q. state q = UNUSED) s = Some p" "kpool s []"
  shows "allocproc s = Inr (None,
    upd_proc p (\<lambda>q. q\<lparr>pid := nextpid s, kstack := 0, state := UNUSED\<rparr>) (s\<lparr>nextpid := nextpid s + 1\<rparr>))"
proof -
  have "freelist s = 0" "LK_kmem \<notin> set (held s)" using assms(3) by (auto simp: kpool_def)
  moreover have "find_proc (\<lambda>q. state q = UNUSED) (s\<lparr>held := LK_ptable # held s\<rparr>) = Some p"
    using assms(2) by (simp add: find_proc_def)
  ultimately show ?thesis using assms(1)
    by (simp add: allocproc_def kalloc_Inr Let_def upd_proc_def)
qed

section \<open>Properties\<close>

text \<open>The slot of the process table as the loader leaves it: every field zero.\<close>

definition bss_proc :: proc where
  "bss_proc = \<lparr>psz = 0, pgdir = 0, kstack = 0, state = UNUSED, pid = 0, parent = None, tf = 0, pcontext = 0,
     pchan = None, killed = False, ofile = (\<lambda>_. None), cwd = None, pname = []\<rparr>"

definition gpu_demo :: gpu where
  "gpu_demo = \<lparr>pvram_addr = 0xC0000000, vvram_addr = 0xFDC00000, vram_size = 0x400000,
     horizontal_resolution = 1024, vertical_resolution = 768, pixels_per_line = 1024\<rparr>"

definition proc_demo :: proc_st where
  "proc_demo = \<lparr>held = [], mem = (\<lambda>_. 0), kend = 0x80100000, use_lock = True, freelist = 0x80200000,
     data_addr = 0x80108000, vgpu = gpu_demo,
     ptable = (\<lambda>_. bss_proc)(0 := bss_proc\<lparr>state := RUNNING, pid := 1\<rparr>), cur = (\<lambda>_. Some 0), me = 0,
     nextpid = 2, initproc = Some 0, kpgdir = 0x80101000, cr3 = (\<lambda>_. 0), esp0 = (\<lambda>_. 0),
     forkret_addr = 0x80102000, trapret_addr = 0x80103000\<rparr>"

lemma proc_demo_pool: "kpool proc_demo [0x80200000]"
  by (simp add: kpool_def proc_demo_def page_ok_def load32_def of_le32_def PGSIZE_def V2P_def
      KERNBASE_def PHYSTOP_def)

lemma proc_demo_free: "find_proc (\<lambda>q. state q = UNUSED) proc_demo = Some 1"
proof -
  have "[0..<NPROC] = 0 # 1 # [2..<NPROC]" by (simp add: NPROC_def upt_conv_Cons)
  then show ?thesis by (simp add: find_proc_def proc_demo_def bss_proc_def)
qed

text \<open>
  Allocating a process. With a free slot and a free page, \<open>allocproc\<close> takes the first free slot,
  gives it the next process id, and prepares its kernel stack so that the first switch to it enters
  \<open>forkret\<close>, which returns to \<open>trapret\<close> with the stack pointer at the trap frame. The page leaves the
  pool and no byte outside it changes. Without a free page the slot is given back.
\<close>

lemma allocproc_prepares_stack:
  assumes "LK_ptable \<notin> set (held s)" "find_proc (\<lambda>q. state q = UNUSED) s = Some p" "kpool s xs"
  shows "case xs of
      [] \<Rightarrow> \<exists>s'. allocproc s = Inr (None, s') \<and> state (ptable s' p) = UNUSED \<and> (\<forall>q. q \<noteq> p \<longrightarrow> ptable s' q = ptable s q)
    | x # ys \<Rightarrow> \<exists>s'. allocproc s = Inr (Some p, s') \<and> kpool s' ys \<and> held s' = held s \<and>
        (let q = ptable s' p in state q = EMBRYO \<and> pid q = nextpid s \<and> kstack q = x \<and>
          tf q + TF_SIZE = x + KSTACKSIZE \<and> load32 (mem s') (pcontext q + 16) = forkret_addr s \<and>
          load32 (mem s') (pcontext q + CONTEXT_SIZE) = trapret_addr s \<and>
          pcontext q + CONTEXT_SIZE + 4 = tf q) \<and>
        nextpid s' = nextpid s + 1 \<and> (\<forall>q. q \<noteq> p \<longrightarrow> ptable s' q = ptable s q) \<and>
        (\<forall>a. 4096 \<le> unat (a - x) \<longrightarrow> mem s' a = mem s a)"
proof (cases xs)
  case Nil
  then show ?thesis using allocproc_nomem [OF assms(1,2)] assms(3) by simp
next
  case (Cons x ys)
  then have k: "kpool s (x # ys)" using assms(3) by simp
  show ?thesis
    using Cons allocproc_found [OF assms(1,2) k] allocproc_found_pool [OF k, of "nextpid s + 1"]
      stack_setup_words [of s x "mem s"] stack_setup_outside [of _ x s "mem s"]
    by (simp add: Let_def TF_SIZE_def KSTACKSIZE_def CONTEXT_SIZE_def add.assoc)
qed

text \<open>
  C26: \<open>kill\<close> does not look at the state of the slot. On a table whose free slots are as the loader or
  \<open>wait\<close> left them (process id 0), \<open>kill(0)\<close> reports success and marks the first free slot as
  killed; \<open>allocproc\<close> does not clear the mark, so the next process to be created in that slot starts
  out killed.
\<close>

theorem kill_0_marks_free_slot:
  assumes "held s = []" "find_proc (\<lambda>q. pid q = 0) s = Some p"
    "find_proc (\<lambda>q. state q = UNUSED) s = Some p" "kpool s (x # xs)"
  shows "\<exists>s1 s2. kill 0 s = Inr (0, s1) \<and> allocproc s1 = Inr (Some p, s2) \<and>
    state (ptable s2 p) = EMBRYO \<and> killed (ptable s2 p)"
proof -
  let ?s = "upd_proc p (\<lambda>q. q\<lparr>killed := True, state := (if state q = SLEEPING then RUNNABLE else state q)\<rparr>) s"
  have k: "kill 0 s = Inr (0, ?s)" using assms(1,2) by (simp add: kill_Inr)
  have "state (ptable ?s q) = UNUSED \<longleftrightarrow> state (ptable s q) = UNUSED" for q
    using find_proc_Some(2) [OF assms(3)] by auto
  then have "find_proc (\<lambda>q. state q = UNUSED) ?s = Some p" using assms(3) by (simp add: find_proc_def)
  then show ?thesis using k allocproc_found [of ?s p x xs] assms(1,4) by simp
qed

theorem kill_0_marks_free_slot_witness:
  "\<exists>s1 s2. kill 0 proc_demo = Inr (0, s1) \<and> allocproc s1 = Inr (Some 1, s2) \<and> killed (ptable s2 1)"
proof -
  have "[0..<NPROC] = 0 # 1 # [2..<NPROC]" by (simp add: NPROC_def upt_conv_Cons)
  then have "find_proc (\<lambda>q. pid q = 0) proc_demo = Some 1"
    by (simp add: find_proc_def proc_demo_def bss_proc_def)
  moreover have "held proc_demo = []" by (simp add: proc_demo_def)
  ultimately show ?thesis
    using kill_0_marks_free_slot [OF _ _ proc_demo_free proc_demo_pool] by blast
qed

end
