(* ===== verification/Sleep_Wakeup.thy ===== *)
theory Sleep_Wakeup
  imports Proc
begin

text \<open>
  \<open>sleep\<close> and \<open>wakeup\<close> of \<open>xv6/proc.c\<close> on several CPUs. Processes share a condition that is protected by
  a spin-lock \<open>lk\<close>; a process that does not find it true calls \<open>sleep(c, lk)\<close> and tests again when it
  returns, a process that makes it true calls \<open>wakeup(c)\<close> before it gives up \<open>lk\<close>, as the pipes, the
  log, the sleep-locks and the clock do. The step relation interleaves the operations of
  \<open>sleep_prims\<close>, \<open>resume_prims\<close> and \<open>wakeup_prims\<close> one by one: between two of them any other process may
  run. The scheduler appears in two steps, the release of \<open>ptable.lock\<close> after a switch (part of \<open>Sched\<close>)
  and the choice of a runnable process, which starts with \<open>ptable.lock\<close> held.
\<close>

section \<open>Interleaved steps\<close>

text \<open>
  Where a process is: outside the lock, inside it, in \<open>sleep\<close> before the switch, switched away, in
  \<open>sleep\<close> after the switch, in \<open>wakeup\<close>; with the operations it has still to do.
\<close>

datatype job =
    Outside
  | Inside
  | Going "prim list"
  | Parked
  | Resuming "prim list"
  | Waking "prim list"

record mon =
  owner :: "lock_id \<Rightarrow> nat option"
  tab :: "nat \<Rightarrow> proc"
  job :: "nat \<Rightarrow> job"
  ready :: bool

definition set_owner :: "lock_id \<Rightarrow> nat option \<Rightarrow> mon \<Rightarrow> mon" where
  "set_owner l x m = m\<lparr>owner := (owner m)(l := x)\<rparr>"

definition set_tab :: "nat \<Rightarrow> (proc \<Rightarrow> proc) \<Rightarrow> mon \<Rightarrow> mon" where
  "set_tab p f m = m\<lparr>tab := (tab m)(p := f (tab m p))\<rparr>"

definition set_job :: "nat \<Rightarrow> job \<Rightarrow> mon \<Rightarrow> mon" where
  "set_job p j m = m\<lparr>job := (job m)(p := j)\<rparr>"

lemmas mon_defs = set_owner_def set_tab_def set_job_def

text \<open>One operation of process \<open>p\<close>; \<open>None\<close> when it cannot proceed.\<close>

definition prim_step :: "nat \<Rightarrow> prim \<Rightarrow> mon \<Rightarrow> mon option" where
  "prim_step p a m =
     (case a of
        Acquire l \<Rightarrow> if owner m l = None then Some (set_owner l (Some p) m) else None
      | Release l \<Rightarrow> if owner m l = Some p then Some (set_owner l None m) else None
      | Set_chan x \<Rightarrow> Some (set_tab p (\<lambda>q. q\<lparr>pchan := x\<rparr>) m)
      | Set_state x \<Rightarrow> Some (set_tab p (\<lambda>q. q\<lparr>state := x\<rparr>) m)
      | Sched \<Rightarrow> if owner m LK_ptable = Some p then Some (set_owner LK_ptable None m) else None
      | Wake_slot c q \<Rightarrow> Some (m\<lparr>tab := wakeup_loop c [q] (tab m)\<rparr>))"

text \<open>
  It is the operation that the process does on its CPU in the sequential model, where \<open>sleep\<close> and
  \<open>wakeup\<close> are runs of these operations; after \<open>Sched\<close> the lock is in the hands of the scheduler.
\<close>

lemma exec_prim_step:
  assumes "exec_prim a s = Inr s'" "myproc s = Some p" "tab m = ptable s"
    and "\<forall>l. owner m l = Some p \<longleftrightarrow> l \<in> set (held s)" "\<And>l. a = Acquire l \<Longrightarrow> owner m l = None"
  shows "\<exists>m'. prim_step p a m = Some m' \<and> tab m' = ptable s' \<and> job m' = job m \<and> ready m' = ready m \<and>
    (a \<noteq> Sched \<longrightarrow> (\<forall>l. owner m' l = Some p \<longleftrightarrow> l \<in> set (held s')))"
proof -
  have own: "owner m l = Some p \<longleftrightarrow> l \<in> set (held s)" for l using assms(4) by simp
  show ?thesis
  proof (cases a)
    case Sched
    from assms(1) have "sched s = Inr s'" unfolding Sched by (simp add: exec_prim_def)
    then have "held s = [LK_ptable]" "ptable s' = ptable s" unfolding sched_Inr by (auto simp: switchkvm_def)
    then show ?thesis using Sched assms(3) own[of LK_ptable] by (simp add: prim_step_def set_owner_def)
  next
    case (Acquire l)
    then have "s' = s\<lparr>held := l # held s\<rparr>" using assms(1) by (simp add: exec_prim_def acq_def split: if_splits)
    then show ?thesis using Acquire assms(3,5) own by (simp add: prim_step_def set_owner_def)
  next
    case (Release l)
    then have "s' = s\<lparr>held := removeAll l (held s)\<rparr>" "l \<in> set (held s)"
      using assms(1) by (simp_all add: exec_prim_def rel_def split: if_splits)
    then show ?thesis using Release assms(3) own by (simp add: prim_step_def set_owner_def)
  next
    case (Set_chan x)
    then have "s' = upd_proc p (\<lambda>q. q\<lparr>pchan := x\<rparr>) s" using assms(1,2) by (simp add: exec_prim_def)
    then show ?thesis using Set_chan assms(3) own by (simp add: prim_step_def set_tab_def fun_eq_iff)
  next
    case (Set_state x)
    then have "s' = upd_proc p (\<lambda>q. q\<lparr>state := x\<rparr>) s" using assms(1,2) by (simp add: exec_prim_def)
    then show ?thesis using Set_state assms(3) own by (simp add: prim_step_def set_tab_def fun_eq_iff)
  next
    case (Wake_slot c q)
    then have "s' = s\<lparr>ptable := wakeup_loop c [q] (ptable s)\<rparr>" using assms(1) by (simp add: exec_prim_def)
    then show ?thesis using Wake_slot assms(3) own by (simp add: prim_step_def)
  qed
qed

inductive sw_step :: "chan \<Rightarrow> lock_id \<Rightarrow> mon \<Rightarrow> mon \<Rightarrow> bool" for c lk where
  enter: "job m p = Outside \<Longrightarrow> owner m lk = None \<Longrightarrow> sw_step c lk m (set_job p Inside (set_owner lk (Some p) m))"
| leave: "job m p = Inside \<Longrightarrow> sw_step c lk m (set_job p Outside (set_owner lk None m))"
| unready: "job m p = Inside \<Longrightarrow> sw_step c lk m (m\<lparr>ready := False\<rparr>)"
| signal: "job m p = Inside \<Longrightarrow> sw_step c lk m (set_job p (Waking (wakeup_prims c)) (m\<lparr>ready := True\<rparr>))"
| wait: "job m p = Inside \<Longrightarrow> \<not> ready m \<Longrightarrow> sw_step c lk m (set_job p (Going (sleep_prims c lk)) m)"
| go: "job m p = Going (a # as) \<Longrightarrow> prim_step p a m = Some m' \<Longrightarrow>
    sw_step c lk m (set_job p (if as = [] then Parked else Going as) m')"
| dispatch: "job m p = Parked \<Longrightarrow> state (tab m p) = RUNNABLE \<Longrightarrow> owner m LK_ptable = None \<Longrightarrow>
    sw_step c lk m (set_job p (Resuming (resume_prims lk))
      (set_owner LK_ptable (Some p) (set_tab p (\<lambda>q. q\<lparr>state := RUNNING\<rparr>) m)))"
| resume: "job m p = Resuming (a # as) \<Longrightarrow> prim_step p a m = Some m' \<Longrightarrow>
    sw_step c lk m (set_job p (if as = [] then Inside else Resuming as) m')"
| wake: "job m p = Waking (a # as) \<Longrightarrow> prim_step p a m = Some m' \<Longrightarrow>
    sw_step c lk m (set_job p (if as = [] then Inside else Waking as) m')"
| killed: "owner m LK_ptable = None \<Longrightarrow> state (tab m p) = SLEEPING \<Longrightarrow>
    sw_step c lk m (set_tab p (\<lambda>q. q\<lparr>state := RUNNABLE\<rparr>) m)"

inductive sw_run :: "chan \<Rightarrow> lock_id \<Rightarrow> mon \<Rightarrow> bool" for c lk where
  init: "owner m = (\<lambda>_. None) \<Longrightarrow> job m = (\<lambda>_. Outside) \<Longrightarrow> \<forall>p. state (tab m p) \<noteq> SLEEPING \<Longrightarrow> sw_run c lk m"
| step: "sw_run c lk m \<Longrightarrow> sw_step c lk m m' \<Longrightarrow> sw_run c lk m'"

section \<open>The invariant\<close>

text \<open>The locks a process holds at each point of its code, and what it knows there.\<close>

definition wake_rest :: "chan \<Rightarrow> nat \<Rightarrow> prim list" where
  "wake_rest c k = map (Wake_slot c) [k..<NPROC] @ [Release LK_ptable]"

fun job_ok :: "chan \<Rightarrow> lock_id \<Rightarrow> nat \<Rightarrow> mon \<Rightarrow> job \<Rightarrow> bool" where
  "job_ok c lk p m Outside \<longleftrightarrow> True"
| "job_ok c lk p m Inside \<longleftrightarrow> owner m lk = Some p"
| "job_ok c lk p m Parked \<longleftrightarrow> True"
| "job_ok c lk p m (Going as) \<longleftrightarrow>
     (as = sleep_prims c lk \<and> owner m lk = Some p \<and> \<not> ready m) \<or>
     (as = tl (sleep_prims c lk) \<and> owner m lk = Some p \<and> owner m LK_ptable = Some p \<and> \<not> ready m) \<or>
     (as \<in> {[Set_chan (Some c), Set_state SLEEPING, Sched], [Set_state SLEEPING, Sched], [Sched]} \<and>
        owner m LK_ptable = Some p)"
| "job_ok c lk p m (Resuming as) \<longleftrightarrow>
     (as \<in> {resume_prims lk, tl (resume_prims lk)} \<and> owner m LK_ptable = Some p) \<or> as = [Acquire lk]"
| "job_ok c lk p m (Waking as) \<longleftrightarrow> owner m lk = Some p \<and>
     (as = wakeup_prims c \<or> (\<exists>k\<le>NPROC. as = wake_rest c k) \<and> owner m LK_ptable = Some p)"

text \<open>A process that is asleep on \<open>c\<close>, or has given up \<open>lk\<close> to go to sleep.\<close>

definition at_risk :: "chan \<Rightarrow> lock_id \<Rightarrow> mon \<Rightarrow> nat \<Rightarrow> bool" where
  "at_risk c lk m p \<longleftrightarrow> (state (tab m p) = SLEEPING \<and> pchan (tab m p) = Some c) \<or>
     (\<exists>as. job m p = Going as \<and> Release lk \<notin> set as)"

text \<open>A wake-up that has not yet come to the slot of the process.\<close>

definition pending :: "chan \<Rightarrow> mon \<Rightarrow> nat \<Rightarrow> bool" where
  "pending c m p \<longleftrightarrow> (\<exists>q as. job m q = Waking as \<and> Wake_slot c p \<in> set as)"

definition sw_inv :: "chan \<Rightarrow> lock_id \<Rightarrow> mon \<Rightarrow> bool" where
  "sw_inv c lk m \<longleftrightarrow> (\<forall>p. job_ok c lk p m (job m p)) \<and>
     (ready m \<longrightarrow> (\<forall>p<NPROC. at_risk c lk m p \<longrightarrow> pending c m p))"

lemma job_ok_frame:
  assumes "job_ok c lk q m j" "\<forall>l. owner m l = Some q \<longrightarrow> owner m' l = Some q"
    and "ready m' \<Longrightarrow> ready m \<or> owner m lk \<noteq> Some q"
  shows "job_ok c lk q m' j"
  using assms by (cases j) auto

text \<open>A step of process \<open>p\<close> leaves the locks of the others alone.\<close>

definition locks_kept :: "nat \<Rightarrow> mon \<Rightarrow> mon \<Rightarrow> bool" where
  "locks_kept p m m' \<longleftrightarrow> (\<forall>q l. q \<noteq> p \<longrightarrow> owner m l = Some q \<longrightarrow> owner m' l = Some q)"

lemma prim_step_frame:
  assumes "prim_step p a m = Some m'"
  shows "locks_kept p m m'" "job m' = job m" "ready m' = ready m"
  using assms by (auto simp: prim_step_def locks_kept_def mon_defs split: prim.splits if_splits)

lemma others_ok:
  assumes "\<forall>q. job_ok c lk q m (job m q)" "locks_kept p m m'" "job_ok c lk p (set_job p j m') j"
    and "job m' = job m" "ready m' \<Longrightarrow> ready m \<or> owner m lk = Some p"
  shows "\<forall>q. job_ok c lk q (set_job p j m') (job (set_job p j m') q)"
proof
  fix q
  show "job_ok c lk q (set_job p j m') (job (set_job p j m') q)"
  proof (cases "q = p")
    case True
    then show ?thesis using assms(3) by (simp add: set_job_def)
  next
    case False
    have "job_ok c lk q (set_job p j m') (job m q)"
      using assms(1)[rule_format, of q] by (rule job_ok_frame) (use assms(2,5) False in \<open>auto simp: locks_kept_def set_job_def\<close>)
    then show ?thesis using False assms(4) by (simp add: set_job_def)
  qed
qed

lemma going_next:
  assumes "job_ok c lk p m (Going (a # as))" "lk \<noteq> LK_ptable" "prim_step p a m = Some m'"
  shows "job_ok c lk p (set_job p (if as = [] then Parked else Going as) m') (if as = [] then Parked else Going as)"
  using assms by (auto simp: sleep_prims_def prim_step_def mon_defs split: if_splits)

lemma resuming_next:
  assumes "job_ok c lk p m (Resuming (a # as))" "lk \<noteq> LK_ptable" "prim_step p a m = Some m'"
  shows "job_ok c lk p (set_job p (if as = [] then Inside else Resuming as) m') (if as = [] then Inside else Resuming as)"
  using assms by (auto simp: resume_prims_def prim_step_def mon_defs split: if_splits)

lemma wake_rest_cases:
  assumes "wake_rest c k = a # as" "k \<le> NPROC"
  obtains "k < NPROC" "a = Wake_slot c k" "as = wake_rest c (Suc k)" | "a = Release LK_ptable" "as = []"
proof (cases "k < NPROC")
  case True
  then have "[k..<NPROC] = k # [Suc k..<NPROC]" by (rule upt_conv_Cons)
  then show ?thesis using assms(1) True that(1) by (simp add: wake_rest_def)
next
  case False
  then show ?thesis using assms that(2) by (simp add: wake_rest_def)
qed

lemma waking_shape:
  assumes "job_ok c lk p m (Waking (a # as))"
  obtains "a = Acquire LK_ptable" "as = wake_rest c 0"
    | k where "k < NPROC" "a = Wake_slot c k" "as = wake_rest c (Suc k)"
    | "a = Release LK_ptable" "as = []"
proof (cases "a # as = wakeup_prims c")
  case True
  then show ?thesis using that(1) by (simp add: wakeup_prims_def wake_rest_def)
next
  case False
  then obtain k where "k \<le> NPROC" "wake_rest c k = a # as" using assms by auto
  then show ?thesis using that(2,3) by (elim wake_rest_cases) blast+
qed

lemma waking_next:
  assumes "job_ok c lk p m (Waking (a # as))" "lk \<noteq> LK_ptable" "prim_step p a m = Some m'"
  shows "job_ok c lk p (set_job p (if as = [] then Inside else Waking as) m') (if as = [] then Inside else Waking as)"
proof -
  have own: "owner m lk = Some p" using assms(1) by simp
  consider "a # as = wakeup_prims c" | k where "k \<le> NPROC" "a # as = wake_rest c k" "owner m LK_ptable = Some p"
    using assms(1) by auto
  then show ?thesis
  proof cases
    case 1
    then have "a = Acquire LK_ptable" "as = wake_rest c 0" by (simp_all add: wakeup_prims_def wake_rest_def)
    moreover from this have "as \<noteq> []" by (simp add: wake_rest_def)
    ultimately show ?thesis using assms(2,3) own by (auto simp: prim_step_def mon_defs split: if_splits)
  next
    case 2
    show ?thesis
    proof (rule wake_rest_cases [OF 2(2)[symmetric] 2(1)])
      assume k: "k < NPROC" "a = Wake_slot c k" "as = wake_rest c (Suc k)"
      then have "as \<noteq> []" "\<exists>k\<le>NPROC. as = wake_rest c k"
        using k(1) by (simp_all add: wake_rest_def Suc_le_eq exI [of _ "Suc k"])
      then show ?thesis using assms(3) own 2(3) k(2) by (auto simp: prim_step_def mon_defs)
    next
      assume "a = Release LK_ptable" "as = []"
      then show ?thesis using assms(2,3) own by (auto simp: prim_step_def mon_defs split: if_splits)
    qed
  qed
qed

lemma jobs_ok_step:
  assumes "sw_step c lk m m'" "\<forall>p. job_ok c lk p m (job m p)" "lk \<noteq> LK_ptable"
  shows "\<forall>p. job_ok c lk p m' (job m' p)"
  using assms(1)
proof cases
  case (enter p)
  then show ?thesis
    by (simp only:) (rule others_ok [OF assms(2)], auto simp: locks_kept_def mon_defs)
next
  case (leave p)
  then have "owner m lk = Some p" using assms(2)[rule_format, of p] by simp
  then show ?thesis using leave
    by (simp only:) (rule others_ok [OF assms(2)], auto simp: locks_kept_def mon_defs)
next
  case (unready p)
  show ?thesis
  proof
    fix q show "job_ok c lk q m' (job m' q)"
      using job_ok_frame [OF assms(2)[rule_format, of q], of m'] unready by simp
  qed
next
  case (signal p)
  then have "owner m lk = Some p" using assms(2)[rule_format, of p] by simp
  then show ?thesis using signal
    by (simp only:) (rule others_ok [OF assms(2)], auto simp: locks_kept_def mon_defs)
next
  case (wait p)
  then have "owner m lk = Some p" using assms(2)[rule_format, of p] by simp
  then show ?thesis using wait
    by (simp only:) (rule others_ok [OF assms(2)], auto simp: locks_kept_def mon_defs)
next
  case (go p a as n)
  have "job_ok c lk p m (Going (a # as))" using assms(2)[rule_format, of p] go(2) by simp
  from going_next [OF this assms(3) go(3)] show ?thesis
    unfolding go(1) using prim_step_frame [OF go(3)] by (intro others_ok [OF assms(2)]) simp_all
next
  case (dispatch p)
  then show ?thesis
    by (simp only:) (rule others_ok [OF assms(2)], auto simp: locks_kept_def mon_defs)
next
  case (resume p a as n)
  have "job_ok c lk p m (Resuming (a # as))" using assms(2)[rule_format, of p] resume(2) by simp
  from resuming_next [OF this assms(3) resume(3)] show ?thesis
    unfolding resume(1) using prim_step_frame [OF resume(3)] by (intro others_ok [OF assms(2)]) simp_all
next
  case (wake p a as n)
  have "job_ok c lk p m (Waking (a # as))" using assms(2)[rule_format, of p] wake(2) by simp
  from waking_next [OF this assms(3) wake(3)] show ?thesis
    unfolding wake(1) using prim_step_frame [OF wake(3)] by (intro others_ok [OF assms(2)]) simp_all
next
  case (killed p)
  show ?thesis
  proof
    fix q show "job_ok c lk q m' (job m' q)"
      using job_ok_frame [OF assms(2)[rule_format, of q], of m'] killed by (simp add: mon_defs)
  qed
qed

lemma sleeper_tab_mono:
  "(state (wakeup_loop c [k] t r) = SLEEPING \<and> pchan (wakeup_loop c [k] t r) = Some c) \<longleftrightarrow>
     r \<noteq> k \<and> state (t r) = SLEEPING \<and> pchan (t r) = Some c"
  by auto

lemma pending_set_job:
  assumes "pending c m r" "job m' = job m" "\<And>as. job m p = Waking as \<Longrightarrow> Wake_slot c r \<in> set as \<Longrightarrow>
      \<exists>as'. j = Waking as' \<and> Wake_slot c r \<in> set as'"
  shows "pending c (set_job p j m') r"
proof -
  from assms(1) obtain q as where q: "job m q = Waking as" "Wake_slot c r \<in> set as"
    by (auto simp: pending_def)
  show ?thesis
  proof (cases "q = p")
    case True
    with q assms(3) obtain as' where "j = Waking as'" "Wake_slot c r \<in> set as'" by blast
    then show ?thesis unfolding pending_def by (intro exI [of _ p]) (simp add: set_job_def)
  next
    case False
    then show ?thesis using q assms(2) unfolding pending_def by (intro exI [of _ q]) (simp add: set_job_def)
  qed
qed

lemma at_risk_set_job:
  assumes "at_risk c lk (set_job p j m') r" "job m' = job m"
    and "\<And>as. r = p \<Longrightarrow> j = Going as \<Longrightarrow> Release lk \<notin> set as \<Longrightarrow> at_risk c lk m r"
    and "state (tab m' r) = SLEEPING \<Longrightarrow> pchan (tab m' r) = Some c \<Longrightarrow> at_risk c lk m r"
  shows "at_risk c lk m r"
  using assms by (auto simp: at_risk_def set_job_def split: if_splits)

lemma pending_same: "pending c m r \<Longrightarrow> job m' = job m \<Longrightarrow> pending c m' r"
  by (simp add: pending_def)

text \<open>\<open>sleep\<close> puts a process at risk only while the condition is false.\<close>

lemma going_risk:
  assumes "job m p = Going (a # as)" "job_ok c lk p m (Going (a # as))" "prim_step p a m = Some m'"
    and "ready m" "lk \<noteq> LK_ptable" "at_risk c lk (set_job p (if as = [] then Parked else Going as) m') r"
  shows "at_risk c lk m r"
proof (rule at_risk_set_job [OF assms(6) prim_step_frame(2) [OF assms(3)]])
  consider (acq) "a = Acquire LK_ptable" "Release lk \<in> set as" | (later) "Release lk \<notin> set (a # as)" "\<forall>c q. a \<noteq> Wake_slot c q"
    using assms(2,4,5) by (auto simp: sleep_prims_def)
  note c = this
  show "at_risk c lk m r" if "r = p" "(if as = [] then Parked else Going as) = Going as'" "Release lk \<notin> set as'" for as'
    using c by cases (use that assms(1) in \<open>auto simp: at_risk_def split: if_splits\<close>)
  assume z: "state (tab m' r) = SLEEPING" "pchan (tab m' r) = Some c"
  show "at_risk c lk m r"
    using c
  proof cases
    case acq
    then show ?thesis using assms(3) z by (auto simp: prim_step_def mon_defs at_risk_def split: if_splits)
  next
    case later
    show ?thesis
    proof (cases "r = p")
      case True
      then show ?thesis using later assms(1) by (auto simp: at_risk_def)
    next
      case False
      then have "tab m' r = tab m r"
        using later(2) assms(3) by (auto simp: prim_step_def mon_defs split: prim.splits if_splits)
      then show ?thesis using z by (simp add: at_risk_def)
    qed
  qed
qed

lemma resuming_risk:
  assumes "job_ok c lk p m (Resuming (a # as))" "prim_step p a m = Some m'"
    and "at_risk c lk (set_job p (if as = [] then Inside else Resuming as) m') r"
  shows "at_risk c lk m r"
proof (rule at_risk_set_job [OF assms(3) prim_step_frame(2) [OF assms(2)]])
  assume "state (tab m' r) = SLEEPING" "pchan (tab m' r) = Some c"
  then show "at_risk c lk m r" using assms(1,2)
    by (auto simp: resume_prims_def prim_step_def mon_defs at_risk_def split: if_splits)
qed (simp split: if_splits)

text \<open>\<open>wakeup\<close> leaves behind it no process at risk.\<close>

lemma waking_risk:
  assumes "job_ok c lk p m (Waking (a # as))" "prim_step p a m = Some m'"
    and "at_risk c lk (set_job p (if as = [] then Inside else Waking as) m') r"
  shows "at_risk c lk m r"
proof (rule at_risk_set_job [OF assms(3) prim_step_frame(2) [OF assms(2)]])
  have a: "a = Acquire LK_ptable \<or> (\<exists>k. a = Wake_slot c k) \<or> a = Release LK_ptable"
    using assms(1) by (rule waking_shape) simp_all
  assume "state (tab m' r) = SLEEPING" "pchan (tab m' r) = Some c"
  then show "at_risk c lk m r" using a assms(2)
    by (auto simp: prim_step_def mon_defs at_risk_def split: if_splits)
qed (simp split: if_splits)

lemma waking_pending:
  assumes "\<forall>q. job_ok c lk q m (job m q)" "job m p = Waking (a # as)" "prim_step p a m = Some m'"
    and "lk \<noteq> LK_ptable" "at_risk c lk (set_job p (if as = [] then Inside else Waking as) m') r" "pending c m r"
  shows "pending c (set_job p (if as = [] then Inside else Waking as) m') r"
proof (rule pending_set_job [OF assms(6) prim_step_frame(2) [OF assms(3)]])
  fix bs
  assume "job m p = Waking bs" "Wake_slot c r \<in> set bs"
  then have in_as: "a = Wake_slot c r \<or> Wake_slot c r \<in> set as" using assms(2) by auto
  have "a \<noteq> Wake_slot c r"
  proof
    assume a: "a = Wake_slot c r"
    have "owner m LK_ptable = Some p"
      using assms(1)[rule_format, of p] assms(2) a by (auto simp: wakeup_prims_def)
    moreover have "tab m' = wakeup_loop c [r] (tab m)" using assms(3) a by (simp add: prim_step_def) auto
    then have "\<not> (state (tab m' r) = SLEEPING \<and> pchan (tab m' r) = Some c)" by (simp add: sleeper_tab_mono)
    with assms(5) obtain cs where cs: "job (set_job p (if as = [] then Inside else Waking as) m') r = Going cs" "Release lk \<notin> set cs"
      by (auto simp: at_risk_def set_job_def)
    then have "r \<noteq> p" "job m r = Going cs"
      using prim_step_frame(2) [OF assms(3)] by (auto simp: set_job_def split: if_splits)
    moreover from this cs(2) have "owner m LK_ptable = Some r"
      using assms(1)[rule_format, of r] assms(4) by (auto simp: sleep_prims_def)
    ultimately show False by simp
  qed
  then show "\<exists>as'. (if as = [] then Inside else Waking as) = Waking as' \<and> Wake_slot c r \<in> set as'"
    using in_as by auto
qed

lemma sw_inv_step:
  assumes "sw_step c lk m m'" "sw_inv c lk m" "lk \<noteq> LK_ptable"
  shows "sw_inv c lk m'"
proof -
  have ok: "\<forall>p. job_ok c lk p m (job m p)" and pend: "\<And>r. ready m \<Longrightarrow> r < NPROC \<Longrightarrow> at_risk c lk m r \<Longrightarrow> pending c m r"
    using assms(2) by (auto simp: sw_inv_def)
  have "pending c m' r" if r: "ready m'" "r < NPROC" "at_risk c lk m' r" for r
    using assms(1)
  proof cases
    case (go p a as n)
    have "job_ok c lk p m (Going (a # as))" using ok[rule_format, of p] go(2) by simp
    moreover have rd: "ready m" using r(1) prim_step_frame(3) [OF go(3)] by (simp add: go(1) set_job_def)
    ultimately have "at_risk c lk m r" using going_risk [OF go(2) _ go(3) _ assms(3) r(3) [unfolded go(1)]] by blast
    then have "pending c m r" using pend rd r(2) by blast
    then show ?thesis unfolding go(1)
      by (rule pending_set_job) (use go(2) prim_step_frame(2) [OF go(3)] in simp_all)
  next
    case (resume p a as n)
    have "job_ok c lk p m (Resuming (a # as))" using ok[rule_format, of p] resume(2) by simp
    from resuming_risk [OF this resume(3) r(3) [unfolded resume(1)]] have "at_risk c lk m r" .
    moreover have "ready m" using r(1) prim_step_frame(3) [OF resume(3)] by (simp add: resume(1) set_job_def)
    ultimately have "pending c m r" using pend r(2) by blast
    then show ?thesis unfolding resume(1)
      by (rule pending_set_job) (use resume(2) prim_step_frame(2) [OF resume(3)] in simp_all)
  next
    case (wake p a as n)
    have "job_ok c lk p m (Waking (a # as))" using ok[rule_format, of p] wake(2) by simp
    from waking_risk [OF this wake(3) r(3) [unfolded wake(1)]] have "at_risk c lk m r" .
    moreover have "ready m" using r(1) prim_step_frame(3) [OF wake(3)] by (simp add: wake(1) set_job_def)
    ultimately have "pending c m r" using pend r(2) by blast
    then show ?thesis using waking_pending [OF ok wake(2,3) assms(3)] r(3) unfolding wake(1) by simp
  next
    case (signal p)
    then show ?thesis using r(2) unfolding pending_def
      by (intro exI [of _ p]) (simp add: set_job_def wakeup_prims_def)
  next
    case (enter p)
    then have "pending c m r" using r pend by (auto simp: mon_defs at_risk_def split: if_splits)
    then show ?thesis unfolding enter(1) by (rule pending_set_job) (use enter(2) in \<open>simp_all add: set_owner_def\<close>)
  next
    case (leave p)
    then have "pending c m r" using r pend by (auto simp: mon_defs at_risk_def split: if_splits)
    then show ?thesis unfolding leave(1) by (rule pending_set_job) (use leave(2) in \<open>simp_all add: set_owner_def\<close>)
  next
    case (dispatch p)
    then have "pending c m r" using r pend by (auto simp: mon_defs at_risk_def split: if_splits)
    then show ?thesis unfolding dispatch(1)
      by (rule pending_set_job) (use dispatch(2) in \<open>simp_all add: set_owner_def set_tab_def\<close>)
  next
    case (killed p)
    then have "pending c m r" using r pend by (auto simp: mon_defs at_risk_def split: if_splits)
    then show ?thesis by (rule pending_same) (simp add: killed(1) set_tab_def)
  qed (use r in \<open>simp_all add: set_job_def\<close>)
  then show ?thesis using jobs_ok_step [OF assms(1) ok assms(3)] by (simp add: sw_inv_def)
qed

lemma sw_run_inv: "sw_run c lk m \<Longrightarrow> lk \<noteq> LK_ptable \<Longrightarrow> sw_inv c lk m"
proof (induction rule: sw_run.induct)
  case (init m)
  then show ?case by (simp add: sw_inv_def at_risk_def)
next
  case (step m m')
  then show ?case using sw_inv_step by blast
qed

section \<open>A pending wake-up arrives\<close>

text \<open>Who can hold \<open>ptable.lock\<close>, and where a sleeping process is.\<close>

fun pt_job :: "job \<Rightarrow> bool" where
  "pt_job (Going as) \<longleftrightarrow> Acquire LK_ptable \<notin> set as"
| "pt_job (Resuming as) \<longleftrightarrow> Release LK_ptable \<in> set as"
| "pt_job (Waking as) \<longleftrightarrow> Acquire LK_ptable \<notin> set as"
| "pt_job _ \<longleftrightarrow> False"

definition pt_inv :: "mon \<Rightarrow> bool" where
  "pt_inv m \<longleftrightarrow> (\<forall>q. owner m LK_ptable = Some q \<longrightarrow> pt_job (job m q)) \<and>
     (\<forall>p. state (tab m p) = SLEEPING \<longrightarrow> job m p = Going [Sched] \<or> job m p = Parked)"

lemma pt_inv_set_job:
  assumes "pt_inv m" "job m' = job m"
    and "\<And>q. q \<noteq> p \<Longrightarrow> owner m' LK_ptable = Some q \<Longrightarrow> owner m LK_ptable = Some q"
    and "owner m' LK_ptable = Some p \<Longrightarrow> pt_job j"
    and "\<And>q. q \<noteq> p \<Longrightarrow> state (tab m' q) = SLEEPING \<Longrightarrow> state (tab m q) = SLEEPING"
    and "state (tab m' p) = SLEEPING \<Longrightarrow> j = Going [Sched] \<or> j = Parked"
  shows "pt_inv (set_job p j m')"
  using assms by (auto simp: pt_inv_def set_job_def)

lemma going_pt:
  assumes "pt_inv m" "job m p = Going (a # as)" "job_ok c lk p m (Going (a # as))" "prim_step p a m = Some m'" "lk \<noteq> LK_ptable"
  shows "pt_inv (set_job p (if as = [] then Parked else Going as) m')"
proof (rule pt_inv_set_job [OF assms(1) prim_step_frame(2) [OF assms(4)]])
  have asl: "state (tab m p) = SLEEPING \<Longrightarrow> a = Sched \<and> as = []" using assms(1,2) by (auto simp: pt_inv_def)
  show "(if as = [] then Parked else Going as) = Going [Sched] \<or> (if as = [] then Parked else Going as) = Parked"
    if "state (tab m' p) = SLEEPING"
    using asl assms(3-5) that by (auto simp: sleep_prims_def prim_step_def mon_defs split: if_splits)
qed (use assms(3-5) in \<open>auto simp: sleep_prims_def prim_step_def mon_defs split: if_splits\<close>)

lemma resuming_pt:
  assumes "pt_inv m" "job m p = Resuming (a # as)" "job_ok c lk p m (Resuming (a # as))" "prim_step p a m = Some m'" "lk \<noteq> LK_ptable"
  shows "pt_inv (set_job p (if as = [] then Inside else Resuming as) m')"
proof (rule pt_inv_set_job [OF assms(1) prim_step_frame(2) [OF assms(4)]])
  have asl: "state (tab m p) \<noteq> SLEEPING" using assms(1,2) by (auto simp: pt_inv_def)
  have own: "owner m LK_ptable = Some p \<Longrightarrow> Release LK_ptable \<in> set (a # as)" using assms(1,2) by (auto simp: pt_inv_def)
  show "pt_job (if as = [] then Inside else Resuming as)" if "owner m' LK_ptable = Some p"
    using own assms(3-5) that by (auto simp: resume_prims_def prim_step_def mon_defs split: if_splits)
  show "(if as = [] then Inside else Resuming as) = Going [Sched] \<or> (if as = [] then Inside else Resuming as) = Parked"
    if "state (tab m' p) = SLEEPING"
    using asl assms(3-5) that by (auto simp: resume_prims_def prim_step_def mon_defs split: if_splits)
qed (use assms(3-5) in \<open>auto simp: resume_prims_def prim_step_def mon_defs split: if_splits\<close>)

lemma waking_pt:
  assumes "pt_inv m" "job m p = Waking (a # as)" "job_ok c lk p m (Waking (a # as))" "prim_step p a m = Some m'"
  shows "pt_inv (set_job p (if as = [] then Inside else Waking as) m')"
proof (rule pt_inv_set_job [OF assms(1) prim_step_frame(2) [OF assms(4)]])
  have asl: "state (tab m p) \<noteq> SLEEPING" using assms(1,2) by (auto simp: pt_inv_def)
  have acq: "Acquire LK_ptable \<notin> set (wake_rest c k)" "wake_rest c k \<noteq> []" for k by (auto simp: wake_rest_def)
  show "pt_job (if as = [] then Inside else Waking as)" if "owner m' LK_ptable = Some p"
    using assms(3) by (rule waking_shape) (use acq that assms(4) in \<open>auto simp: prim_step_def mon_defs split: if_splits\<close>)
  show "(if as = [] then Inside else Waking as) = Going [Sched] \<or> (if as = [] then Inside else Waking as) = Parked"
    if "state (tab m' p) = SLEEPING"
    using assms(3) by (rule waking_shape) (use asl that assms(4) in \<open>auto simp: prim_step_def mon_defs split: if_splits\<close>)
  fix q
  show "owner m LK_ptable = Some q" if "q \<noteq> p" "owner m' LK_ptable = Some q"
    using assms(3) by (rule waking_shape) (use that assms(4) in \<open>auto simp: prim_step_def mon_defs split: if_splits\<close>)
  show "state (tab m q) = SLEEPING" if "q \<noteq> p" "state (tab m' q) = SLEEPING"
    using assms(3) by (rule waking_shape) (use that assms(4) in \<open>auto simp: prim_step_def mon_defs split: if_splits\<close>)
qed

lemma pt_inv_step:
  assumes "sw_step c lk m m'" "\<forall>p. job_ok c lk p m (job m p)" "pt_inv m" "lk \<noteq> LK_ptable"
  shows "pt_inv m'"
proof -
  have nope: "owner m LK_ptable \<noteq> Some p" "state (tab m p) \<noteq> SLEEPING" if "job m p \<in> {Outside, Inside}" for p
    using assms(3) that by (auto simp: pt_inv_def)
  show ?thesis
    using assms(1)
  proof cases
    case (go p a as n)
    then show ?thesis using going_pt [OF assms(3) go(2) _ go(3) assms(4)] assms(2)[rule_format, of p] by simp
  next
    case (resume p a as n)
    then show ?thesis using resuming_pt [OF assms(3) resume(2) _ resume(3) assms(4)] assms(2)[rule_format, of p] by simp
  next
    case (wake p a as n)
    then show ?thesis using waking_pt [OF assms(3) wake(2) _ wake(3)] assms(2)[rule_format, of p] by simp
  next
    case (dispatch p)
    show ?thesis unfolding dispatch(1)
      by (rule pt_inv_set_job [OF assms(3)]) (use dispatch(4) in \<open>auto simp: mon_defs resume_prims_def assms(4)\<close>)
  next
    case (unready p)
    then show ?thesis using assms(3) by (simp add: pt_inv_def)
  next
    case (killed p)
    then show ?thesis using assms(3) by (simp add: pt_inv_def mon_defs)
  next
    case (enter p)
    show ?thesis unfolding enter(1)
      by (rule pt_inv_set_job [OF assms(3)]) (use nope [of p] enter(2) assms(4) in \<open>auto simp: mon_defs\<close>)
  next
    case (leave p)
    show ?thesis unfolding leave(1)
      by (rule pt_inv_set_job [OF assms(3)]) (use nope [of p] leave(2) assms(4) in \<open>auto simp: mon_defs\<close>)
  next
    case (signal p)
    show ?thesis unfolding signal(1)
      by (rule pt_inv_set_job [OF assms(3)]) (use nope [of p] signal(2) assms(4) in \<open>auto simp: mon_defs\<close>)
  next
    case (wait p)
    show ?thesis unfolding wait(1)
      by (rule pt_inv_set_job [OF assms(3)]) (use nope [of p] wait(2) assms(4) in \<open>auto simp: mon_defs\<close>)
  qed
qed

lemma sw_run_pt_inv: "sw_run c lk m \<Longrightarrow> lk \<noteq> LK_ptable \<Longrightarrow> pt_inv m"
proof (induction rule: sw_run.induct)
  case (init m)
  then show ?case by (simp add: pt_inv_def)
next
  case (step m m')
  then show ?case using pt_inv_step sw_run_inv [OF step(1)] by (auto simp: sw_inv_def)
qed

definition asleep :: "chan \<Rightarrow> mon \<Rightarrow> nat \<Rightarrow> bool" where
  "asleep c m p \<longleftrightarrow> state (tab m p) = SLEEPING \<and> pchan (tab m p) = Some c"

text \<open>The wake-up that has \<open>ptable.lock\<close> comes to every slot ahead of it.\<close>

lemma wake_rest_arrives:
  assumes "job m w = Waking (wake_rest c k)" "k \<le> p" "p < NPROC" "asleep c m p"
  shows "\<exists>m'. (sw_step c lk)\<^sup>*\<^sup>* m m' \<and> state (tab m' p) = RUNNABLE"
  using assms
proof (induction "p - k" arbitrary: m k)
  case 0
  then have k: "k = p" by simp
  have "wake_rest c p = Wake_slot c p # wake_rest c (Suc p)"
    using 0(4) by (simp add: wake_rest_def upt_conv_Cons)
  then have j: "job m w = Waking (Wake_slot c p # wake_rest c (Suc p))" using 0(2) k by simp
  have "prim_step w (Wake_slot c p) m = Some (m\<lparr>tab := wakeup_loop c [p] (tab m)\<rparr>)" by (simp add: prim_step_def)
  note st = sw_step.wake [OF j this, of c lk]
  show ?case
    by (rule exI, rule conjI, rule r_into_rtranclp, rule st) (use 0(5) in \<open>simp add: asleep_def set_job_def\<close>)
next
  case (Suc n)
  have "wake_rest c k = Wake_slot c k # wake_rest c (Suc k)"
    using Suc(2,4,5) by (simp add: wake_rest_def upt_conv_Cons)
  then have j: "job m w = Waking (Wake_slot c k # wake_rest c (Suc k))" using Suc(3) by simp
  have "prim_step w (Wake_slot c k) m = Some (m\<lparr>tab := wakeup_loop c [k] (tab m)\<rparr>)" by (simp add: prim_step_def)
  note st = sw_step.wake [OF j this, of c lk]
  let ?m = "set_job w (if wake_rest c (Suc k) = [] then Inside else Waking (wake_rest c (Suc k))) (m\<lparr>tab := wakeup_loop c [k] (tab m)\<rparr>)"
  have "wake_rest c (Suc k) \<noteq> []" by (simp add: wake_rest_def)
  then have "job ?m w = Waking (wake_rest c (Suc k))" "asleep c ?m p"
    using Suc(2,6) by (auto simp: set_job_def asleep_def)
  then have "\<exists>m'. (sw_step c lk)\<^sup>*\<^sup>* ?m m' \<and> state (tab m' p) = RUNNABLE"
    using Suc(1) [of "Suc k" ?m] Suc(2,5) by simp
  then show ?case using st by (meson converse_rtranclp_into_rtranclp)
qed

text \<open>A process that holds \<open>ptable.lock\<close> in \<open>sleep\<close> gives it up.\<close>

abbreviation pt_freed :: "chan \<Rightarrow> lock_id \<Rightarrow> nat \<Rightarrow> nat \<Rightarrow> mon \<Rightarrow> bool" where
  "pt_freed c lk w p m \<equiv> \<exists>m'. (sw_step c lk)\<^sup>*\<^sup>* m m' \<and> owner m' LK_ptable = None \<and> job m' w = job m w \<and> asleep c m' p"

lemma pt_freed_step:
  "sw_step c lk m n \<Longrightarrow> job n w = job m w \<Longrightarrow> pt_freed c lk w p n \<Longrightarrow> pt_freed c lk w p m"
  by (metis converse_rtranclp_into_rtranclp)

lemma pt_freed_now:
  "sw_step c lk m n \<Longrightarrow> owner n LK_ptable = None \<Longrightarrow> job n w = job m w \<Longrightarrow> asleep c n p \<Longrightarrow> pt_freed c lk w p m"
  by (metis r_into_rtranclp)

lemma sched_frees:
  assumes "job m q = Going [Sched]" "owner m LK_ptable = Some q" "q \<noteq> w" "asleep c m p"
  shows "pt_freed c lk w p m"
proof -
  have "prim_step q Sched m = Some (set_owner LK_ptable None m)" using assms(2) by (simp add: prim_step_def)
  from sw_step.go [OF assms(1) this, of c lk] show ?thesis
    by (rule pt_freed_now) (use assms(3,4) in \<open>simp_all add: mon_defs asleep_def\<close>)
qed

lemma going_frees:
  assumes "job m q = Going as" "owner m LK_ptable = Some q" "q \<noteq> w" "asleep c m p"
    and "as \<in> {[Set_chan (Some c), Set_state SLEEPING, Sched], [Set_state SLEEPING, Sched], [Sched]}"
  shows "pt_freed c lk w p m"
proof -
  have st: "pt_freed c lk w p n"
    if n: "job n q = Going [Set_state SLEEPING, Sched]" "owner n LK_ptable = Some q" "asleep c n p" for n
  proof -
    have "prim_step q (Set_state SLEEPING) n = Some (set_tab q (\<lambda>x. x\<lparr>state := SLEEPING\<rparr>) n)" by (simp add: prim_step_def)
    from sw_step.go [OF n(1) this, of c lk] show ?thesis
      by (rule pt_freed_step, use assms(3) in \<open>simp add: mon_defs\<close>, intro sched_frees [of _ q])
        (use n assms(3) in \<open>auto simp: mon_defs asleep_def\<close>)
  qed
  consider "as = [Set_chan (Some c), Set_state SLEEPING, Sched]" | "as = [Set_state SLEEPING, Sched]" | "as = [Sched]"
    using assms(5) by blast
  then show ?thesis
  proof cases
    case 1
    have "prim_step q (Set_chan (Some c)) m = Some (set_tab q (\<lambda>x. x\<lparr>pchan := Some c\<rparr>) m)" by (simp add: prim_step_def)
    from sw_step.go [OF assms(1) [unfolded 1] this, of c lk] show ?thesis
      by (rule pt_freed_step, use assms(3) in \<open>simp add: mon_defs\<close>, intro st)
        (use assms(2-4) in \<open>auto simp: mon_defs asleep_def\<close>)
  qed (use assms(1-4) st sched_frees in blast)+
qed

lemma resuming_frees:
  assumes "job m q = Resuming as" "owner m LK_ptable = Some q" "q \<noteq> w" "asleep c m p" "q \<noteq> p" "lk \<noteq> LK_ptable"
    and "as \<in> {resume_prims lk, tl (resume_prims lk)}"
  shows "pt_freed c lk w p m"
proof -
  have st: "pt_freed c lk w p n"
    if n: "job n q = Resuming [Release LK_ptable, Acquire lk]" "owner n LK_ptable = Some q" "asleep c n p" for n
  proof -
    have "prim_step q (Release LK_ptable) n = Some (set_owner LK_ptable None n)" using n(2) by (simp add: prim_step_def)
    from sw_step.resume [OF n(1) this, of c lk] show ?thesis
      by (rule pt_freed_now) (use n(3) assms(3) in \<open>simp_all add: mon_defs asleep_def\<close>)
  qed
  consider "as = [Set_chan None, Release LK_ptable, Acquire lk]" | "as = [Release LK_ptable, Acquire lk]"
    using assms(6,7) by (auto simp: resume_prims_def)
  then show ?thesis
  proof cases
    case 1
    have "prim_step q (Set_chan None) m = Some (set_tab q (\<lambda>x. x\<lparr>pchan := None\<rparr>) m)" by (simp add: prim_step_def)
    from sw_step.resume [OF assms(1) [unfolded 1] this, of c lk] show ?thesis
      by (rule pt_freed_step, use assms(3) in \<open>simp add: mon_defs\<close>, intro st)
        (use assms(2-5) in \<open>auto simp: mon_defs asleep_def\<close>)
  qed (use assms(1-4) st in blast)
qed

text \<open>A wake-up that waits for \<open>ptable.lock\<close> gets it.\<close>

lemma pt_becomes_free:
  assumes "sw_run c lk m" "lk \<noteq> LK_ptable" "job m w = Waking (wakeup_prims c)" "asleep c m p"
  shows "pt_freed c lk w p m"
proof (cases "owner m LK_ptable")
  case None
  then show ?thesis using assms(4) by blast
next
  case (Some q)
  have ok: "job_ok c lk x m (job m x)" for x using sw_run_inv [OF assms(1,2)] by (simp add: sw_inv_def)
  have lkw: "owner m lk = Some w" using ok[of w] assms(3) by simp
  have pt: "pt_job (job m q)" and asl: "job m p = Going [Sched] \<or> job m p = Parked"
    using sw_run_pt_inv [OF assms(1,2)] Some assms(4) by (auto simp: pt_inv_def asleep_def)
  have w: "q \<noteq> w" using pt assms(3) by (auto simp: wakeup_prims_def)
  show ?thesis
  proof (cases "job m q")
    case (Going as)
    then have "as \<in> {[Set_chan (Some c), Set_state SLEEPING, Sched], [Set_state SLEEPING, Sched], [Sched]}"
      using ok[of q] lkw w by auto
    then show ?thesis by (rule going_frees [OF Going Some w assms(4)])
  next
    case (Resuming as)
    then have "as \<in> {resume_prims lk, tl (resume_prims lk)}" "q \<noteq> p"
      using ok[of q] pt asl by auto
    then show ?thesis using resuming_frees [OF Resuming Some w assms(4)] assms(2) by blast
  next
    case (Waking as)
    then show ?thesis using ok[of q] lkw w by simp
  qed (use pt in simp_all)
qed

lemma waker_arrives:
  assumes "sw_run c lk m" "lk \<noteq> LK_ptable" "job m w = Waking as" "Wake_slot c p \<in> set as" "p < NPROC" "asleep c m p"
  shows "\<exists>m'. (sw_step c lk)\<^sup>*\<^sup>* m m' \<and> state (tab m' p) = RUNNABLE"
proof -
  have "job_ok c lk w m (job m w)" using sw_run_inv [OF assms(1,2)] by (simp add: sw_inv_def)
  then consider "as = wakeup_prims c" | k where "as = wake_rest c k" using assms(3) by auto
  then show ?thesis
  proof cases
    case 1
    obtain n where n: "(sw_step c lk)\<^sup>*\<^sup>* m n" "owner n LK_ptable = None" "job n w = Waking (Acquire LK_ptable # wake_rest c 0)" "asleep c n p"
      using pt_becomes_free [OF assms(1,2) _ assms(6)] assms(3) 1 by (auto simp: wakeup_prims_def wake_rest_def)
    have "prim_step w (Acquire LK_ptable) n = Some (set_owner LK_ptable (Some w) n)" using n(2) by (simp add: prim_step_def)
    note st = sw_step.wake [OF n(3) this, of c lk]
    have "wake_rest c 0 \<noteq> []" by (simp add: wake_rest_def)
    then have "\<exists>m'. (sw_step c lk)\<^sup>*\<^sup>* (set_job w (if wake_rest c 0 = [] then Inside else Waking (wake_rest c 0))
        (set_owner LK_ptable (Some w) n)) m' \<and> state (tab m' p) = RUNNABLE"
      by (intro wake_rest_arrives [where k = 0 and w = w]) (use n(4) assms(5) in \<open>simp_all add: mon_defs asleep_def\<close>)
    then show ?thesis using n(1) st by (meson converse_rtranclp_into_rtranclp rtranclp_trans)
  next
    case 2
    then have "k \<le> p" using assms(4) by (auto simp: wake_rest_def)
    then show ?thesis using wake_rest_arrives assms(3,5,6) 2 by blast
  qed
qed

section \<open>No lost wake-up\<close>

text \<open>
  C11: no wake-up is lost between \<open>sleep\<close> and \<open>wakeup\<close>, in every interleaving of their operations by
  any number of processes, the scheduler and \<open>kill\<close>, when the condition is tested and changed under
  \<open>lk\<close>. A process on its way to sleep always holds \<open>lk\<close> or \<open>ptable.lock\<close>: it gives up \<open>lk\<close> only under
  \<open>ptable.lock\<close>. If the condition is true and a process of the table is still asleep on the channel,
  then a process that holds \<open>lk\<close> is in \<open>wakeup\<close> and has its slot still ahead of it, and a run of the
  system from here makes the sleeper runnable.
\<close>

theorem sleep_wakeup_not_lost:
  assumes "sw_run c lk m" "lk \<noteq> LK_ptable"
  shows "(\<forall>p as. job m p = Going as \<longrightarrow> owner m lk = Some p \<or> owner m LK_ptable = Some p) \<and>
    (\<forall>p<NPROC. ready m \<and> state (tab m p) = SLEEPING \<and> pchan (tab m p) = Some c \<longrightarrow>
      (\<exists>w as. job m w = Waking as \<and> Wake_slot c p \<in> set as \<and> owner m lk = Some w) \<and>
      (\<exists>m'. (sw_step c lk)\<^sup>*\<^sup>* m m' \<and> state (tab m' p) = RUNNABLE))"
proof (intro conjI allI impI)
  have ok: "job_ok c lk x m (job m x)" for x using sw_run_inv [OF assms] by (simp add: sw_inv_def)
  show "owner m lk = Some p \<or> owner m LK_ptable = Some p" if "job m p = Going as" for p as
    using ok[of p] that by auto
  fix p assume p: "p < NPROC" and z: "ready m \<and> state (tab m p) = SLEEPING \<and> pchan (tab m p) = Some c"
  then have "pending c m p" using sw_run_inv [OF assms] by (auto simp: sw_inv_def at_risk_def)
  then obtain w as where w: "job m w = Waking as" "Wake_slot c p \<in> set as" by (auto simp: pending_def)
  then show "\<exists>w as. job m w = Waking as \<and> Wake_slot c p \<in> set as \<and> owner m lk = Some w"
    using ok[of w] by auto
  show "\<exists>m'. (sw_step c lk)\<^sup>*\<^sup>* m m' \<and> state (tab m' p) = RUNNABLE"
    using waker_arrives [OF assms w p] z by (simp add: asleep_def)
qed

text \<open>Process 0 waits for the log and goes to sleep; process 1 enters, makes it available and calls \<open>wakeup\<close>.\<close>

definition sw_demo :: "lock_id option \<Rightarrow> (proc \<Rightarrow> proc) \<Rightarrow> job \<Rightarrow> mon" where
  "sw_demo l f j =
     \<lparr>owner = (case l of None \<Rightarrow> (\<lambda>_. None) | Some x \<Rightarrow> (\<lambda>_. None)(x := Some 0)),
      tab = (\<lambda>_. bss_proc\<lparr>state := RUNNING\<rparr>)(0 := f (bss_proc\<lparr>state := RUNNING\<rparr>)), job = (\<lambda>_. Outside)(0 := j), ready = False\<rparr>"

definition sw_demo_end :: mon where
  "sw_demo_end = set_job 1 (Waking (wakeup_prims Chan_log))
     ((set_owner LK_log (Some 1) (sw_demo None (\<lambda>q. q\<lparr>pchan := Some Chan_log, state := SLEEPING\<rparr>) Parked))\<lparr>ready := True\<rparr>)"

lemma sw_run_via: "sw_run c lk m \<Longrightarrow> sw_step c lk m n \<Longrightarrow> n = m' \<Longrightarrow> sw_run c lk m'"
  using sw_run.step by blast

lemma sw_demo_asleep: "sw_run Chan_log LK_log (sw_demo None (\<lambda>q. q\<lparr>pchan := Some Chan_log, state := SLEEPING\<rparr>) Parked)"
proof -
  let ?rest = "[Set_chan (Some Chan_log), Set_state SLEEPING, Sched]"
  note demo = sw_demo_def mon_defs prim_step_def sleep_prims_def bss_proc_def
  have "sw_run Chan_log LK_log (sw_demo None id Outside)"
    by (rule sw_run.init) (simp_all add: sw_demo_def bss_proc_def fun_eq_iff)
  then have "sw_run Chan_log LK_log (sw_demo (Some LK_log) id Inside)"
    by (rule sw_run_via [OF _ sw_step.enter [of _ 0]]) (simp_all add: demo)
  then have "sw_run Chan_log LK_log (sw_demo (Some LK_log) id (Going (Acquire LK_ptable # Release LK_log # ?rest)))"
    by (rule sw_run_via [OF _ sw_step.wait [of _ 0]]) (simp_all add: demo)
  then have "sw_run Chan_log LK_log ((sw_demo (Some LK_log) id (Going (Release LK_log # ?rest)))
      \<lparr>owner := (\<lambda>_. None)(LK_log := Some 0, LK_ptable := Some 0)\<rparr>)"
    by (rule sw_run_via [OF _ sw_step.go [of _ 0]]) (simp add: sw_demo_def, simp add: demo, simp add: demo)
  then have "sw_run Chan_log LK_log (sw_demo (Some LK_ptable) id (Going ?rest))"
    by (rule sw_run_via [OF _ sw_step.go [of _ 0]]) (simp add: sw_demo_def, simp add: demo, simp add: demo fun_eq_iff)
  then have "sw_run Chan_log LK_log (sw_demo (Some LK_ptable) (\<lambda>q. q\<lparr>pchan := Some Chan_log\<rparr>) (Going (tl ?rest)))"
    by (rule sw_run_via [OF _ sw_step.go [of _ 0]]) (simp add: sw_demo_def, simp add: demo, simp add: demo)
  then have "sw_run Chan_log LK_log (sw_demo (Some LK_ptable) (\<lambda>q. q\<lparr>pchan := Some Chan_log, state := SLEEPING\<rparr>) (Going [Sched]))"
    by (rule sw_run_via [OF _ sw_step.go [of _ 0]]) (simp add: sw_demo_def, simp add: demo, simp add: demo)
  then show ?thesis
    by (rule sw_run_via [OF _ sw_step.go [of _ 0]]) (simp add: sw_demo_def, simp add: demo, simp add: demo fun_eq_iff)
qed

lemma sw_demo_run: "sw_run Chan_log LK_log sw_demo_end"
proof -
  have "sw_run Chan_log LK_log
      (set_job 1 Inside (set_owner LK_log (Some 1) (sw_demo None (\<lambda>q. q\<lparr>pchan := Some Chan_log, state := SLEEPING\<rparr>) Parked)))"
    by (rule sw_run.step [OF sw_demo_asleep], rule sw_step.enter) (simp_all add: sw_demo_def)
  then show ?thesis
    by (rule sw_run_via [OF _ sw_step.signal [of _ 1]]) (simp_all add: sw_demo_end_def mon_defs sw_demo_def)
qed

theorem sleep_wakeup_not_lost_witness:
  "sw_run Chan_log LK_log sw_demo_end \<and> ready sw_demo_end \<and>
   state (tab sw_demo_end 0) = SLEEPING \<and> pchan (tab sw_demo_end 0) = Some Chan_log \<and>
   (\<exists>m'. (sw_step Chan_log LK_log)\<^sup>*\<^sup>* sw_demo_end m' \<and> state (tab m' 0) = RUNNABLE)"
proof -
  have "ready sw_demo_end" "state (tab sw_demo_end 0) = SLEEPING" "pchan (tab sw_demo_end 0) = Some Chan_log"
    by (simp_all add: sw_demo_end_def sw_demo_def mon_defs)
  then show ?thesis
    using sleep_wakeup_not_lost [OF sw_demo_run] sw_demo_run by (simp add: NPROC_def)
qed

end
