(* ===== verification/Sleeplock.thy ===== *)
theory Sleeplock
  imports Proc
begin

text \<open>
  \<open>xv6/sleeplock.c\<close>. A \<open>struct sleeplock *\<close> argument is its sleep channel together with the way to
  read and write the lock inside the object that contains it. The embedded spin-lock \<open>lk->lk\<close> is
  \<open>LK_sleep c\<close>. When the lock is taken, \<open>acquiresleep\<close> goes to sleep on it: the outcome \<open>Sleeps c\<close>;
  woken up, the loop starts over.
\<close>

record sleeplock =
  sl_locked :: u32
  sl_name :: string
  sl_pid :: int

definition initsleeplock :: "string \<Rightarrow> sleeplock \<Rightarrow> sleeplock" where
  "initsleeplock nm lk = lk\<lparr>sl_name := nm, sl_locked := 0, sl_pid := 0\<rparr>"

definition acquiresleep :: "chan \<Rightarrow> ('a proc_st_scheme \<Rightarrow> sleeplock) \<Rightarrow>
    ((sleeplock \<Rightarrow> sleeplock) \<Rightarrow> 'a proc_st_scheme \<Rightarrow> 'a proc_st_scheme) \<Rightarrow>
    'a proc_st_scheme \<Rightarrow> 'a proc_st_scheme res" where
  "acquiresleep c get upd s =
     bind_r (acq (LK_sleep c) s) (\<lambda>s.
     if sl_locked (get s) \<noteq> 0 then Inl (Sleeps c)
     else
       let s = upd (\<lambda>lk. lk\<lparr>sl_locked := 1\<rparr>) s in
       case myproc s of None \<Rightarrow> Inl (Faults ''acquiresleep'')
       | Some p \<Rightarrow> rel (LK_sleep c) (upd (\<lambda>lk. lk\<lparr>sl_pid := pid (ptable s p)\<rparr>) s))"

definition releasesleep :: "chan \<Rightarrow>
    ((sleeplock \<Rightarrow> sleeplock) \<Rightarrow> 'a proc_st_scheme \<Rightarrow> 'a proc_st_scheme) \<Rightarrow>
    'a proc_st_scheme \<Rightarrow> 'a proc_st_scheme res" where
  "releasesleep c upd s =
     bind_r (acq (LK_sleep c) s) (\<lambda>s.
     let s = upd (\<lambda>lk. lk\<lparr>sl_locked := 0, sl_pid := 0\<rparr>) s in
     bind_r (wakeup c s) (rel (LK_sleep c)))"

definition holdingsleep :: "chan \<Rightarrow> ('a proc_st_scheme \<Rightarrow> sleeplock) \<Rightarrow>
    'a proc_st_scheme \<Rightarrow> (bool \<times> 'a proc_st_scheme) res" where
  "holdingsleep c get s =
     bind_r (acq (LK_sleep c) s) (\<lambda>s.
     let r = sl_locked (get s) \<noteq> 0 in
     bind_r (rel (LK_sleep c) s) (\<lambda>s. Inr (r, s)))"

end
