(* ===== verification/Bio.thy ===== *)
theory Bio
  imports Sleeplock
begin

text \<open>
  The buffer cache \<open>xv6/bio.c\<close> and the in-memory disk \<open>xv6/memide.c\<close> below it.

  A \<open>struct buf *\<close> is an index: \<open>i < NBUF\<close> is \<open>&bcache.buf[i]\<close> and \<open>HEAD\<close> is \<open>&bcache.head\<close>. The LRU list
  is kept through the \<open>prev\<close> and \<open>next\<close> fields as in the source; \<open>lru_list\<close> relates it to a list of
  indices. The disk image is addressed in blocks of \<open>BSIZE\<close> bytes, which is how \<open>iderw\<close> uses it;
  \<open>dwrites\<close> records the block writes that reached it, oldest first, so that a crash is a prefix of
  that sequence. \<open>qnext\<close> belongs to the IDE driver, which this build does not use.
\<close>

definition NBUF :: nat where "NBUF = 30"
definition BSIZE :: nat where "BSIZE = 512"
definition B_VALID :: u32 where "B_VALID = 2"
definition B_DIRTY :: u32 where "B_DIRTY = 4"
definition HEAD :: nat where "HEAD = NBUF"

record buf =
  bflags :: u32
  bdev :: u32
  blockno :: u32
  block :: sleeplock
  refcnt :: u32
  bprev :: nat
  bnext :: nat
  bdata :: "u8 list"

record bio_st = proc_st +
  bufs :: "nat \<Rightarrow> buf"
  memdisk :: "u32 \<Rightarrow> u8 list"
  disksize :: u32
  dwrites :: "(u32 \<times> u8 list) list"

definition upd_buf :: "nat \<Rightarrow> (buf \<Rightarrow> buf) \<Rightarrow> 'a bio_st_scheme \<Rightarrow> 'a bio_st_scheme" where
  "upd_buf i f s = s\<lparr>bufs := (bufs s)(i := f (bufs s i))\<rparr>"

definition buf_lock :: "nat \<Rightarrow> 'a bio_st_scheme \<Rightarrow> sleeplock" where
  "buf_lock i s = block (bufs s i)"

definition upd_buf_lock :: "nat \<Rightarrow> (sleeplock \<Rightarrow> sleeplock) \<Rightarrow> 'a bio_st_scheme \<Rightarrow> 'a bio_st_scheme" where
  "upd_buf_lock i f s = upd_buf i (\<lambda>b. b\<lparr>block := f (block b)\<rparr>) s"

section \<open>The disk\<close>

definition ideinit :: "(u32 \<Rightarrow> u8 list) \<Rightarrow> u32 \<Rightarrow> 'a bio_st_scheme \<Rightarrow> 'a bio_st_scheme" where
  "ideinit img img_size s = s\<lparr>memdisk := img, disksize := img_size div of_nat BSIZE\<rparr>"

definition ideintr :: "'a bio_st_scheme \<Rightarrow> 'a bio_st_scheme" where
  "ideintr s = s"

definition iderw :: "nat \<Rightarrow> 'a bio_st_scheme \<Rightarrow> 'a bio_st_scheme res" where
  "iderw i s =
     bind_r (holdingsleep (Chan_buf i) (buf_lock i) s) (\<lambda>(h, s).
     let b = bufs s i in
     if \<not> h then Inl (Panic ''iderw: buf not locked'')
     else if bflags b AND (B_VALID OR B_DIRTY) = B_VALID then Inl (Panic ''iderw: nothing to do'')
     else if bdev b \<noteq> 1 then Inl (Panic ''iderw: request not for disk 1'')
     else if blockno b \<ge> disksize s then Inl (Panic ''iderw: block out of range'')
     else
       let s = (if bflags b AND B_DIRTY \<noteq> 0
                then (upd_buf i (\<lambda>b. b\<lparr>bflags := bflags b AND NOT B_DIRTY\<rparr>) s)
                  \<lparr>memdisk := (memdisk s)(blockno b := bdata b),
                   dwrites := dwrites s @ [(blockno b, bdata b)]\<rparr>
                else upd_buf i (\<lambda>c. c\<lparr>bdata := memdisk s (blockno b)\<rparr>) s) in
       Inr (upd_buf i (\<lambda>b. b\<lparr>bflags := bflags b OR B_VALID\<rparr>) s))"

section \<open>The cache\<close>

definition link_node :: "nat \<Rightarrow> (nat \<Rightarrow> buf) \<Rightarrow> nat \<Rightarrow> buf" where
  "link_node b t =
     (let t = t(b := (t b)\<lparr>bnext := bnext (t HEAD)\<rparr>)
      in t(b := (t b)\<lparr>bprev := HEAD\<rparr>))"

definition link_head :: "nat \<Rightarrow> (nat \<Rightarrow> buf) \<Rightarrow> nat \<Rightarrow> buf" where
  "link_head b t =
     (let h = bnext (t HEAD); t = t(h := (t h)\<lparr>bprev := b\<rparr>)
      in t(HEAD := (t HEAD)\<lparr>bnext := b\<rparr>))"

fun binit_loop :: "nat list \<Rightarrow> (nat \<Rightarrow> buf) \<Rightarrow> nat \<Rightarrow> buf" where
  "binit_loop [] t = t"
| "binit_loop (b # bs) t =
     (let t = link_node b t;
          t = t(b := (t b)\<lparr>block := initsleeplock ''buffer'' (block (t b))\<rparr>)
      in binit_loop bs (link_head b t))"

definition binit :: "'a bio_st_scheme \<Rightarrow> 'a bio_st_scheme" where
  "binit s = s\<lparr>bufs := binit_loop [0..<NBUF]
     ((bufs s)(HEAD := (bufs s HEAD)\<lparr>bprev := HEAD, bnext := HEAD\<rparr>))\<rparr>"

text \<open>The two scans of \<open>bget\<close>; they visit at most the \<open>NBUF\<close> buffers and the list head.\<close>

fun scan_fwd :: "(nat \<Rightarrow> buf) \<Rightarrow> (buf \<Rightarrow> bool) \<Rightarrow> nat \<Rightarrow> nat \<Rightarrow> nat option res" where
  "scan_fwd t P 0 b = Inl NoFuel"
| "scan_fwd t P (Suc n) b =
     (if b = HEAD then Inr None
      else if P (t b) then Inr (Some b)
      else scan_fwd t P n (bnext (t b)))"

fun scan_bwd :: "(nat \<Rightarrow> buf) \<Rightarrow> (buf \<Rightarrow> bool) \<Rightarrow> nat \<Rightarrow> nat \<Rightarrow> nat option res" where
  "scan_bwd t P 0 b = Inl NoFuel"
| "scan_bwd t P (Suc n) b =
     (if b = HEAD then Inr None
      else if P (t b) then Inr (Some b)
      else scan_bwd t P n (bprev (t b)))"

definition bget :: "u32 \<Rightarrow> u32 \<Rightarrow> 'a bio_st_scheme \<Rightarrow> (nat \<times> 'a bio_st_scheme) res" where
  "bget dev bno s =
     bind_r (acq LK_bcache s) (\<lambda>s.
     bind_r (scan_fwd (bufs s) (\<lambda>b. bdev b = dev \<and> blockno b = bno) (Suc NBUF) (bnext (bufs s HEAD)))
       (\<lambda>hit. case hit of
         Some i \<Rightarrow>
           let s = upd_buf i (\<lambda>b. b\<lparr>refcnt := refcnt b + 1\<rparr>) s in
           bind_r (rel LK_bcache s) (\<lambda>s.
           bind_r (acquiresleep (Chan_buf i) (buf_lock i) (upd_buf_lock i) s) (\<lambda>s. Inr (i, s)))
       | None \<Rightarrow>
         bind_r (scan_bwd (bufs s) (\<lambda>b. refcnt b = 0 \<and> bflags b AND B_DIRTY = 0) (Suc NBUF)
             (bprev (bufs s HEAD)))
           (\<lambda>old. case old of
             Some i \<Rightarrow>
               let s = upd_buf i (\<lambda>b. b\<lparr>bdev := dev, blockno := bno, bflags := 0, refcnt := 1\<rparr>) s in
               bind_r (rel LK_bcache s) (\<lambda>s.
               bind_r (acquiresleep (Chan_buf i) (buf_lock i) (upd_buf_lock i) s) (\<lambda>s. Inr (i, s)))
           | None \<Rightarrow> Inl (Panic ''bget: no buffers''))))"

definition bread :: "u32 \<Rightarrow> u32 \<Rightarrow> 'a bio_st_scheme \<Rightarrow> (nat \<times> 'a bio_st_scheme) res" where
  "bread dev bno s =
     bind_r (bget dev bno s) (\<lambda>(b, s).
     if bflags (bufs s b) AND B_VALID = 0 then bind_r (iderw b s) (\<lambda>s. Inr (b, s))
     else Inr (b, s))"

definition bwrite :: "nat \<Rightarrow> 'a bio_st_scheme \<Rightarrow> 'a bio_st_scheme res" where
  "bwrite b s =
     bind_r (holdingsleep (Chan_buf b) (buf_lock b) s) (\<lambda>(h, s).
     if \<not> h then Inl (Panic ''bwrite'')
     else iderw b (upd_buf b (\<lambda>c. c\<lparr>bflags := bflags c OR B_DIRTY\<rparr>) s))"

text \<open>The six pointer assignments that move a buffer to the front of the LRU list.\<close>

definition unlink :: "nat \<Rightarrow> (nat \<Rightarrow> buf) \<Rightarrow> nat \<Rightarrow> buf" where
  "unlink b t =
     (let n = bnext (t b); t = t(n := (t n)\<lparr>bprev := bprev (t b)\<rparr>);
          p = bprev (t b)
      in t(p := (t p)\<lparr>bnext := bnext (t b)\<rparr>))"

definition relink :: "nat \<Rightarrow> (nat \<Rightarrow> buf) \<Rightarrow> nat \<Rightarrow> buf" where
  "relink b t = link_head b (link_node b (unlink b t))"

definition brelse :: "nat \<Rightarrow> 'a bio_st_scheme \<Rightarrow> 'a bio_st_scheme res" where
  "brelse b s =
     bind_r (holdingsleep (Chan_buf b) (buf_lock b) s) (\<lambda>(h, s).
     if \<not> h then Inl (Panic ''brelse'')
     else
       bind_r (releasesleep (Chan_buf b) (upd_buf_lock b) s) (\<lambda>s.
       bind_r (acq LK_bcache s) (\<lambda>s.
       let s = upd_buf b (\<lambda>c. c\<lparr>refcnt := refcnt c - 1\<rparr>) s;
           s = (if refcnt (bufs s b) = 0 then s\<lparr>bufs := relink b (bufs s)\<rparr> else s) in
       rel LK_bcache s)))"


section \<open>The LRU list\<close>

fun chain :: "(nat \<Rightarrow> buf) \<Rightarrow> nat \<Rightarrow> nat list \<Rightarrow> nat \<Rightarrow> bool" where
  "chain t a [] z \<longleftrightarrow> bnext (t a) = z \<and> bprev (t z) = a"
| "chain t a (x # xs) z \<longleftrightarrow> bnext (t a) = x \<and> bprev (t x) = a \<and> chain t x xs z"

definition lru_list :: "(nat \<Rightarrow> buf) \<Rightarrow> nat list \<Rightarrow> bool" where
  "lru_list t xs \<longleftrightarrow> chain t HEAD xs HEAD \<and> distinct xs \<and> set xs = {..<NBUF}"

lemma chain_cong:
  "\<lbrakk>\<And>i. i \<in> insert a (set xs) \<Longrightarrow> bnext (t' i) = bnext (t i);
    \<And>i. i \<in> insert z (set xs) \<Longrightarrow> bprev (t' i) = bprev (t i)\<rbrakk> \<Longrightarrow> chain t' a xs z = chain t a xs z"
  by (induction xs arbitrary: a) auto

lemma chain_append: "chain t a (xs @ y # ys) z \<longleftrightarrow> chain t a xs y \<and> chain t y ys z"
  by (induction xs arbitrary: a) auto

lemma chain_push:
  assumes "chain t HEAD xs HEAD" and d: "distinct (b # xs)" and h: "HEAD \<notin> set (b # xs)"
    and nx: "\<And>i. bnext (t' i) = (if i = HEAD then b else if i = b then bnext (t HEAD) else bnext (t i))"
    and pv: "\<And>i. bprev (t' i) = (if i = bnext (t HEAD) then b else if i = b then HEAD else bprev (t i))"
  shows "chain t' HEAD (b # xs) HEAD"
proof (cases xs)
  case Nil
  then show ?thesis using assms(1) d h by (auto simp: nx pv)
next
  case (Cons x ys)
  then have "chain t' x ys HEAD = chain t x ys HEAD" using assms(1) d h
    by (intro chain_cong) (auto simp: nx pv)
  then show ?thesis using assms(1) d h Cons by (auto simp: nx pv)
qed

lemma chain_unlink:
  assumes "chain t a xs b" "chain t b ys z" "distinct (xs @ b # ys)"
    "a \<notin> set (xs @ b # ys)" "z \<notin> set (xs @ b # ys)"
    and nx: "\<And>i. bnext (t' i) = (if i = bprev (t b) then bnext (t b) else bnext (t i))"
    and pv: "\<And>i. bprev (t' i) = (if i = bnext (t b) then bprev (t b) else bprev (t i))"
  shows "chain t' a (xs @ ys) z"
  using assms(1-5)
proof (induction xs arbitrary: a)
  case Nil
  show ?case
  proof (cases ys)
    case Nil
    then show ?thesis using Nil.prems by (auto simp: nx pv)
  next
    case (Cons y zs)
    then have "chain t' y zs z = chain t y zs z" using Nil.prems
      by (intro chain_cong) (auto simp: nx pv)
    then show ?thesis using Nil.prems Cons by (auto simp: nx pv)
  qed
next
  case (Cons x xs)
  have last: "bprev (t b) \<in> set (x # xs)" if "chain t a (x # xs) b" for a x xs
    using that by (induction xs arbitrary: a x) auto
  have first: "bnext (t b) \<in> set (ys @ [z])"
    using Cons.prems(2) by (cases ys) auto
  have "a \<noteq> bprev (t b)" using last [OF Cons.prems(1)] Cons.prems(4) by auto
  moreover have "x \<noteq> bnext (t b)" using first Cons.prems(3,5) by auto
  moreover have "chain t' x (xs @ ys) z" using Cons by (intro Cons.IH) auto
  ultimately show ?case using Cons.prems(1) by (simp add: nx pv)
qed

lemma HEAD_simps [simp]: "i < NBUF \<Longrightarrow> i \<noteq> HEAD" "i < NBUF \<Longrightarrow> HEAD \<noteq> i" "\<not> HEAD < NBUF" "HEAD \<noteq> 0"
  by (auto simp: HEAD_def NBUF_def)

lemma lru_cong:
  "\<lbrakk>\<And>i. bnext (t' i) = bnext (t i); \<And>i. bprev (t' i) = bprev (t i)\<rbrakk> \<Longrightarrow> lru_list t' xs = lru_list t xs"
  by (simp add: lru_list_def chain_cong [of HEAD xs t' t HEAD])

lemma lru_length: "lru_list t xs \<Longrightarrow> length xs = NBUF"
  unfolding lru_list_def by (metis card_lessThan distinct_card)

lemma link_next:
  "b \<noteq> HEAD \<Longrightarrow> bnext (link_head b (f (link_node b t)) i) =
     (if i = HEAD then b else if i = b then bnext (t HEAD) else bnext (t i))"
  if "\<And>t i. bnext (f t i) = bnext (t i)"
  using that by (simp add: link_head_def link_node_def Let_def)

lemma link_prev:
  "\<lbrakk>b \<noteq> HEAD; bnext (t HEAD) \<noteq> b\<rbrakk> \<Longrightarrow> bprev (link_head b (f (link_node b t)) i) =
     (if i = bnext (t HEAD) then b else if i = b then HEAD else bprev (t i))"
  if "\<And>t i. bnext (f t i) = bnext (t i)" "\<And>t i. bprev (f t i) = bprev (t i)"
  using that by (auto simp: link_head_def link_node_def Let_def)

lemma chain_link:
  assumes "chain t HEAD xs HEAD" "distinct (b # xs)" "HEAD \<notin> set (b # xs)"
    and f: "\<And>t i. bnext (f t i) = bnext (t i)" "\<And>t i. bprev (f t i) = bprev (t i)"
  shows "chain (link_head b (f (link_node b t))) HEAD (b # xs) HEAD"
proof -
  have h: "b \<noteq> HEAD" using assms(3) by auto
  have "bnext (t HEAD) \<noteq> b" using assms(1-3) by (cases xs) auto
  then show ?thesis using link_next [of f b t, OF f(1) h] link_prev [of f b t, OF f h]
    by (intro chain_push [OF assms(1-3)]) simp_all
qed

lemma binit_loop_chain:
  "\<lbrakk>chain t HEAD xs HEAD; distinct (bs @ xs); HEAD \<notin> set (bs @ xs)\<rbrakk> \<Longrightarrow>
   chain (binit_loop bs t) HEAD (rev bs @ xs) HEAD"
proof (induction bs arbitrary: t xs)
  case (Cons b bs)
  have "chain (link_head b ((\<lambda>t. t(b := (t b)\<lparr>block := initsleeplock ''buffer'' (block (t b))\<rparr>))
      (link_node b t))) HEAD (b # xs) HEAD"
    using Cons.prems by (intro chain_link) auto
  from Cons.IH [OF this] Cons.prems show ?case by (simp add: Let_def)
qed simp

lemma chain_no_loop:
  assumes "chain t a xs z" "distinct (a # xs)" "z \<notin> set xs" "b \<in> set xs"
  shows "bnext (t b) \<noteq> b \<and> bprev (t b) \<noteq> b"
  using assms
proof (induction xs arbitrary: a)
  case (Cons x xs)
  show ?case
  proof (cases "b = x")
    case True
    then show ?thesis using Cons.prems by (cases xs) auto
  next
    case False
    then show ?thesis using Cons.prems by (intro Cons.IH [of x]) auto
  qed
qed simp

lemma unlink_chain:
  assumes "lru_list t xs" "b < NBUF"
  shows "chain (unlink b t) HEAD (remove1 b xs) HEAD"
proof -
  have b: "b \<in> set xs" and d: "distinct xs" and h: "HEAD \<notin> set xs"
    using assms by (auto simp: lru_list_def)
  obtain us vs where xs: "xs = us @ b # vs" using split_list [OF b] by blast
  have nb: "bnext (t b) \<noteq> b" "bprev (t b) \<noteq> b"
    using chain_no_loop [of t HEAD xs HEAD b] assms(1) b d h by (auto simp: lru_list_def)
  have "chain (unlink b t) HEAD (us @ vs) HEAD"
  proof (rule chain_unlink)
    show "chain t HEAD us b" "chain t b vs HEAD"
      using assms(1) by (simp_all add: lru_list_def xs chain_append)
  qed (use d h xs nb in \<open>auto simp: unlink_def Let_def\<close>)
  moreover have "remove1 b xs = us @ vs" using d by (simp add: xs remove1_append)
  ultimately show ?thesis by simp
qed

lemma relink_lru:
  assumes "lru_list t xs" "b < NBUF"
  shows "lru_list (relink b t) (b # remove1 b xs)"
proof -
  have x: "b \<in> set xs" "distinct xs" "HEAD \<notin> set xs" using assms by (auto simp: lru_list_def)
  have "chain (link_head b ((\<lambda>t. t) (link_node b (unlink b t)))) HEAD (b # remove1 b xs) HEAD"
    using x assms(2) by (intro chain_link unlink_chain [OF assms]) (auto dest: notin_set_remove1)
  then show ?thesis using x assms by (auto simp: lru_list_def relink_def)
qed

lemma unlink_keeps:
  "bflags (unlink b t i) = bflags (t i)"
  "bdev (unlink b t i) = bdev (t i)"
  "blockno (unlink b t i) = blockno (t i)"
  "block (unlink b t i) = block (t i)"
  "refcnt (unlink b t i) = refcnt (t i)"
  "bdata (unlink b t i) = bdata (t i)"
  by (simp_all add: unlink_def Let_def)

lemma link_node_keeps:
  "bflags (link_node b t i) = bflags (t i)"
  "bdev (link_node b t i) = bdev (t i)"
  "blockno (link_node b t i) = blockno (t i)"
  "block (link_node b t i) = block (t i)"
  "refcnt (link_node b t i) = refcnt (t i)"
  "bdata (link_node b t i) = bdata (t i)"
  by (simp_all add: link_node_def Let_def)

lemma link_head_keeps:
  "bflags (link_head b t i) = bflags (t i)"
  "bdev (link_head b t i) = bdev (t i)"
  "blockno (link_head b t i) = blockno (t i)"
  "block (link_head b t i) = block (t i)"
  "refcnt (link_head b t i) = refcnt (t i)"
  "bdata (link_head b t i) = bdata (t i)"
  by (simp_all add: link_head_def Let_def)

lemma relink_keeps [simp]:
  "bflags (relink b t i) = bflags (t i)"
  "bdev (relink b t i) = bdev (t i)"
  "blockno (relink b t i) = blockno (t i)"
  "block (relink b t i) = block (t i)"
  "refcnt (relink b t i) = refcnt (t i)"
  "bdata (relink b t i) = bdata (t i)"
  by (simp_all add: relink_def unlink_keeps link_node_keeps link_head_keeps)

lemma scan_fwd_chain:
  "\<lbrakk>chain t a xs HEAD; HEAD \<notin> set xs; length xs < n\<rbrakk> \<Longrightarrow>
   scan_fwd t P n (bnext (t a)) = Inr (find (\<lambda>i. P (t i)) xs)"
proof (induction xs arbitrary: a n)
  case (Cons x xs)
  then show ?case by (cases n) auto
qed (auto simp: gr0_conv_Suc)

lemma scan_bwd_chain:
  "\<lbrakk>chain t HEAD xs z; HEAD \<notin> set xs; length xs < n\<rbrakk> \<Longrightarrow>
   scan_bwd t P n (bprev (t z)) = Inr (find (\<lambda>i. P (t i)) (rev xs))"
proof (induction xs arbitrary: z n rule: rev_induct)
  case (snoc x xs)
  then show ?case by (cases n) (auto simp: chain_append)
qed (auto simp: gr0_conv_Suc)

section \<open>Exact behaviour when no lock is contended\<close>

definition locks_free :: "'a bio_st_scheme \<Rightarrow> bool" where
  "locks_free s \<longleftrightarrow> LK_bcache \<notin> set (held s) \<and> LK_ptable \<notin> set (held s) \<and> (\<forall>c. LK_sleep c \<notin> set (held s))"

definition valid :: "buf \<Rightarrow> bool" where
  "valid b \<longleftrightarrow> bflags b AND B_VALID \<noteq> 0"

definition dirty :: "buf \<Rightarrow> bool" where
  "dirty b \<longleftrightarrow> bflags b AND B_DIRTY \<noteq> 0"

lemma upd_buf_frames [simp]:
  "held (upd_buf i f s) = held s" "ptable (upd_buf i f s) = ptable s" "myproc (upd_buf i f s) = myproc s"
  "memdisk (upd_buf i f s) = memdisk s" "disksize (upd_buf i f s) = disksize s"
  "dwrites (upd_buf i f s) = dwrites s" "bufs (upd_buf i f s) = (bufs s)(i := f (bufs s i))"
  "locks_free (upd_buf i f s) = locks_free s"
  by (simp_all add: upd_buf_def myproc_def locks_free_def)

lemma locks_freeD [simp]:
  assumes "locks_free s"
  shows "LK_bcache \<notin> set (held s)" "LK_ptable \<notin> set (held s)" "LK_sleep c \<notin> set (held s)"
  using assms by (simp_all add: locks_free_def)

lemma flag_facts [simp]:
  "(f OR B_VALID) AND B_VALID \<noteq> 0" "(f OR B_VALID) AND B_DIRTY = 0 \<longleftrightarrow> f AND B_DIRTY = 0"
  "(f OR B_DIRTY) AND B_VALID = 0 \<longleftrightarrow> f AND B_VALID = 0" "(f OR B_DIRTY) AND B_DIRTY \<noteq> 0"
  "(f AND NOT B_DIRTY) AND B_VALID = 0 \<longleftrightarrow> f AND B_VALID = 0" "(f AND NOT B_DIRTY) AND B_DIRTY = 0"
  "B_VALID AND B_VALID \<noteq> 0" "B_VALID AND B_DIRTY = 0"
  unfolding B_VALID_def B_DIRTY_def and_2_eq_0_iff and_4_eq_0_iff by (simp_all add: bit_simps)

lemma nothing_to_do:
  "f AND (B_VALID OR B_DIRTY) = B_VALID \<longleftrightarrow> f AND B_VALID \<noteq> 0 \<and> f AND B_DIRTY = 0" for f :: u32
proof
  assume "f AND (B_VALID OR B_DIRTY) = B_VALID"
  then have "bit (f AND (B_VALID OR B_DIRTY)) n = bit B_VALID n" for n by simp
  from this [of 1] this [of 2] show "f AND B_VALID \<noteq> 0 \<and> f AND B_DIRTY = 0"
    unfolding B_VALID_def B_DIRTY_def and_2_eq_0_iff and_4_eq_0_iff by (simp add: bit_simps)
next
  assume "f AND B_VALID \<noteq> 0 \<and> f AND B_DIRTY = 0"
  then have f: "bit f 1" "\<not> bit f 2" by (simp_all add: B_VALID_def B_DIRTY_def)
  show "f AND (B_VALID OR B_DIRTY) = B_VALID"
  proof (rule bit_word_eqI)
    fix n assume "n < LENGTH(32)"
    have "bit (2 :: u32) n \<longleftrightarrow> n = 1" "bit (4 :: u32) n \<longleftrightarrow> n = 2"
      using bit_exp_iff [where 'a = u32, of 1 n] bit_exp_iff [where 'a = u32, of 2 n]
      by (auto simp: possible_bit_def)
    then show "bit (f AND (B_VALID OR B_DIRTY)) n = bit B_VALID n"
      using f unfolding bit_and_iff bit_or_iff B_VALID_def B_DIRTY_def by auto
  qed
qed

lemma holdingsleep_buf:
  "locks_free s \<Longrightarrow> holdingsleep (Chan_buf i) (buf_lock i) s = Inr (sl_locked (block (bufs s i)) \<noteq> 0, s)"
  by (simp add: holdingsleep_def buf_lock_def Let_def)

lemma acquiresleep_buf:
  assumes "locks_free s" "sl_locked (block (bufs s i)) = 0" "myproc s = Some p"
  shows "acquiresleep (Chan_buf i) (buf_lock i) (upd_buf_lock i) s =
    Inr (upd_buf i (\<lambda>b. b\<lparr>block := (block b)\<lparr>sl_locked := 1, sl_pid := pid (ptable s p)\<rparr>\<rparr>) s)"
  using assms
  by (simp add: acquiresleep_def buf_lock_def upd_buf_lock_def upd_buf_def Let_def myproc_def)

lemma releasesleep_buf:
  assumes "locks_free s"
  shows "releasesleep (Chan_buf i) (upd_buf_lock i) s =
    Inr (wakeup1 (Chan_buf i) (upd_buf i (\<lambda>b. b\<lparr>block := (block b)\<lparr>sl_locked := 0, sl_pid := 0\<rparr>\<rparr>) s))"
  using assms
  by (simp add: releasesleep_def upd_buf_lock_def upd_buf_def Let_def wakeup_Inr wakeup1_def)

lemma iderw_read:
  assumes "locks_free s" "sl_locked (block (bufs s i)) \<noteq> 0" "bflags (bufs s i) = 0"
    "bdev (bufs s i) = 1" "blockno (bufs s i) < disksize s"
  shows "iderw i s = Inr (upd_buf i (\<lambda>b. b\<lparr>bdata := memdisk s (blockno b), bflags := B_VALID\<rparr>) s)"
  using assms
  by (simp add: iderw_def holdingsleep_buf Let_def nothing_to_do not_le upd_buf_def B_VALID_def)

lemma iderw_write:
  assumes "locks_free s" "sl_locked (block (bufs s i)) \<noteq> 0" "dirty (bufs s i)"
    "bdev (bufs s i) = 1" "blockno (bufs s i) < disksize s"
  shows "iderw i s = Inr ((upd_buf i (\<lambda>b. b\<lparr>bflags := (bflags b AND NOT B_DIRTY) OR B_VALID\<rparr>) s)
    \<lparr>memdisk := (memdisk s)(blockno (bufs s i) := bdata (bufs s i)),
     dwrites := dwrites s @ [(blockno (bufs s i), bdata (bufs s i))]\<rparr>)"
  using assms
  by (simp add: iderw_def dirty_def holdingsleep_buf Let_def nothing_to_do not_le upd_buf_def)

lemma bread_hit:
  assumes "lru_list (bufs s) xs" "locks_free s" "myproc s = Some p"
    "find (\<lambda>i. bdev (bufs s i) = dev \<and> blockno (bufs s i) = b) xs = Some i"
    "sl_locked (block (bufs s i)) = 0" "valid (bufs s i)"
  shows "bread dev b s = Inr (i, upd_buf i (\<lambda>b. b\<lparr>refcnt := refcnt b + 1,
    block := (block b)\<lparr>sl_locked := 1, sl_pid := pid (ptable s p)\<rparr>\<rparr>) s)"
proof -
  have c: "chain (bufs s) HEAD xs HEAD" "HEAD \<notin> set xs" "length xs < Suc NBUF"
    using assms(1) lru_length [OF assms(1)] by (auto simp: lru_list_def)
  let ?s = "upd_buf i (\<lambda>b. b\<lparr>refcnt := refcnt b + 1\<rparr>) s"
  have "bget dev b s =
      bind_r (acquiresleep (Chan_buf i) (buf_lock i) (upd_buf_lock i) ?s) (\<lambda>s. Inr (i, s))"
    using assms(2,4) scan_fwd_chain [OF c]
    by (simp add: bget_def upd_buf_def Let_def del: scan_fwd.simps scan_bwd.simps)
  also have "acquiresleep (Chan_buf i) (buf_lock i) (upd_buf_lock i) ?s =
      Inr (upd_buf i (\<lambda>b. b\<lparr>block := (block b)\<lparr>sl_locked := 1, sl_pid := pid (ptable ?s p)\<rparr>\<rparr>) ?s)"
    using assms by (intro acquiresleep_buf) simp_all
  finally have "bget dev b s = Inr (i, upd_buf i (\<lambda>b. b\<lparr>refcnt := refcnt b + 1,
    block := (block b)\<lparr>sl_locked := 1, sl_pid := pid (ptable s p)\<rparr>\<rparr>) s)"
    by (simp add: upd_buf_def)
  then show ?thesis using assms(6) by (simp add: bread_def valid_def)
qed

lemma bread_miss:
  assumes "lru_list (bufs s) xs" "locks_free s" "myproc s = Some p"
    "find (\<lambda>i. bdev (bufs s i) = 1 \<and> blockno (bufs s i) = b) xs = None"
    "find (\<lambda>i. refcnt (bufs s i) = 0 \<and> bflags (bufs s i) AND B_DIRTY = 0) (rev xs) = Some i"
    "sl_locked (block (bufs s i)) = 0" "b < disksize s"
  shows "bread 1 b s = Inr (i, upd_buf i (\<lambda>c. c\<lparr>bdev := 1, blockno := b, refcnt := 1,
    block := (block c)\<lparr>sl_locked := 1, sl_pid := pid (ptable s p)\<rparr>,
    bdata := memdisk s b, bflags := B_VALID\<rparr>) s)"
proof -
  have c: "chain (bufs s) HEAD xs HEAD" "HEAD \<notin> set xs" "length xs < Suc NBUF"
    using assms(1) lru_length [OF assms(1)] by (auto simp: lru_list_def)
  let ?s = "upd_buf i (\<lambda>c. c\<lparr>bdev := 1, blockno := b, bflags := 0, refcnt := 1\<rparr>) s"
  have "bget 1 b s =
      bind_r (acquiresleep (Chan_buf i) (buf_lock i) (upd_buf_lock i) ?s) (\<lambda>s. Inr (i, s))"
    using assms(2,4,5) scan_fwd_chain [OF c] scan_bwd_chain [OF c]
    by (simp add: bget_def upd_buf_def Let_def del: scan_fwd.simps scan_bwd.simps)
  also have "acquiresleep (Chan_buf i) (buf_lock i) (upd_buf_lock i) ?s =
      Inr (upd_buf i (\<lambda>b. b\<lparr>block := (block b)\<lparr>sl_locked := 1, sl_pid := pid (ptable ?s p)\<rparr>\<rparr>) ?s)"
    using assms by (intro acquiresleep_buf) simp_all
  finally have g: "bget 1 b s = Inr (i, upd_buf i (\<lambda>c. c\<lparr>bdev := 1, blockno := b, bflags := 0, refcnt := 1,
    block := (block c)\<lparr>sl_locked := 1, sl_pid := pid (ptable s p)\<rparr>\<rparr>) s)" (is "_ = Inr (i, ?t)")
    by (simp add: upd_buf_def)
  have "iderw i ?t = Inr (upd_buf i (\<lambda>b. b\<lparr>bdata := memdisk ?t (blockno b), bflags := B_VALID\<rparr>) ?t)"
    using assms(2,7) by (intro iderw_read) simp_all
  then show ?thesis by (simp add: bread_def g) (simp add: upd_buf_def)
qed

end
