(* ===== verification/Buf_Cache.thy ===== *)
theory Buf_Cache
  imports Bio
begin

text \<open>
  Correctness of the buffer cache. \<open>view s b\<close> is the contents of block \<open>b\<close> as the kernel sees them,
  through the cache; \<open>bcoh H s\<close> is the invariant of the cache while the running process holds the
  buffers in \<open>H\<close>. The locale \<open>block_cache\<close> is the contract the log and the file system rely on, and
  its interpretation \<open>bc\<close> shows that \<open>bread\<close>, \<open>bwrite\<close> and \<open>brelse\<close> keep it.
\<close>

section \<open>Coherence of the cache with the disk\<close>

text \<open>
  \<open>H\<close> is the set of buffers the running process holds. \<open>bcoh H s\<close>: the list links every buffer, a
  buffer is referenced and locked exactly when it is in \<open>H\<close>, no block is cached twice, every valid
  buffer belongs to a block of the disk, and a valid buffer that is neither held nor dirty agrees
  with the disk.
\<close>

definition buf_ok :: "(u32 \<Rightarrow> u8 list) \<Rightarrow> u32 \<Rightarrow> bool \<Rightarrow> buf \<Rightarrow> bool" where
  "buf_ok m sz h b \<longleftrightarrow>
     refcnt b = (if h then 1 else 0) \<and> sl_locked (block b) = (if h then 1 else 0) \<and>
     (valid b \<longleftrightarrow> bdev b = 1) \<and> (h \<or> dirty b \<longrightarrow> valid b) \<and>
     (valid b \<longrightarrow> blockno b < sz \<and> length (bdata b) = BSIZE) \<and>
     (valid b \<and> \<not> h \<and> \<not> dirty b \<longrightarrow> bdata b = m (blockno b))"

definition no_alias :: "(nat \<Rightarrow> buf) \<Rightarrow> bool" where
  "no_alias t \<longleftrightarrow> (\<forall>i<NBUF. \<forall>j<NBUF. bdev (t i) = 1 \<longrightarrow> bdev (t j) = 1 \<longrightarrow> blockno (t i) = blockno (t j) \<longrightarrow> i = j)"

definition bcoh :: "nat set \<Rightarrow> 'a bio_st_scheme \<Rightarrow> bool" where
  "bcoh H s \<longleftrightarrow> (\<exists>xs. lru_list (bufs s) xs) \<and> locks_free s \<and> myproc s \<noteq> None \<and> H \<subseteq> {..<NBUF} \<and>
     no_alias (bufs s) \<and> (\<forall>b. length (memdisk s b) = BSIZE) \<and>
     (\<forall>i<NBUF. buf_ok (memdisk s) (disksize s) (i \<in> H) (bufs s i))"

definition cached :: "'a bio_st_scheme \<Rightarrow> u32 \<Rightarrow> nat option" where
  "cached s b = find (\<lambda>i. bdev (bufs s i) = 1 \<and> blockno (bufs s i) = b) [0..<NBUF]"

definition view :: "'a bio_st_scheme \<Rightarrow> u32 \<Rightarrow> u8 list" where
  "view s b = (case cached s b of Some i \<Rightarrow> bdata (bufs s i) | None \<Rightarrow> memdisk s b)"

definition hblocks :: "nat set \<Rightarrow> 'a bio_st_scheme \<Rightarrow> u32 set" where
  "hblocks H s = (\<lambda>i. blockno (bufs s i)) ` H"

definition dblocks :: "'a bio_st_scheme \<Rightarrow> u32 set" where
  "dblocks s = {blockno (bufs s i) |i. i < NBUF \<and> dirty (bufs s i)}"

definition room :: "nat set \<Rightarrow> 'a bio_st_scheme \<Rightarrow> bool" where
  "room H s \<longleftrightarrow> (\<exists>i<NBUF. i \<notin> H \<and> \<not> dirty (bufs s i))"

lemma bcohD:
  assumes "bcoh H s"
  shows "locks_free s" "H \<subseteq> {..<NBUF}" "no_alias (bufs s)" "length (memdisk s b) = BSIZE"
    "i < NBUF \<Longrightarrow> buf_ok (memdisk s) (disksize s) (i \<in> H) (bufs s i)"
  using assms by (auto simp: bcoh_def)

lemma cached_Some:
  assumes "no_alias (bufs s)"
  shows "cached s b = Some i \<longleftrightarrow> i < NBUF \<and> bdev (bufs s i) = 1 \<and> blockno (bufs s i) = b"
proof -
  have "i < NBUF \<and> bdev (bufs s i) = 1 \<and> blockno (bufs s i) = b" if "cached s b = Some i" for i
    using that by (auto simp: cached_def find_Some_iff)
  moreover have "\<exists>j. cached s b = Some j" if "i < NBUF \<and> bdev (bufs s i) = 1 \<and> blockno (bufs s i) = b"
    using that by (cases "cached s b") (auto simp: cached_def find_None_iff)
  ultimately show ?thesis using assms unfolding no_alias_def by metis
qed

lemma cached_None: "cached s b = None \<longleftrightarrow> (\<forall>i<NBUF. bdev (bufs s i) = 1 \<longrightarrow> blockno (bufs s i) \<noteq> b)"
  by (auto simp: cached_def find_None_iff)

lemma view_cached:
  "\<lbrakk>no_alias (bufs s); i < NBUF; bdev (bufs s i) = 1\<rbrakk> \<Longrightarrow> view s (blockno (bufs s i)) = bdata (bufs s i)"
  using cached_Some [of s "blockno (bufs s i)" i] by (simp add: view_def)

lemma view_uncached: "cached s b = None \<Longrightarrow> view s b = memdisk s b"
  by (simp add: view_def)

text \<open>A cached block that is clean and not held is indistinguishable from an uncached one.\<close>

lemma view_clean:
  assumes "bcoh H s" "b \<notin> hblocks H s" "b \<notin> dblocks s"
  shows "view s b = memdisk s b"
proof (cases "cached s b")
  case (Some i)
  then have i: "i < NBUF" "bdev (bufs s i) = 1" "blockno (bufs s i) = b"
    using cached_Some bcohD(3) [OF assms(1)] by blast+
  then have "i \<notin> H" "\<not> dirty (bufs s i)" using assms by (auto simp: hblocks_def dblocks_def)
  then show ?thesis using bcohD(5) [OF assms(1) i(1)] i Some by (simp add: buf_ok_def view_def)
qed (rule view_uncached)

lemma view_length: "bcoh H s \<Longrightarrow> length (view s b) = BSIZE"
  using cached_Some [OF bcohD(3), of H s b] bcohD(5) [of H s]
  by (auto simp: view_def buf_ok_def bcohD(4) split: option.split)

lemma room_card:
  assumes "finite H" "card H + card (dblocks s) < NBUF" "no_alias (bufs s)"
    "\<And>i. i < NBUF \<Longrightarrow> dirty (bufs s i) \<Longrightarrow> bdev (bufs s i) = 1"
  shows "room H s"
proof (rule ccontr)
  assume "\<not> room H s"
  then have sub: "{..<NBUF} \<subseteq> H \<union> {i. i < NBUF \<and> dirty (bufs s i)}" by (auto simp: room_def)
  have "inj_on (\<lambda>i. blockno (bufs s i)) {i. i < NBUF \<and> dirty (bufs s i)}"
    using assms(3,4) unfolding no_alias_def inj_on_def by blast
  moreover have "dblocks s = (\<lambda>i. blockno (bufs s i)) ` {i. i < NBUF \<and> dirty (bufs s i)}"
    by (auto simp: dblocks_def)
  ultimately have "card (dblocks s) = card {i. i < NBUF \<and> dirty (bufs s i)}" by (simp add: card_image)
  moreover have "card {..<NBUF} \<le> card (H \<union> {i. i < NBUF \<and> dirty (bufs s i)})"
    by (rule card_mono [OF _ sub]) (simp add: assms(1))
  moreover have "\<dots> \<le> card H + card {i. i < NBUF \<and> dirty (bufs s i)}" by (rule card_Un_le)
  ultimately show False using assms(2) by simp
qed

lemma no_aliasD:
  "\<lbrakk>no_alias t; i < NBUF; j < NBUF; bdev (t i) = 1; bdev (t j) = 1; blockno (t i) = blockno (t j)\<rbrakk> \<Longrightarrow> i = j"
  by (simp add: no_alias_def)

lemma B_flags_nz [simp]: "B_VALID \<noteq> 0" "B_DIRTY \<noteq> 0"
  by (simp_all add: B_VALID_def B_DIRTY_def)

text \<open>Changing one buffer's entry: what stays of the invariant and of the view.\<close>

lemma bcoh_upd:
  assumes "bcoh H s" "i < NBUF" "bnext b = bnext (bufs s i)" "bprev b = bprev (bufs s i)"
    "buf_ok (memdisk s) (disksize s) h b" "H' = (if h then insert i H else H - {i})"
    "\<And>j. j < NBUF \<Longrightarrow> bdev b = 1 \<Longrightarrow> bdev (bufs s j) = 1 \<Longrightarrow> blockno (bufs s j) = blockno b \<Longrightarrow> j = i"
  shows "bcoh H' (s\<lparr>bufs := (bufs s)(i := b)\<rparr>)"
proof -
  obtain xs where xs: "lru_list (bufs s) xs" using assms(1) by (auto simp: bcoh_def)
  have "lru_list ((bufs s)(i := b)) xs" 
    using xs assms(3,4) lru_cong [of "(bufs s)(i := b)" "bufs s" xs] by simp
  moreover have "no_alias ((bufs s)(i := b))"
    unfolding no_alias_def
  proof (intro allI impI)
    fix j k assume "j < NBUF" "k < NBUF" "bdev (((bufs s)(i := b)) j) = 1"
      "bdev (((bufs s)(i := b)) k) = 1" "blockno (((bufs s)(i := b)) j) = blockno (((bufs s)(i := b)) k)"
    then show "j = k"
      using no_aliasD [OF bcohD(3) [OF assms(1)], of j k] assms(7) [of j] assms(7) [of k]
      by (metis fun_upd_apply)
  qed
  moreover have "buf_ok (memdisk s) (disksize s) (j \<in> H') (((bufs s)(i := b)) j)" if "j < NBUF" for j
    using bcohD(5) [OF assms(1) that] assms(5,6) by (cases h) simp_all
  moreover have "H' \<subseteq> {..<NBUF}" using bcohD(2) [OF assms(1)] assms(2,6) by auto
  ultimately show ?thesis using assms(1) unfolding bcoh_def locks_free_def myproc_def by auto
qed

lemma view_eqI:
  assumes "\<And>i. i < NBUF \<Longrightarrow> bdev (bufs s i) = 1 \<Longrightarrow> blockno (bufs s i) = b \<Longrightarrow> bdata (bufs s i) = d"
    "(\<And>i. i < NBUF \<Longrightarrow> bdev (bufs s i) = 1 \<Longrightarrow> blockno (bufs s i) \<noteq> b) \<Longrightarrow> memdisk s b = d"
  shows "view s b = d"
proof (cases "cached s b")
  case (Some i)
  then have "i < NBUF" "bdev (bufs s i) = 1" "blockno (bufs s i) = b"
    by (auto simp: cached_def find_Some_iff)
  then show ?thesis using assms(1) Some by (simp add: view_def)
next
  case None
  then have "memdisk s b = d" by (intro assms(2)) (simp add: cached_None)
  then show ?thesis using None by (simp add: view_def)
qed

lemma view_same:
  assumes "no_alias (bufs s)" "memdisk s' = memdisk s"
    "\<And>i. i < NBUF \<Longrightarrow> bdev (bufs s' i) = bdev (bufs s i) \<and> blockno (bufs s' i) = blockno (bufs s i) \<and>
       bdata (bufs s' i) = bdata (bufs s i)"
  shows "view s' b = view s b"
proof (rule view_eqI)
  show "memdisk s' b = view s b" if "\<And>i. i < NBUF \<Longrightarrow> bdev (bufs s' i) = 1 \<Longrightarrow> blockno (bufs s' i) \<noteq> b"
    using that assms(2,3) by (subst view_uncached) (auto simp: cached_None)
qed (use assms view_cached [OF assms(1)] in auto)

lemma dblocks_same:
  "(\<And>i. i < NBUF \<Longrightarrow> blockno (bufs s' i) = blockno (bufs s i) \<and> dirty (bufs s' i) = dirty (bufs s i)) \<Longrightarrow>
   dblocks s' = dblocks s"
  unfolding dblocks_def by (rule Collect_cong) (metis (no_types, lifting))

lemma dblocks_memdisk_irrel [simp]: "dblocks (s\<lparr>memdisk := m\<rparr>) = dblocks s" "dblocks (s\<lparr>dwrites := w\<rparr>) = dblocks s"
  by (simp_all add: dblocks_def)

lemma dirty_block_iff:
  assumes "bcoh H s" "i < NBUF" "bdev (bufs s i) = 1"
  shows "blockno (bufs s i) \<in> dblocks s \<longleftrightarrow> dirty (bufs s i)"
proof
  assume "blockno (bufs s i) \<in> dblocks s"
  then obtain j where j: "j < NBUF" "dirty (bufs s j)" "blockno (bufs s j) = blockno (bufs s i)"
    unfolding dblocks_def by force
  have "bdev (bufs s j) = 1" using bcohD(5) [OF assms(1) j(1)] j(2) by (auto simp: buf_ok_def)
  then have "j = i" using j bcohD(3) [OF assms(1)] assms(2,3) unfolding no_alias_def by blast
  then show "dirty (bufs s i)" using j by simp
qed (use assms(2) in \<open>auto simp: dblocks_def\<close>)

lemma bread_cached:
  assumes co: "bcoh H s" and hit: "cached s b = Some i" and iH: "i \<notin> H"
  obtains t where "bread 1 b s = Inr (i, s\<lparr>bufs := t\<rparr>)"
    "bcoh (insert i H) (s\<lparr>bufs := t\<rparr>)" "blockno (t i) = b" "bdata (t i) = view s b"
    "\<And>c. view (s\<lparr>bufs := t\<rparr>) c = view s c" "dblocks (s\<lparr>bufs := t\<rparr>) = dblocks s"
    "\<And>j. j \<noteq> i \<Longrightarrow> t j = bufs s j" "dirty (t i) \<longleftrightarrow> b \<in> dblocks s"
proof -
  obtain xs p where xs: "lru_list (bufs s) xs" and p: "myproc s = Some p" and lf: "locks_free s"
    using co by (auto simp: bcoh_def)
  have na: "no_alias (bufs s)" using co by (rule bcohD)
  have i: "i < NBUF" "bdev (bufs s i) = 1" "blockno (bufs s i) = b"
    using hit cached_Some na by blast+
  have ok: "buf_ok (memdisk s) (disksize s) False (bufs s i)" using bcohD(5) [OF co i(1)] iH by simp
  have "i \<in> set xs" "bdev (bufs s i) = 1 \<and> blockno (bufs s i) = b"
    using xs i by (simp_all add: lru_list_def)
  then obtain k where k: "find (\<lambda>i. bdev (bufs s i) = 1 \<and> blockno (bufs s i) = b) xs = Some k"
    by (rule find_ex)
  then have "k \<in> set xs" "bdev (bufs s k) = 1" "blockno (bufs s k) = b" using find_SomeD [OF k] by simp_all
  then have ki: "k = i" using i xs by (intro no_aliasD [OF na]) (auto simp: lru_list_def)
  define c where "c = (bufs s i)\<lparr>refcnt := refcnt (bufs s i) + 1,
    block := (block (bufs s i))\<lparr>sl_locked := 1, sl_pid := pid (ptable s p)\<rparr>\<rparr>"
  let ?s = "s\<lparr>bufs := (bufs s)(i := c)\<rparr>"
  show ?thesis
  proof (rule that [of "(bufs s)(i := c)"])
    show "bread 1 b s = Inr (i, ?s)"
      using bread_hit [OF xs lf p k [unfolded ki]] ok by (simp add: buf_ok_def upd_buf_def c_def i(2))
    show "bcoh (insert i H) ?s"
      using ok i no_aliasD [OF na] by (intro bcoh_upd [OF co i(1), where h = True])
        (auto simp: c_def buf_ok_def valid_def dirty_def)
    show "view ?s d = view s d" for d by (rule view_same [OF na]) (auto simp: c_def)
    show "dblocks ?s = dblocks s" by (rule dblocks_same) (auto simp: c_def dirty_def)
    show "dirty (((bufs s)(i := c)) i) \<longleftrightarrow> b \<in> dblocks s"
      using dirty_block_iff [OF co i(1,2)] i(3) by (simp add: c_def dirty_def)
    show "blockno (((bufs s)(i := c)) i) = b" "bdata (((bufs s)(i := c)) i) = view s b"
      using view_cached [OF na i(1,2)] i(3) by (simp_all add: c_def)
  qed simp
qed

lemma bread_uncached:
  assumes co: "bcoh H s" and miss: "cached s b = None" and b: "b < disksize s" and rm: "room H s"
  obtains i t where "bread 1 b s = Inr (i, s\<lparr>bufs := t\<rparr>)" "i < NBUF" "i \<notin> H"
    "bcoh (insert i H) (s\<lparr>bufs := t\<rparr>)" "blockno (t i) = b" "bdata (t i) = view s b"
    "\<And>c. view (s\<lparr>bufs := t\<rparr>) c = view s c" "dblocks (s\<lparr>bufs := t\<rparr>) = dblocks s"
    "\<And>j. j \<noteq> i \<Longrightarrow> t j = bufs s j" "dirty (t i) \<longleftrightarrow> b \<in> dblocks s"
proof -
  obtain xs p where xs: "lru_list (bufs s) xs" and p: "myproc s = Some p" and lf: "locks_free s"
    using co by (auto simp: bcoh_def)
  have na: "no_alias (bufs s)" using co by (rule bcohD)
  have set_xs: "set xs = {..<NBUF}" using xs by (simp add: lru_list_def)
  have nf: "find (\<lambda>i. bdev (bufs s i) = 1 \<and> blockno (bufs s i) = b) xs = None"
    using miss set_xs by (auto simp: find_None_iff cached_None)
  let ?P = "\<lambda>i. refcnt (bufs s i) = 0 \<and> bflags (bufs s i) AND B_DIRTY = 0"
  have P: "?P i \<longleftrightarrow> i \<notin> H \<and> \<not> dirty (bufs s i)" if "i < NBUF" for i
    using bcohD(5) [OF co that] by (simp add: buf_ok_def dirty_def)
  obtain k where "k < NBUF" "k \<notin> H" "\<not> dirty (bufs s k)" using rm by (auto simp: room_def)
  then have "k \<in> set (rev xs)" "?P k" using P set_xs by simp_all
  then obtain i where f: "find ?P (rev xs) = Some i" by (rule find_ex)
  then have "i \<in> set xs" "?P i" using find_SomeD [OF f] by simp_all
  then have i: "i < NBUF" "i \<notin> H" "\<not> dirty (bufs s i)" using set_xs P by auto
  have ok: "buf_ok (memdisk s) (disksize s) False (bufs s i)" using bcohD(5) [OF co i(1)] i(2) by simp
  define c where "c = (bufs s i)\<lparr>bdev := 1, blockno := b, refcnt := 1,
    block := (block (bufs s i))\<lparr>sl_locked := 1, sl_pid := pid (ptable s p)\<rparr>,
    bdata := memdisk s b, bflags := B_VALID\<rparr>"
  have c: "bdev c = 1" "blockno c = b" "bdata c = memdisk s b" "valid c" "\<not> dirty c"
    by (simp_all add: c_def valid_def dirty_def)
  let ?s = "s\<lparr>bufs := (bufs s)(i := c)\<rparr>"
  have nodirty: "b \<notin> dblocks s"
    using miss bcohD(5) [OF co] by (auto simp: dblocks_def cached_None buf_ok_def)
  show ?thesis
  proof (rule that [of i "(bufs s)(i := c)"])
    show "bread 1 b s = Inr (i, ?s)"
      using bread_miss [OF xs lf p nf f] ok b by (simp add: buf_ok_def upd_buf_def c_def)
    show "bcoh (insert i H) ?s"
      using ok i miss b bcohD(4) [OF co] by (intro bcoh_upd [OF co i(1), where h = True])
        (auto simp: c_def buf_ok_def cached_None valid_def dirty_def)
    show "view ?s d = view s d" for d
    proof (rule view_eqI)
      fix j assume j: "j < NBUF" "bdev (bufs ?s j) = 1" "blockno (bufs ?s j) = d"
      then show "bdata (bufs ?s j) = view s d"
        using c view_cached [OF na, of j] view_uncached [OF miss] by (cases "j = i") auto
    next
      assume n: "\<And>j. j < NBUF \<Longrightarrow> bdev (bufs ?s j) = 1 \<Longrightarrow> blockno (bufs ?s j) \<noteq> d"
      show "memdisk ?s d = view s d"
      proof (cases "bdev (bufs s i) = 1 \<and> blockno (bufs s i) = d")
        case True
        then show ?thesis using ok i view_cached [OF na i(1)] by (auto simp: buf_ok_def)
      next
        case False
        then have "blockno (bufs s j) \<noteq> d" if "j < NBUF" "bdev (bufs s j) = 1" for j
          using n [of j] that by (cases "j = i") auto
        then have "cached s d = None" by (simp add: cached_None)
        then show ?thesis by (simp add: view_uncached)
      qed
    qed
    show "dblocks ?s = dblocks s" using i(3) c(5) unfolding dblocks_def by (intro Collect_cong) auto
  qed (simp_all add: i c nodirty view_uncached [OF miss])
qed

lemma bread_ok:
  assumes co: "bcoh H s" and b: "b < disksize s" "b \<notin> hblocks H s" and rm: "room H s \<or> cached s b \<noteq> None"
  obtains i t where "bread 1 b s = Inr (i, s\<lparr>bufs := t\<rparr>)" "i < NBUF" "i \<notin> H"
    "bcoh (insert i H) (s\<lparr>bufs := t\<rparr>)" "blockno (t i) = b" "bdata (t i) = view s b"
    "\<And>c. view (s\<lparr>bufs := t\<rparr>) c = view s c" "dblocks (s\<lparr>bufs := t\<rparr>) = dblocks s"
    "\<And>j. j \<noteq> i \<Longrightarrow> t j = bufs s j" "dirty (t i) \<longleftrightarrow> b \<in> dblocks s"
proof (cases "cached s b")
  case (Some i)
  then have i: "i < NBUF" "blockno (bufs s i) = b" using cached_Some bcohD(3) [OF co] by blast+
  then have "i \<notin> H" using b(2) by (auto simp: hblocks_def)
  then show ?thesis using bread_cached [OF co Some] i(1) that by metis
next
  case None
  then show ?thesis using bread_uncached [OF co None b(1)] rm that by metis
qed

text \<open>The holder of a buffer changes its contents; the block's view changes with it.\<close>

lemma upd_data_ok:
  assumes co: "bcoh H s" and i: "i \<in> H" and len: "length d = BSIZE"
  defines "s' \<equiv> upd_buf i (\<lambda>b. b\<lparr>bdata := d\<rparr>) s"
  shows "bcoh H s'" "view s' = (view s)(blockno (bufs s i) := d)" "dblocks s' = dblocks s"
proof -
  have iN: "i < NBUF" using bcohD(2) [OF co] i by auto
  have ok: "buf_ok (memdisk s) (disksize s) True (bufs s i)" using bcohD(5) [OF co iN] i by simp
  have na: "no_alias (bufs s)" using co by (rule bcohD)
  show co': "bcoh H s'" unfolding s'_def upd_buf_def
    using ok i len no_aliasD [OF na _ iN]
    by (intro bcoh_upd [OF co iN, where h = True]) (auto simp: buf_ok_def valid_def dirty_def)
  show "view s' = (view s)(blockno (bufs s i) := d)"
  proof (rule ext, rule view_eqI)
    fix c j assume "j < NBUF" "bdev (bufs s' j) = 1" "blockno (bufs s' j) = c"
    then show "bdata (bufs s' j) = ((view s)(blockno (bufs s i) := d)) c"
      using ok iN view_cached [OF na, of j] no_aliasD [OF na, of j i]
      unfolding s'_def buf_ok_def by (cases "j = i") auto
  next
    fix c assume n: "\<And>j. j < NBUF \<Longrightarrow> bdev (bufs s' j) = 1 \<Longrightarrow> blockno (bufs s' j) \<noteq> c"
    have "blockno (bufs s j) \<noteq> c" if "j < NBUF" "bdev (bufs s j) = 1" for j
      using n [of j] that by (cases "j = i") (simp_all add: s'_def)
    then have "cached s c = None" "c \<noteq> blockno (bufs s i)" using ok iN by (auto simp: cached_None buf_ok_def)
    then show "memdisk s' c = ((view s)(blockno (bufs s i) := d)) c"
      by (simp add: view_uncached s'_def)
  qed
  show "dblocks s' = dblocks s" unfolding s'_def by (rule dblocks_same) (simp add: dirty_def)
qed

lemma bwrite_eq:
  assumes co: "bcoh H s" and i: "i \<in> H"
  shows "bwrite i s = Inr ((upd_buf i (\<lambda>b. b\<lparr>bflags := ((bflags b OR B_DIRTY) AND NOT B_DIRTY) OR B_VALID\<rparr>) s)
    \<lparr>memdisk := (memdisk s)(blockno (bufs s i) := bdata (bufs s i)),
     dwrites := dwrites s @ [(blockno (bufs s i), bdata (bufs s i))]\<rparr>)"
proof -
  have iN: "i < NBUF" using bcohD(2) [OF co] i by auto
  have ok: "buf_ok (memdisk s) (disksize s) True (bufs s i)" using bcohD(5) [OF co iN] i by simp
  have lf: "locks_free s" using co by (rule bcohD)
  let ?s = "upd_buf i (\<lambda>c. c\<lparr>bflags := bflags c OR B_DIRTY\<rparr>) s"
  have "iderw i ?s = Inr ((upd_buf i (\<lambda>b. b\<lparr>bflags := (bflags b AND NOT B_DIRTY) OR B_VALID\<rparr>) ?s)
    \<lparr>memdisk := (memdisk ?s)(blockno (bufs ?s i) := bdata (bufs ?s i)),
     dwrites := dwrites ?s @ [(blockno (bufs ?s i), bdata (bufs ?s i))]\<rparr>)"
    using ok lf by (intro iderw_write) (auto simp: buf_ok_def dirty_def)
  then show ?thesis using ok lf by (simp add: bwrite_def holdingsleep_buf buf_ok_def upd_buf_def)
qed

lemma bwrite_ok:
  assumes co: "bcoh H s" and i: "i \<in> H"
  obtains s' t where "bwrite i s = Inr s'"
    "s' = s\<lparr>bufs := t, memdisk := (memdisk s)(blockno (bufs s i) := bdata (bufs s i)),
       dwrites := dwrites s @ [(blockno (bufs s i), bdata (bufs s i))]\<rparr>"
    "bcoh H s'" "\<And>c. view s' c = view s c" "dblocks s' = dblocks s - {blockno (bufs s i)}"
    "\<And>j. bdata (t j) = bdata (bufs s j) \<and> blockno (t j) = blockno (bufs s j)"
proof -
  have iN: "i < NBUF" using bcohD(2) [OF co] i by auto
  have ok: "buf_ok (memdisk s) (disksize s) True (bufs s i)" using bcohD(5) [OF co iN] i by simp
  have na: "no_alias (bufs s)" using co by (rule bcohD)
  let ?b = "blockno (bufs s i)" and ?d = "bdata (bufs s i)"
  define c where "c = (bufs s i)\<lparr>bflags := ((bflags (bufs s i) OR B_DIRTY) AND NOT B_DIRTY) OR B_VALID\<rparr>"
  have c: "valid c" "\<not> dirty c" "blockno c = ?b" "bdata c = ?d" "bdev c = bdev (bufs s i)"
    by (simp_all add: c_def valid_def dirty_def)
  let ?t = "(bufs s)(i := c)"
  let ?s' = "s\<lparr>bufs := ?t, memdisk := (memdisk s)(?b := ?d), dwrites := dwrites s @ [(?b, ?d)]\<rparr>"
  have co1: "bcoh H (s\<lparr>bufs := ?t\<rparr>)"
    using ok i no_aliasD [OF na _ iN]
    by (intro bcoh_upd [OF co iN, where h = True]) (auto simp: buf_ok_def valid_def dirty_def c_def)
  show ?thesis
  proof (rule that [of ?s' ?t])
    show "bwrite i s = Inr ?s'" using bwrite_eq [OF co i] by (simp add: upd_buf_def c_def)
    have "buf_ok ((memdisk s)(?b := ?d)) (disksize s) (j \<in> H) (?t j)" if "j < NBUF" for j
      using bcohD(5) [OF co1 that] c no_aliasD [OF na that iN] ok
      by (cases "j = i") (auto simp: buf_ok_def)
    then show "bcoh H ?s'" using co1 ok unfolding bcoh_def locks_free_def myproc_def by (auto simp: buf_ok_def)
    show "view ?s' d = view s d" for d
    proof (rule view_eqI)
      fix j assume "j < NBUF" "bdev (bufs ?s' j) = 1" "blockno (bufs ?s' j) = d"
      then show "bdata (bufs ?s' j) = view s d" using c view_cached [OF na, of j] by (cases "j = i") auto
    next
      assume n: "\<And>j. j < NBUF \<Longrightarrow> bdev (bufs ?s' j) = 1 \<Longrightarrow> blockno (bufs ?s' j) \<noteq> d"
      have "blockno (bufs s j) \<noteq> d" if "j < NBUF" "bdev (bufs s j) = 1" for j
        using n [of j] that c by (cases "j = i") auto
      then have "cached s d = None" "d \<noteq> ?b" using ok iN by (auto simp: cached_None buf_ok_def)
      then show "memdisk ?s' d = view s d" by (simp add: view_uncached)
    qed
    show "dblocks ?s' = dblocks s - {?b}"
    proof -
      have "blockno (bufs s j) \<noteq> ?b" if "j < NBUF" "j \<noteq> i" "dirty (bufs s j)" for j
        using bcohD(5) [OF co that(1)] that ok no_aliasD [OF na that(1) iN] by (auto simp: buf_ok_def)
      then have "x \<in> dblocks ?s' \<longleftrightarrow> x \<in> dblocks s - {?b}" for x
        using c(2) unfolding dblocks_def by (auto split: if_splits) (metis fun_upd_apply)
      then show ?thesis by blast
    qed
  qed (auto simp: c_def)
qed

lemma brelse_eq:
  assumes co: "bcoh H s" and i: "i \<in> H"
  shows "brelse i s = Inr ((wakeup1 (Chan_buf i) s)\<lparr>bufs := relink i ((bufs s)(i := (bufs s i)\<lparr>
    block := (block (bufs s i))\<lparr>sl_locked := 0, sl_pid := 0\<rparr>, refcnt := 0\<rparr>))\<rparr>)"
proof -
  have iN: "i < NBUF" using bcohD(2) [OF co] i by auto
  have ok: "buf_ok (memdisk s) (disksize s) True (bufs s i)" using bcohD(5) [OF co iN] i by simp
  have lf: "locks_free s" using co by (rule bcohD)
  show ?thesis using ok lf
    by (simp add: brelse_def holdingsleep_buf releasesleep_buf buf_ok_def wakeup1_def upd_buf_def Let_def)
qed

lemma buf_ok_relink [simp]: "buf_ok m sz h (relink i t j) = buf_ok m sz h (t j)"
  by (simp add: buf_ok_def valid_def dirty_def)

lemma brelse_ok:
  assumes co: "bcoh H s" and i: "i \<in> H"
    and cl: "dirty (bufs s i) \<or> bdata (bufs s i) = memdisk s (blockno (bufs s i))"
  obtains s' t p where "brelse i s = Inr s'" "s' = s\<lparr>bufs := t, ptable := p\<rparr>"
    "bcoh (H - {i}) s'" "\<And>c. view s' c = view s c" "dblocks s' = dblocks s"
    "\<And>j. bdata (t j) = bdata (bufs s j) \<and> blockno (t j) = blockno (bufs s j) \<and> bflags (t j) = bflags (bufs s j)"
proof -
  have iN: "i < NBUF" using bcohD(2) [OF co] i by auto
  have ok: "buf_ok (memdisk s) (disksize s) True (bufs s i)" using bcohD(5) [OF co iN] i by simp
  have na: "no_alias (bufs s)" using co by (rule bcohD)
  define c where "c = (bufs s i)\<lparr>block := (block (bufs s i))\<lparr>sl_locked := 0, sl_pid := 0\<rparr>, refcnt := 0\<rparr>"
  define t where "t = relink i ((bufs s)(i := c))"
  define p where "p = ptable (wakeup1 (Chan_buf i) s)"
  let ?s' = "s\<lparr>bufs := t, ptable := p\<rparr>"
  have co1: "bcoh (H - {i}) (s\<lparr>bufs := (bufs s)(i := c)\<rparr>)"
    using ok i cl no_aliasD [OF na _ iN]
    by (intro bcoh_upd [OF co iN, where h = False]) (auto simp: buf_ok_def valid_def dirty_def c_def)
  have keep: "bdata (t j) = bdata (bufs s j) \<and> blockno (t j) = blockno (bufs s j) \<and>
    bflags (t j) = bflags (bufs s j) \<and> bdev (t j) = bdev (bufs s j)" for j
    by (simp add: t_def c_def)
  obtain xs where "lru_list ((bufs s)(i := c)) xs" using co1 by (auto simp: bcoh_def)
  then have "\<exists>xs. lru_list t xs" using relink_lru iN unfolding t_def by blast
  moreover have "no_alias t" using na keep unfolding no_alias_def by simp
  moreover have "buf_ok (memdisk s) (disksize s) (j \<in> H - {i}) (t j)" if "j < NBUF" for j
    using bcohD(5) [OF co1 that] unfolding t_def by simp
  ultimately have co2: "bcoh (H - {i}) ?s'"
    using co1 unfolding bcoh_def locks_free_def myproc_def by auto
  show ?thesis
  proof (rule that [of ?s' p t])
    show "brelse i s = Inr ?s'"
      using brelse_eq [OF co i] by (simp add: t_def p_def c_def wakeup1_def)
    show "view ?s' d = view s d" for d by (rule view_same [OF na]) (simp_all add: keep)
    show "dblocks ?s' = dblocks s" by (rule dblocks_same) (simp add: keep dirty_def)
  qed (use co2 keep in auto)
qed

section \<open>The interface of the cache\<close>

text \<open>
  What a client of the cache can observe: the contents of the blocks as read through the cache, the
  disk, the sequence of disk writes, and the blocks that are pinned because they are dirty.
\<close>

record cache_obs =
  o_view :: "u32 \<Rightarrow> u8 list"
  o_disk :: "u32 \<Rightarrow> u8 list"
  o_writes :: "(u32 \<times> u8 list) list"
  o_dirty :: "u32 set"
  o_size :: u32

locale block_cache =
  fixes inv :: "nat set \<Rightarrow> 's \<Rightarrow> bool"
    and obs :: "'s \<Rightarrow> cache_obs"
    and frm :: "'s \<Rightarrow> 's \<Rightarrow> bool"
    and blk :: "'s \<Rightarrow> nat \<Rightarrow> u32"
    and dat :: "'s \<Rightarrow> nat \<Rightarrow> u8 list"
    and rd_blk :: "u32 \<Rightarrow> 's \<Rightarrow> (nat \<times> 's) res"
    and set_dat :: "nat \<Rightarrow> u8 list \<Rightarrow> 's \<Rightarrow> 's"
    and wr_blk :: "nat \<Rightarrow> 's \<Rightarrow> 's res"
    and rel_blk :: "nat \<Rightarrow> 's \<Rightarrow> 's res"
  assumes frm_refl: "frm s s"
    and frm_trans: "frm s s1 \<Longrightarrow> frm s1 s2 \<Longrightarrow> frm s s2"
    and inv_finite: "inv H s \<Longrightarrow> finite H"
    and held_view: "inv H s \<Longrightarrow> i \<in> H \<Longrightarrow> dat s i = o_view (obs s) (blk s i)"
    and view_len: "inv H s \<Longrightarrow> length (o_view (obs s) b) = BSIZE"
    and clean_view: "inv H s \<Longrightarrow> b \<notin> blk s ` H \<Longrightarrow> b \<notin> o_dirty (obs s) \<Longrightarrow>
      o_view (obs s) b = o_disk (obs s) b"
    and rd_law: "\<lbrakk>inv H s; b < o_size (obs s); b \<notin> blk s ` H;
        card H + card (o_dirty (obs s)) < NBUF \<or> b \<in> o_dirty (obs s)\<rbrakk> \<Longrightarrow>
      \<exists>i s'. rd_blk b s = Inr (i, s') \<and> i \<notin> H \<and> inv (insert i H) s' \<and> blk s' i = b \<and>
        obs s' = obs s \<and> (\<forall>j\<in>H. blk s' j = blk s j) \<and> frm s s'"
    and set_law: "\<lbrakk>inv H s; i \<in> H; length d = BSIZE\<rbrakk> \<Longrightarrow>
      inv H (set_dat i d s) \<and> (\<forall>j. blk (set_dat i d s) j = blk s j) \<and> frm s (set_dat i d s) \<and>
      obs (set_dat i d s) = (obs s)\<lparr>o_view := (o_view (obs s))(blk s i := d)\<rparr>"
    and wr_law: "\<lbrakk>inv H s; i \<in> H\<rbrakk> \<Longrightarrow>
      \<exists>s'. wr_blk i s = Inr s' \<and> inv H s' \<and> (\<forall>j. blk s' j = blk s j) \<and> frm s s' \<and>
        obs s' = (obs s)\<lparr>o_disk := (o_disk (obs s))(blk s i := dat s i),
          o_writes := o_writes (obs s) @ [(blk s i, dat s i)], o_dirty := o_dirty (obs s) - {blk s i}\<rparr>"
    and rel_law: "\<lbrakk>inv H s; i \<in> H; blk s i \<in> o_dirty (obs s) \<or> dat s i = o_disk (obs s) (blk s i)\<rbrakk> \<Longrightarrow>
      \<exists>s'. rel_blk i s = Inr s' \<and> inv (H - {i}) s' \<and> (\<forall>j. blk s' j = blk s j) \<and> frm s s' \<and> obs s' = obs s"
begin

text \<open>Writing \<open>d\<close> through a held buffer reaches the disk, and the buffer can then be released.\<close>

lemma write_through:
  assumes "inv H s" "i \<in> H" "length d = BSIZE"
  shows "\<exists>s'. wr_blk i (set_dat i d s) = Inr s' \<and> inv H s' \<and> (\<forall>j. blk s' j = blk s j) \<and> frm s s' \<and>
    dat s' i = d \<and>
    obs s' = (obs s)\<lparr>o_view := (o_view (obs s))(blk s i := d), o_disk := (o_disk (obs s))(blk s i := d),
      o_writes := o_writes (obs s) @ [(blk s i, d)], o_dirty := o_dirty (obs s) - {blk s i}\<rparr>"
proof -
  let ?s = "set_dat i d s"
  have s: "inv H ?s" "\<And>j. blk ?s j = blk s j" "frm s ?s"
    "obs ?s = (obs s)\<lparr>o_view := (o_view (obs s))(blk s i := d)\<rparr>"
    using set_law [OF assms] by auto
  have d: "dat ?s i = d" using held_view [OF s(1) assms(2)] s(2,4) by simp
  obtain s' where s': "wr_blk i ?s = Inr s'" "inv H s'" "\<And>j. blk s' j = blk ?s j" "frm ?s s'"
    "obs s' = (obs ?s)\<lparr>o_disk := (o_disk (obs ?s))(blk ?s i := dat ?s i),
       o_writes := o_writes (obs ?s) @ [(blk ?s i, dat ?s i)], o_dirty := o_dirty (obs ?s) - {blk ?s i}\<rparr>"
    using wr_law [OF s(1) assms(2)] by auto
  have "dat s' i = d" using held_view [OF s'(2) assms(2)] s'(3,5) s(2,4) by simp
  then show ?thesis using s' s d frm_trans [OF s(3) s'(4)] by simp
qed

text \<open>
  Copying the block held in \<open>i\<close> to the disk through \<open>j\<close> and releasing both: the loop bodies of
  \<open>install_trans\<close> and \<open>write_log\<close>.
\<close>

lemma copy_release:
  assumes inv: "inv {i, j} s" and ij: "blk s i \<noteq> blk s j"
    and clean: "blk s i \<in> o_dirty (obs s) \<or> dat s i = o_disk (obs s) (blk s i)"
  shows "\<exists>s'. bind_r (wr_blk j (set_dat j (dat s i) s)) (\<lambda>s. bind_r (rel_blk i s) (rel_blk j)) = Inr s' \<and>
    inv {} s' \<and> frm s s' \<and>
    obs s' = (obs s)\<lparr>o_view := (o_view (obs s))(blk s j := dat s i),
      o_disk := (o_disk (obs s))(blk s j := dat s i),
      o_writes := o_writes (obs s) @ [(blk s j, dat s i)], o_dirty := o_dirty (obs s) - {blk s j}\<rparr>"
proof -
  have di: "dat s i = o_view (obs s) (blk s i)" using held_view [OF inv] by simp
  have len: "length (dat s i) = BSIZE" using view_len [OF inv] di by simp
  obtain s1 where s1: "wr_blk j (set_dat j (dat s i) s) = Inr s1" "inv {i, j} s1"
    "\<And>k. blk s1 k = blk s k" "frm s s1" "dat s1 j = dat s i"
    "obs s1 = (obs s)\<lparr>o_view := (o_view (obs s))(blk s j := dat s i),
      o_disk := (o_disk (obs s))(blk s j := dat s i),
      o_writes := o_writes (obs s) @ [(blk s j, dat s i)], o_dirty := o_dirty (obs s) - {blk s j}\<rparr>"
    using write_through [OF inv _ len, of j] by auto
  have "dat s1 i = dat s i" using held_view [OF s1(2), of i] s1(3,6) di ij by simp
  then have "blk s1 i \<in> o_dirty (obs s1) \<or> dat s1 i = o_disk (obs s1) (blk s1 i)"
    using clean ij s1(3,6) by auto
  then obtain s2 where s2: "rel_blk i s1 = Inr s2" "inv ({i, j} - {i}) s2" "\<And>k. blk s2 k = blk s1 k"
    "frm s1 s2" "obs s2 = obs s1"
    using rel_law [OF s1(2), of i] by auto
  have ne: "i \<noteq> j" using ij by auto
  have inv2: "inv {j} s2" using s2(2) ne by (simp add: insert_Diff_if)
  have "dat s2 j = o_disk (obs s2) (blk s2 j)"
    using held_view [OF inv2, of j] s2(3,5) s1(3,6) by simp
  then obtain s3 where "rel_blk j s2 = Inr s3" "inv ({j} - {j}) s3" "frm s2 s3" "obs s3 = obs s2"
    using rel_law [OF inv2, of j] by auto
  then show ?thesis
    using s1 s2 frm_trans [OF s1(4) frm_trans [OF s2(4)]] by simp
qed

text \<open>Reading a block and releasing it changes nothing a client observes.\<close>

lemma read_release:
  assumes "inv {} s" "b < o_size (obs s)" "card (o_dirty (obs s)) < NBUF \<or> b \<in> o_dirty (obs s)"
  shows "\<exists>i s1 s'. rd_blk b s = Inr (i, s1) \<and> dat s1 i = o_view (obs s) b \<and> rel_blk i s1 = Inr s' \<and>
    inv {} s' \<and> frm s s1 \<and> frm s s' \<and> obs s' = obs s"
proof -
  obtain i s1 where s1: "rd_blk b s = Inr (i, s1)" "inv {i} s1" "blk s1 i = b" "obs s1 = obs s" "frm s s1"
    using rd_law [OF assms(1,2)] assms(3) by auto
  have d: "dat s1 i = o_view (obs s) b" using held_view [OF s1(2), of i] s1(3,4) by simp
  have "b \<in> o_dirty (obs s) \<or> o_view (obs s) b = o_disk (obs s) b" using clean_view [OF assms(1)] by auto
  then obtain s' where "rel_blk i s1 = Inr s'" "inv ({i} - {i}) s'" "frm s1 s'" "obs s' = obs s1"
    using rel_law [OF s1(2), of i] s1(3,4) d by auto
  then show ?thesis using s1 d frm_trans [OF s1(5)] by auto
qed

text \<open>Rewriting a block on the disk: the body of \<open>write_head\<close>.\<close>

lemma modify_release:
  assumes inv: "inv {} s" and b: "b < o_size (obs s)" "card (o_dirty (obs s)) < NBUF"
    and f: "\<And>s'. frm s s' \<Longrightarrow> g s' = f" "length (f (o_view (obs s) b)) = BSIZE"
  shows "\<exists>s'. bind_r (rd_blk b s) (\<lambda>(i, s). bind_r (wr_blk i (set_dat i (g s (dat s i)) s)) (rel_blk i)) = Inr s' \<and>
    inv {} s' \<and> frm s s' \<and>
    obs s' = (obs s)\<lparr>o_view := (o_view (obs s))(b := f (o_view (obs s) b)),
      o_disk := (o_disk (obs s))(b := f (o_view (obs s) b)),
      o_writes := o_writes (obs s) @ [(b, f (o_view (obs s) b))], o_dirty := o_dirty (obs s) - {b}\<rparr>"
proof -
  obtain i s1 where s1: "rd_blk b s = Inr (i, s1)" "inv {i} s1" "blk s1 i = b" "obs s1 = obs s" "frm s s1"
    using rd_law [OF inv b(1)] b(2) by auto
  let ?d = "f (o_view (obs s) b)"
  have d: "g s1 (dat s1 i) = ?d" using held_view [OF s1(2), of i] s1(3,4) f(1) [OF s1(5)] by simp
  obtain s2 where s2: "wr_blk i (set_dat i ?d s1) = Inr s2" "inv {i} s2" "\<And>k. blk s2 k = blk s1 k"
    "frm s1 s2" "dat s2 i = ?d"
    "obs s2 = (obs s1)\<lparr>o_view := (o_view (obs s1))(b := ?d), o_disk := (o_disk (obs s1))(b := ?d),
      o_writes := o_writes (obs s1) @ [(b, ?d)], o_dirty := o_dirty (obs s1) - {b}\<rparr>"
    using write_through [OF s1(2) _ f(2), of i] s1(3) by auto
  obtain s3 where "rel_blk i s2 = Inr s3" "inv ({i} - {i}) s3" "frm s2 s3" "obs s3 = obs s2"
    using rel_law [OF s2(2), of i] s2(3,5,6) s1(3) by auto
  then show ?thesis using s1 s2 d frm_trans [OF s1(5) frm_trans [OF s2(4)]] by simp
qed

text \<open>
  Both orders in which the log reads the source and the destination of a copy; \<open>rd2\<close> is the second
  read, whose block number is taken from state that reading the first block does not change.
\<close>

lemma copy_src_first:
  assumes inv: "inv {} s" and b: "a < o_size (obs s)" "b < o_size (obs s)" "a \<noteq> b"
    and cap: "card (o_dirty (obs s)) < NBUF \<or> a \<in> o_dirty (obs s)"
      "Suc (card (o_dirty (obs s))) < NBUF \<or> b \<in> o_dirty (obs s)"
    and rd2: "\<And>s'. frm s s' \<Longrightarrow> rd2 s' = rd_blk b s'"
  shows "\<exists>s'. bind_r (rd_blk a s) (\<lambda>(i, s). bind_r (rd2 s) (\<lambda>(j, s).
      bind_r (wr_blk j (set_dat j (dat s i) s)) (\<lambda>s. bind_r (rel_blk i s) (rel_blk j)))) = Inr s' \<and>
    inv {} s' \<and> frm s s' \<and>
    obs s' = (obs s)\<lparr>o_view := (o_view (obs s))(b := o_view (obs s) a),
      o_disk := (o_disk (obs s))(b := o_view (obs s) a),
      o_writes := o_writes (obs s) @ [(b, o_view (obs s) a)], o_dirty := o_dirty (obs s) - {b}\<rparr>"
proof -
  obtain i s1 where s1: "rd_blk a s = Inr (i, s1)" "inv {i} s1" "blk s1 i = a" "obs s1 = obs s" "frm s s1"
    using rd_law [OF inv b(1)] cap(1) by auto
  obtain j s2 where s2: "rd_blk b s1 = Inr (j, s2)" "inv {j, i} s2" "blk s2 j = b" "obs s2 = obs s1"
    "blk s2 i = a" "frm s1 s2"
    using rd_law [OF s1(2), of b] b cap(2) s1(3,4) by auto
  have d: "dat s2 i = o_view (obs s) a" using held_view [OF s2(2), of i] s1 s2 by simp
  have "a \<in> o_dirty (obs s) \<or> o_view (obs s) a = o_disk (obs s) a" using clean_view [OF inv] by auto
  then show ?thesis
    using copy_release [of i j s2] s1 s2 d b(3) rd2 [OF s1(5)] frm_trans [OF s1(5) frm_trans [OF s2(6)]]
    by (fastforce simp: insert_commute)
qed

lemma copy_dst_first:
  assumes inv: "inv {} s" and b: "a < o_size (obs s)" "b < o_size (obs s)" "a \<noteq> b"
    and cap: "card (o_dirty (obs s)) < NBUF \<or> b \<in> o_dirty (obs s)"
      "Suc (card (o_dirty (obs s))) < NBUF \<or> a \<in> o_dirty (obs s)"
    and rd2: "\<And>s'. frm s s' \<Longrightarrow> rd2 s' = rd_blk a s'"
  shows "\<exists>s'. bind_r (rd_blk b s) (\<lambda>(j, s). bind_r (rd2 s) (\<lambda>(i, s).
      bind_r (wr_blk j (set_dat j (dat s i) s)) (\<lambda>s. bind_r (rel_blk i s) (rel_blk j)))) = Inr s' \<and>
    inv {} s' \<and> frm s s' \<and>
    obs s' = (obs s)\<lparr>o_view := (o_view (obs s))(b := o_view (obs s) a),
      o_disk := (o_disk (obs s))(b := o_view (obs s) a),
      o_writes := o_writes (obs s) @ [(b, o_view (obs s) a)], o_dirty := o_dirty (obs s) - {b}\<rparr>"
proof -
  obtain j s1 where s1: "rd_blk b s = Inr (j, s1)" "inv {j} s1" "blk s1 j = b" "obs s1 = obs s" "frm s s1"
    using rd_law [OF inv b(2)] cap(1) by auto
  obtain i s2 where s2: "rd_blk a s1 = Inr (i, s2)" "inv {i, j} s2" "blk s2 i = a" "obs s2 = obs s1"
    "blk s2 j = b" "frm s1 s2"
    using rd_law [OF s1(2), of a] b cap(2) s1(3,4) by auto
  have d: "dat s2 i = o_view (obs s) a" using held_view [OF s2(2), of i] s1 s2 by simp
  have "a \<in> o_dirty (obs s) \<or> o_view (obs s) a = o_disk (obs s) a" using clean_view [OF inv] by auto
  then show ?thesis
    using copy_release [OF s2(2)] s1 s2 d b(3) rd2 [OF s1(5)] frm_trans [OF s1(5) frm_trans [OF s2(6)]] by fastforce
qed

end

section \<open>The buffer cache provides the interface\<close>

definition bobs :: "'a bio_st_scheme \<Rightarrow> cache_obs" where
  "bobs s = \<lparr>o_view = view s, o_disk = memdisk s, o_writes = dwrites s, o_dirty = dblocks s,
     o_size = disksize s\<rparr>"

definition bframe :: "'a bio_st_scheme \<Rightarrow> 'a bio_st_scheme \<Rightarrow> bool" where
  "bframe s s' \<longleftrightarrow> (\<exists>t p m w. s' = s\<lparr>bufs := t, ptable := p, memdisk := m, dwrites := w\<rparr>)"

definition set_data :: "nat \<Rightarrow> u8 list \<Rightarrow> 'a bio_st_scheme \<Rightarrow> 'a bio_st_scheme" where
  "set_data i d s = upd_buf i (\<lambda>b. b\<lparr>bdata := d\<rparr>) s"

lemma bframeI: "s' = s\<lparr>bufs := t, ptable := p, memdisk := m, dwrites := w\<rparr> \<Longrightarrow> bframe s s'"
  by (auto simp: bframe_def)

lemma bframe_refl: "bframe s s"
  by (rule bframeI [where t = "bufs s" and p = "ptable s" and m = "memdisk s" and w = "dwrites s"]) simp

lemma bframe_trans: "bframe s s1 \<Longrightarrow> bframe s1 s2 \<Longrightarrow> bframe s s2"
  unfolding bframe_def by (elim exE) (simp, blast)

lemma bframe_simps:
  "bframe s (s\<lparr>bufs := t\<rparr>)" "bframe s (s\<lparr>bufs := t, ptable := p\<rparr>)"
  "bframe s (s\<lparr>bufs := t, memdisk := m, dwrites := w\<rparr>)"
  by (rule bframeI [where t = t and p = "ptable s" and m = "memdisk s" and w = "dwrites s"], simp)
     (rule bframeI [where t = t and p = p and m = "memdisk s" and w = "dwrites s"], simp,
      rule bframeI [where t = t and p = "ptable s" and m = m and w = w], simp)

lemma bcoh_capacity:
  assumes "bcoh H s" "card H + card (dblocks s) < NBUF"
  shows "room H s"
  using assms bcohD(5) [OF assms(1)] finite_subset [OF bcohD(2) [OF assms(1)]] bcohD(3) [OF assms(1)]
  by (intro room_card) (auto simp: buf_ok_def)

lemma dirty_cached:
  assumes "bcoh H s" "b \<in> dblocks s"
  shows "cached s b \<noteq> None"
  using assms(2) bcohD(5) [OF assms(1)] by (auto simp: dblocks_def cached_None buf_ok_def)

lemma held_buf:
  assumes "bcoh H s" "i \<in> H"
  shows "i < NBUF" "bdev (bufs s i) = 1"
proof -
  show "i < NBUF" using bcohD(2) [OF assms(1)] assms(2) by auto
  then show "bdev (bufs s i) = 1" using bcohD(5) [OF assms(1), of i] assms(2) by (auto simp: buf_ok_def)
qed

interpretation bc: block_cache bcoh bobs bframe "\<lambda>s i. blockno (bufs s i)" "\<lambda>s i. bdata (bufs s i)"
  "bread 1" set_data bwrite brelse
proof (unfold_locales, goal_cases)
  case (1 s)
  show ?case by (rule bframe_refl)
next
  case (2 s s1 s2)
  then show ?case by (rule bframe_trans)
next
  case (3 H s)
  show ?case by (rule finite_subset [OF bcohD(2) [OF 3]]) simp
next
  case (5 H s b)
  then show ?case using view_length by (simp add: bobs_def)
next
  case (6 H s b)
  then show ?case using view_clean [OF 6(1)] by (simp add: bobs_def hblocks_def)
next
  case (4 H s i)
  then show ?case using view_cached [OF bcohD(3) [OF 4(1)] held_buf [OF 4]] by (simp add: bobs_def)
next
  case (7 H s b)
  have "room H s \<or> cached s b \<noteq> None"
    using 7(4) bcoh_capacity [OF 7(1)] dirty_cached [OF 7(1)] by (auto simp: bobs_def)
  moreover have "b < disksize s" "b \<notin> hblocks H s" using 7(2,3) by (simp_all add: bobs_def hblocks_def)
  ultimately obtain i t where r: "bread 1 b s = Inr (i, s\<lparr>bufs := t\<rparr>)" "i < NBUF" "i \<notin> H"
    "bcoh (insert i H) (s\<lparr>bufs := t\<rparr>)" "blockno (t i) = b" "bdata (t i) = view s b"
    "\<And>c. view (s\<lparr>bufs := t\<rparr>) c = view s c" "dblocks (s\<lparr>bufs := t\<rparr>) = dblocks s"
    "\<And>j. j \<noteq> i \<Longrightarrow> t j = bufs s j" "dirty (t i) \<longleftrightarrow> b \<in> dblocks s"
    using bread_ok [OF 7(1)] by metis
  have "blockno (t j) = blockno (bufs s j)" if "j \<in> H" for j using r(3,9) that by metis
  moreover have "view (s\<lparr>bufs := t\<rparr>) = view s" using r(7) by (rule ext)
  ultimately show ?case using r(1,3,4,5,8) bframe_simps(1) [of s t] by (simp add: bobs_def)
next
  case (8 H s i d)
  then show ?case using upd_data_ok [OF 8] bframe_simps(1)
    by (auto simp: bobs_def set_data_def upd_buf_def)
next
  case (9 H s i)
  obtain s' t where "bwrite i s = Inr s'"
    "s' = s\<lparr>bufs := t, memdisk := (memdisk s)(blockno (bufs s i) := bdata (bufs s i)),
       dwrites := dwrites s @ [(blockno (bufs s i), bdata (bufs s i))]\<rparr>"
    "bcoh H s'" "\<And>c. view s' c = view s c" "dblocks s' = dblocks s - {blockno (bufs s i)}"
    "\<And>j. bdata (t j) = bdata (bufs s j) \<and> blockno (t j) = blockno (bufs s j)"
    using bwrite_ok [OF 9] by metis
  then show ?case using bframe_simps(3) by (simp add: bobs_def fun_eq_iff)
next
  case (10 H s i)
  have "dirty (bufs s i) \<or> bdata (bufs s i) = memdisk s (blockno (bufs s i))"
    using 10(3) dirty_block_iff [OF 10(1) held_buf [OF 10(1,2)]] by (simp add: bobs_def)
  from brelse_ok [OF 10(1,2) this] obtain s' t p where "brelse i s = Inr s'" "s' = s\<lparr>bufs := t, ptable := p\<rparr>"
    "bcoh (H - {i}) s'" "\<And>c. view s' c = view s c" "dblocks s' = dblocks s"
    "\<And>j. bdata (t j) = bdata (bufs s j) \<and> blockno (t j) = blockno (bufs s j) \<and> bflags (t j) = bflags (bufs s j)"
    by metis
  then show ?case using bframe_simps(2) by (simp add: bobs_def fun_eq_iff)
qed

lemma bcoh_cong:
  "\<lbrakk>bufs s' = bufs s; memdisk s' = memdisk s; disksize s' = disksize s; held s' = held s;
    cur s' = cur s; me s' = me s\<rbrakk> \<Longrightarrow> bcoh H s' = bcoh H s"
  unfolding bcoh_def locks_free_def myproc_def by (simp only:)

lemma view_cong: "\<lbrakk>bufs s' = bufs s; memdisk s' = memdisk s\<rbrakk> \<Longrightarrow> view s' = view s"
  by (rule ext) (simp add: view_def cached_def split: option.split)

lemma bobs_cong:
  "\<lbrakk>bufs s' = bufs s; memdisk s' = memdisk s; disksize s' = disksize s; dwrites s' = dwrites s\<rbrakk> \<Longrightarrow> bobs s' = bobs s"
  using view_cong [of s' s] by (simp add: bobs_def dblocks_def)

end
