(* ===== verification/Log.thy ===== *)
theory Log
  imports Buf_Cache
begin

text \<open>
  The write-ahead log \<open>xv6/log.c\<close> (and \<open>readsb\<close> of \<open>xv6/fs.c\<close>, which \<open>initlog\<close> calls). One file-system
  system call runs between \<open>begin_op\<close> and \<open>end_op\<close>; the blocks it changes stay in the cache, pinned
  by \<open>B_DIRTY\<close>, until the last outstanding call commits them.

  The pure functions \<open>recover_disk\<close> and \<open>apply_writes\<close> describe what recovery makes of a disk and what
  a sequence of block writes makes of it; a crash during \<open>commit\<close> is a prefix of the block writes it
  issues. A block write is atomic, as a sector write of the disk is.
\<close>

definition MAXOPBLOCKS :: nat where "MAXOPBLOCKS = 10"
definition LOGSIZE :: nat where "LOGSIZE = MAXOPBLOCKS * 3"

record superblock =
  sb_size :: u32
  sb_nblocks :: u32
  sb_ninodes :: u32
  sb_nlog :: u32
  sb_logstart :: u32
  sb_inodestart :: u32
  sb_bmapstart :: u32

record log_st = bio_st +
  log_start :: u32
  log_size :: int
  outstanding :: int
  committing :: bool
  log_dev :: u32
  lh_n :: int
  lh_block :: "u32 list"

definition decode_superblock :: "u8 list \<Rightarrow> superblock" where
  "decode_superblock d = \<lparr>sb_size = u32_at d 0, sb_nblocks = u32_at d 4, sb_ninodes = u32_at d 8,
     sb_nlog = u32_at d 12, sb_logstart = u32_at d 16, sb_inodestart = u32_at d 20, sb_bmapstart = u32_at d 24\<rparr>"

definition readsb :: "u32 \<Rightarrow> 'a bio_st_scheme \<Rightarrow> (superblock \<times> 'a bio_st_scheme) res" where
  "readsb dev s =
     bind_r (bread dev 1 s) (\<lambda>(bp, s).
     let sb = decode_superblock (bdata (bufs s bp)) in
     bind_r (brelse bp s) (\<lambda>s. Inr (sb, s)))"

section \<open>The on-disk header\<close>

text \<open>\<open>struct logheader\<close>: the count, then the block numbers.\<close>

definition hdr_n :: "u8 list \<Rightarrow> int" where
  "hdr_n d = sint (u32_at d 0)"

definition hdr_block :: "u8 list \<Rightarrow> nat \<Rightarrow> u32" where
  "hdr_block d i = u32_at d (4 + 4 * i)"

fun put_blocks :: "nat \<Rightarrow> u32 list \<Rightarrow> u8 list \<Rightarrow> u8 list" where
  "put_blocks i [] d = d"
| "put_blocks i (b # bs) d = put_blocks (Suc i) bs (put_bytes (4 + 4 * i) (le32 b) d)"

definition put_header :: "int \<Rightarrow> u32 list \<Rightarrow> u8 list \<Rightarrow> u8 list" where
  "put_header n bs d = put_blocks 0 (take (nat n) bs) (put_bytes 0 (le32 (word_of_int n)) d)"

definition lh_get :: "nat \<Rightarrow> 'a log_st_scheme \<Rightarrow> u32 res" where
  "lh_get i s = (if i < LOGSIZE then Inr (lh_block s ! i) else Inl (Faults ''log.lh.block''))"

definition read_head :: "'a log_st_scheme \<Rightarrow> 'a log_st_scheme res" where
  "read_head s =
     bind_r (bread (log_dev s) (log_start s) s) (\<lambda>(b, s).
     let d = bdata (bufs s b) in
     if hdr_n d > int LOGSIZE then Inl (Faults ''log.lh.block'')
     else brelse b (s\<lparr>lh_n := hdr_n d,
       lh_block := map (\<lambda>i. if int i < hdr_n d then hdr_block d i else lh_block s ! i) [0..<LOGSIZE]\<rparr>))"

definition write_head :: "'a log_st_scheme \<Rightarrow> 'a log_st_scheme res" where
  "write_head s =
     bind_r (bread (log_dev s) (log_start s) s) (\<lambda>(b, s).
     let d = put_header (lh_n s) (lh_block s) (bdata (bufs s b)) in
     bind_r (bwrite b (set_data b d s)) (brelse b))"

section \<open>Copying blocks between the log and their home\<close>

fun install_from :: "nat \<Rightarrow> nat \<Rightarrow> 'a log_st_scheme \<Rightarrow> 'a log_st_scheme res" where
  "install_from tail 0 s = Inr s"
| "install_from tail (Suc k) s =
     bind_r (bread (log_dev s) (log_start s + of_nat tail + 1) s) (\<lambda>(lbuf, s).
     bind_r (bind_r (lh_get tail s) (\<lambda>b. bread (log_dev s) b s)) (\<lambda>(dbuf, s).
     bind_r (bwrite dbuf (set_data dbuf (bdata (bufs s lbuf)) s)) (\<lambda>s.
     bind_r (brelse lbuf s) (\<lambda>s.
     bind_r (brelse dbuf s) (install_from (Suc tail) k)))))"

definition install_trans :: "'a log_st_scheme \<Rightarrow> 'a log_st_scheme res" where
  "install_trans s = install_from 0 (nat (lh_n s)) s"

fun write_from :: "nat \<Rightarrow> nat \<Rightarrow> 'a log_st_scheme \<Rightarrow> 'a log_st_scheme res" where
  "write_from tail 0 s = Inr s"
| "write_from tail (Suc k) s =
     bind_r (bread (log_dev s) (log_start s + of_nat tail + 1) s) (\<lambda>(to, s).
     bind_r (bind_r (lh_get tail s) (\<lambda>b. bread (log_dev s) b s)) (\<lambda>(from, s).
     bind_r (bwrite to (set_data to (bdata (bufs s from)) s)) (\<lambda>s.
     bind_r (brelse from s) (\<lambda>s.
     bind_r (brelse to s) (write_from (Suc tail) k)))))"

definition write_log :: "'a log_st_scheme \<Rightarrow> 'a log_st_scheme res" where
  "write_log s = write_from 0 (nat (lh_n s)) s"

definition recover_from_log :: "'a log_st_scheme \<Rightarrow> 'a log_st_scheme res" where
  "recover_from_log s =
     bind_r (read_head s) (\<lambda>s.
     bind_r (install_trans s) (\<lambda>s.
     write_head (s\<lparr>lh_n := 0\<rparr>)))"

definition initlog :: "u32 \<Rightarrow> 'a log_st_scheme \<Rightarrow> 'a log_st_scheme res" where
  "initlog dev s =
     (if 4 + 4 * LOGSIZE \<ge> BSIZE then Inl (Panic ''initlog: too big logheader'')
      else bind_r (readsb dev s) (\<lambda>(sb, s).
        recover_from_log (s\<lparr>log_start := sb_logstart sb, log_size := sint (sb_nlog sb), log_dev := dev\<rparr>)))"

definition commit :: "'a log_st_scheme \<Rightarrow> 'a log_st_scheme res" where
  "commit s =
     (if lh_n s > 0 then
        bind_r (write_log s) (\<lambda>s.
        bind_r (write_head s) (\<lambda>s.
        bind_r (install_trans s) (\<lambda>s.
        write_head (s\<lparr>lh_n := 0\<rparr>))))
      else Inr s)"

section \<open>Transactions\<close>

definition begin_op :: "'a log_st_scheme \<Rightarrow> 'a log_st_scheme res" where
  "begin_op s =
     bind_r (acq LK_log s) (\<lambda>s.
     if committing s then Inl (Sleeps Chan_log)
     else if lh_n s + (outstanding s + 1) * int MAXOPBLOCKS > int LOGSIZE then Inl (Sleeps Chan_log)
     else rel LK_log (s\<lparr>outstanding := outstanding s + 1\<rparr>))"

definition end_op :: "'a log_st_scheme \<Rightarrow> 'a log_st_scheme res" where
  "end_op s =
     bind_r (acq LK_log s) (\<lambda>s.
     let s = s\<lparr>outstanding := outstanding s - 1\<rparr> in
     if committing s then Inl (Panic ''log.committing'')
     else if outstanding s = 0 then
       bind_r (rel LK_log (s\<lparr>committing := True\<rparr>)) (\<lambda>s.
       bind_r (commit s) (\<lambda>s.
       bind_r (acq LK_log s) (\<lambda>s.
       bind_r (wakeup Chan_log (s\<lparr>committing := False\<rparr>)) (rel LK_log))))
     else bind_r (wakeup Chan_log s) (rel LK_log))"

definition log_slot :: "u32 \<Rightarrow> 'a log_st_scheme \<Rightarrow> nat" where
  "log_slot b s = length (takeWhile (\<lambda>x. x \<noteq> b) (take (nat (lh_n s)) (lh_block s)))"

definition log_write :: "nat \<Rightarrow> 'a log_st_scheme \<Rightarrow> 'a log_st_scheme res" where
  "log_write b s =
     (if lh_n s \<ge> int LOGSIZE \<or> lh_n s \<ge> log_size s - 1 then Inl (Panic ''too big a transaction'')
      else if outstanding s < 1 then Inl (Panic ''log_write outside of trans'')
      else
        bind_r (acq LK_log s) (\<lambda>s.
        let bno = blockno (bufs s b);
            i = log_slot bno s;
            s = s\<lparr>lh_block := (lh_block s)[i := bno]\<rparr>;
            s = (if int i = lh_n s then s\<lparr>lh_n := lh_n s + 1\<rparr> else s) in
        rel LK_log (upd_buf b (\<lambda>c. c\<lparr>bflags := bflags c OR B_DIRTY\<rparr>) s)))"

end
