(* ===== verification/Log_Recovery.thy ===== *)
theory Log_Recovery
  imports Log
begin

text \<open>
  Correctness of \<open>commit\<close> and \<open>recover_from_log\<close>, and crash safety. Both are characterised by the
  sequence of block writes they issue (\<open>commit_writes\<close>, \<open>recovery_writes\<close>); \<open>recover_disk\<close> is recovery as
  a function of the disk. \<open>commit_prefix\<close>: whatever prefix of the writes of a commit reached the disk,
  recovery yields all of the old or all of the new contents outside the log.
\<close>

section \<open>The header round trip\<close>

lemma length_put_blocks [simp]:
  "4 + 4 * (i + length bs) \<le> length d \<Longrightarrow> length (put_blocks i bs d) = length d"
  by (induction bs arbitrary: i d) auto

lemma put_blocks_keeps:
  "\<lbrakk>4 + 4 * (i + length bs) \<le> length d; p + n \<le> 4 + 4 * i\<rbrakk> \<Longrightarrow>
   get_bytes p n (put_blocks i bs d) = get_bytes p n d"
proof (induction bs arbitrary: i d)
  case (Cons b bs)
  then show ?case using get_put_disjoint [of "4 + 4 * i" "le32 b" d p n] by simp
qed simp

lemma hdr_block_put_blocks:
  "\<lbrakk>4 + 4 * (i + length bs) \<le> length d; k < length bs\<rbrakk> \<Longrightarrow>
   hdr_block (put_blocks i bs d) (i + k) = bs ! k"
proof (induction bs arbitrary: i d k)
  case (Cons b bs)
  show ?case
  proof (cases k)
    case 0
    have "get_bytes (4 + 4 * i) 4 (put_blocks (Suc i) bs (put_bytes (4 + 4 * i) (le32 b) d)) = le32 b"
      using Cons.prems by (subst put_blocks_keeps) simp_all
    then show ?thesis using 0 by (simp add: hdr_block_def u32_at_def)
  next
    case (Suc m)
    then show ?thesis using Cons.IH [of "Suc i" "put_bytes (4 + 4 * i) (le32 b) d" m] Cons.prems by simp
  qed
qed simp

lemma sint_small: "0 \<le> n \<Longrightarrow> n < 2 ^ 31 \<Longrightarrow> sint (word_of_int n :: u32) = n"
  by (simp add: signed_of_int signed_take_bit_int_eq_self)

lemma put_header_facts:
  assumes "length d = BSIZE" "0 \<le> n" "n \<le> int LOGSIZE" "nat n \<le> length bs"
  shows "length (put_header n bs d) = BSIZE" "hdr_n (put_header n bs d) = n"
    "k < nat n \<Longrightarrow> hdr_block (put_header n bs d) k = bs ! k"
proof -
  have n: "nat n \<le> 30" using assms(3) by (simp add: LOGSIZE_def MAXOPBLOCKS_def)
  let ?d = "put_bytes 0 (le32 (word_of_int n)) d"
  have l: "4 + 4 * (0 + length (take (nat n) bs)) \<le> length ?d"
    using assms(1) n by (simp add: BSIZE_def)
  show "length (put_header n bs d) = BSIZE"
    using length_put_blocks [OF l] assms(1) by (simp add: put_header_def BSIZE_def)
  show "hdr_n (put_header n bs d) = n"
    using put_blocks_keeps [OF l, of 0 4] assms n
    by (simp add: put_header_def hdr_n_def u32_at_def BSIZE_def sint_small)
  show "hdr_block (put_header n bs d) k = bs ! k" if "k < nat n"
    using hdr_block_put_blocks [OF l, of k] that assms(4) by (simp add: put_header_def)
qed

section \<open>Sequences of block writes\<close>

definition apply_writes :: "(u32 \<times> u8 list) list \<Rightarrow> (u32 \<Rightarrow> u8 list) \<Rightarrow> u32 \<Rightarrow> u8 list" where
  "apply_writes ws D = fold (\<lambda>(b, d) D. D(b := d)) ws D"

definition obs_writes :: "(u32 \<times> u8 list) list \<Rightarrow> cache_obs \<Rightarrow> cache_obs" where
  "obs_writes ws c = c\<lparr>o_view := apply_writes ws (o_view c), o_disk := apply_writes ws (o_disk c),
     o_writes := o_writes c @ ws, o_dirty := o_dirty c - fst ` set ws\<rparr>"

lemma apply_writes_simps [simp]:
  "apply_writes [] D = D" "apply_writes ((b, d) # ws) D = apply_writes ws (D(b := d))"
  "apply_writes (ws @ vs) D = apply_writes vs (apply_writes ws D)"
  by (simp_all add: apply_writes_def)

lemma obs_writes_Nil [simp]: "obs_writes [] c = c"
  by (simp add: obs_writes_def)

lemma obs_writes_append: "obs_writes (ws @ vs) c = obs_writes vs (obs_writes ws c)"
  by (simp add: obs_writes_def image_Un Diff_eq Int_assoc)

lemma obs_writes_Cons: "obs_writes (w # vs) c = obs_writes vs (obs_writes [w] c)"
  using obs_writes_append [of "[w]" vs c] by simp

text \<open>Writes that agree with a function \<open>f\<close> leave the written blocks equal to \<open>f\<close>.\<close>

lemma apply_writes_fun:
  "(\<And>b d. (b, d) \<in> set ws \<Longrightarrow> d = f b) \<Longrightarrow>
   apply_writes ws D b = (if b \<in> fst ` set ws then f b else D b)"
proof (induction ws arbitrary: D)
  case (Cons w ws)
  obtain c d where w: "w = (c, d)" by (cases w)
  have "d = f c" using Cons.prems w by simp
  moreover have "apply_writes ws (D(c := d)) b = (if b \<in> fst ` set ws then f b else (D(c := d)) b)"
    using Cons.prems by (intro Cons.IH) simp
  ultimately show ?case using w by auto
qed simp

lemma apply_writes_other: "b \<notin> fst ` set ws \<Longrightarrow> apply_writes ws D b = D b"
  by (induction ws arbitrary: D) auto

section \<open>Recovery as a function of the disk\<close>

definition install_writes :: "u32 \<Rightarrow> (u32 \<Rightarrow> u8 list) \<Rightarrow> (u32 \<times> u8 list) list" where
  "install_writes st D = map (\<lambda>i. (hdr_block (D st) i, D (st + of_nat i + 1))) [0..<nat (hdr_n (D st))]"

definition recovery_writes :: "u32 \<Rightarrow> (u32 \<Rightarrow> u8 list) \<Rightarrow> (u32 \<times> u8 list) list" where
  "recovery_writes st D = install_writes st D @ [(st, put_header 0 [] (D st))]"

definition recover_disk :: "u32 \<Rightarrow> (u32 \<Rightarrow> u8 list) \<Rightarrow> u32 \<Rightarrow> u8 list" where
  "recover_disk st D = apply_writes (recovery_writes st D) D"

text \<open>The blocks of the log: the header and the blocks behind it, \<open>sz\<close> blocks in all.\<close>

definition log_region :: "u32 \<Rightarrow> int \<Rightarrow> u32 set" where
  "log_region st sz = (\<lambda>i. st + of_nat i) ` {..<nat sz}"

lemma log_regionI: "int i + 1 < sz \<Longrightarrow> st + of_nat i + 1 \<in> log_region st sz" "0 < sz \<Longrightarrow> st \<in> log_region st sz"
  by (auto simp: log_region_def image_iff intro: bexI [of _ "Suc i"] bexI [of _ 0])

lemma recovery_committed:
  assumes "hdr_n (D st) = int n" "b \<noteq> st"
    "\<And>i. i < n \<Longrightarrow> D (st + of_nat i + 1) = V (hdr_block (D st) i)"
  shows "recover_disk st D b = (if b \<in> hdr_block (D st) ` {..<n} then V b else D b)"
proof -
  have "apply_writes (install_writes st D) D b =
      (if b \<in> fst ` set (install_writes st D) then V b else D b)"
    by (rule apply_writes_fun) (use assms(1,3) in \<open>auto simp: install_writes_def\<close>)
  moreover have "fst ` set (install_writes st D) = hdr_block (D st) ` {..<n}"
    using assms(1) by (auto simp: install_writes_def image_image atLeast0LessThan)
  ultimately show ?thesis using assms(2) by (simp add: recover_disk_def recovery_writes_def)
qed

lemma recovery_empty: "hdr_n (D st) \<le> 0 \<Longrightarrow> b \<noteq> st \<Longrightarrow> recover_disk st D b = D b"
  by (simp add: recover_disk_def recovery_writes_def install_writes_def)

section \<open>The operations of the log on the observable state\<close>

definition log_wf :: "'a log_st_scheme \<Rightarrow> bool" where
  "log_wf s \<longleftrightarrow> log_dev s = 1 \<and> length (lh_block s) = LOGSIZE \<and> 0 \<le> lh_n s \<and> lh_n s \<le> int LOGSIZE \<and>
     lh_n s < log_size s \<and> uint (log_start s) + log_size s \<le> uint (disksize s) \<and>
     (\<forall>i < nat (lh_n s). lh_block s ! i < disksize s \<and> lh_block s ! i \<notin> log_region (log_start s) (log_size s))"

lemma log_block_unat:
  assumes "log_wf s" "int i < log_size s"
  shows "unat (log_start s + of_nat i) = unat (log_start s) + i"
proof -
  have "unat (log_start s) + i < 2 ^ 32"
    using assms unat32_lt [of "disksize s"] unfolding log_wf_def uint_nat by linarith
  then show ?thesis by (simp add: unat_word_ariths unat_of_nat)
qed

lemma log_next: "log_start s + of_nat i + 1 = log_start s + of_nat (Suc i)"
  by (simp add: add.commute add.left_commute)

lemma log_block_in_range:
  assumes "log_wf s"
  shows "int i + 1 < log_size s \<Longrightarrow> log_start s + of_nat i + 1 < disksize s" "log_start s < disksize s"
proof -
  show "log_start s < disksize s" using assms unfolding log_wf_def word_less_nat_alt uint_nat by linarith
  assume i: "int i + 1 < log_size s"
  then have "unat (log_start s + of_nat (Suc i)) = unat (log_start s) + Suc i"
    by (intro log_block_unat [OF assms]) simp
  then show "log_start s + of_nat i + 1 < disksize s"
    unfolding log_next word_less_nat_alt using assms i unfolding log_wf_def uint_nat by linarith
qed

lemma log_block_inj:
  assumes "log_wf s" "int i < log_size s" "int j < log_size s"
    "log_start s + of_nat i + 1 = log_start s + of_nat j + 1"
  shows "i = j"
proof -
  have "unat (log_start s + of_nat i) = unat (log_start s + of_nat j)" using assms(4) by simp
  then show ?thesis using log_block_unat [OF assms(1)] assms(2,3) by simp
qed

lemma log_block_not_start:
  assumes "log_wf s" "int i + 1 < log_size s"
  shows "log_start s + of_nat i + 1 \<noteq> log_start s"
  using log_block_unat [OF assms(1), of "Suc i"] assms(2) unfolding log_next word_unat_eq_iff by simp

lemma bframe_log:
  assumes "bframe s s'"
  shows "log_start s' = log_start s" "log_size s' = log_size s" "outstanding s' = outstanding s"
    "committing s' = committing s" "log_dev s' = log_dev s" "lh_n s' = lh_n s" "lh_block s' = lh_block s"
    "disksize s' = disksize s" "held s' = held s" "log_wf s' = log_wf s"
  using assms by (auto simp: bframe_def log_wf_def)

lemma bobs_sel [simp]:
  "o_view (bobs s) = view s" "o_disk (bobs s) = memdisk s" "o_writes (bobs s) = dwrites s"
  "o_dirty (bobs s) = dblocks s" "o_size (bobs s) = disksize s"
  by (simp_all add: bobs_def)

text \<open>Room in the cache for the blocks \<open>tail, ..., tail + k - 1\<close> of the transaction.\<close>

definition log_room :: "nat \<Rightarrow> nat \<Rightarrow> 'a log_st_scheme \<Rightarrow> bool" where
  "log_room tail k s \<longleftrightarrow> card (dblocks s) < NBUF \<and>
     (\<forall>i. tail \<le> i \<longrightarrow> i < tail + k \<longrightarrow> lh_block s ! i \<in> dblocks s \<or> Suc (card (dblocks s)) < NBUF)"

lemma finite_dblocks [simp]: "finite (dblocks s)"
  by (simp add: dblocks_def)

lemma log_room_Suc:
  assumes "log_room tail (Suc k) s" "lh_block s' = lh_block s" "dblocks s' = dblocks s - B"
    "B \<subseteq> {lh_block s ! tail} \<or> B \<inter> dblocks s = {}"
  shows "log_room (Suc tail) k s'"
proof -
  let ?b = "lh_block s ! tail"
  have c: "card (dblocks s') \<le> card (dblocks s)" using assms(3) by (simp add: card_mono)
  have "lh_block s ! i \<in> dblocks s' \<or> Suc (card (dblocks s')) < NBUF" if i: "Suc tail \<le> i" "i < Suc tail + k" for i
  proof (cases "Suc (card (dblocks s)) < NBUF")
    case False
    then have mem: "lh_block s ! i \<in> dblocks s" "?b \<in> dblocks s"
      using assms(1) i by (auto simp: log_room_def)
    show ?thesis
    proof (cases "lh_block s ! i \<in> B")
      case True
      then have "lh_block s ! i = ?b" "B = {?b}" using assms(4) mem by auto
      then have "Suc (card (dblocks s')) = card (dblocks s)"
        using mem(2) assms(3) card_Suc_Diff1 [of "dblocks s" ?b] by simp
      then show ?thesis using assms(1) by (simp add: log_room_def)
    qed (use mem assms(3) in simp)
  qed (use c in simp)
  then show ?thesis using assms(1,2) c by (auto simp: log_room_def)
qed

lemma install_step:
  assumes co: "bcoh {} s" and wf: "log_wf s" and t: "tail < nat (lh_n s)" and rm: "log_room tail (Suc k) s"
  obtains s1 where "install_from tail (Suc k) s = install_from (Suc tail) k s1" "bcoh {} s1" "bframe s s1"
    "bobs s1 = obs_writes [(lh_block s ! tail, view s (log_start s + of_nat tail + 1))] (bobs s)"
proof -
  let ?a = "log_start s + of_nat tail + 1" and ?b = "lh_block s ! tail"
  have tl: "tail < LOGSIZE" and tz: "int tail + 1 < log_size s" using t wf unfolding log_wf_def by linarith+
  have b: "?b < disksize s" "?b \<notin> log_region (log_start s) (log_size s)" using wf t by (auto simp: log_wf_def)
  let ?rd2 = "\<lambda>s. bind_r (lh_get tail s) (\<lambda>b. bread (log_dev s) b s)"
  have rd2: "?rd2 s' = bread 1 ?b s'" if "bframe s s'" for s'
    using bframe_log [OF that] tl wf by (simp add: lh_get_def log_wf_def)
  have ne: "?a \<noteq> ?b" using b(2) log_regionI(1) [OF tz, of "log_start s"] by auto
  have cap: "card (dblocks s) < NBUF" "Suc (card (dblocks s)) < NBUF \<or> ?b \<in> dblocks s"
    using rm by (auto simp: log_room_def)
  obtain s1 where s1: "bind_r (bread 1 ?a s) (\<lambda>(i, s). bind_r (?rd2 s) (\<lambda>(j, s).
      bind_r (bwrite j (set_data j (bdata (bufs s i)) s)) (\<lambda>s. bind_r (brelse i s) (brelse j)))) = Inr s1"
    "bcoh {} s1" "bframe s s1"
    "bobs s1 = (bobs s)\<lparr>o_view := (view s)(?b := view s ?a), o_disk := (memdisk s)(?b := view s ?a),
      o_writes := dwrites s @ [(?b, view s ?a)], o_dirty := dblocks s - {?b}\<rparr>"
    using bc.copy_src_first [OF co, of ?a ?b ?rd2] log_block_in_range(1) [OF wf tz] b ne cap rd2 by auto
  have dev: "log_dev s = 1" using wf by (simp add: log_wf_def)
  have "install_from tail (Suc k) s = bind_r (Inr s1) (install_from (Suc tail) k)"
    unfolding s1(1) [symmetric] by (simp add: dev bind_r_assoc case_prod_unfold)
  then show ?thesis using that [of s1] s1 by (simp add: obs_writes_def)
qed

lemma write_step:
  assumes co: "bcoh {} s" and wf: "log_wf s" and t: "tail < nat (lh_n s)" and rm: "log_room tail (Suc k) s"
  obtains s1 where "write_from tail (Suc k) s = write_from (Suc tail) k s1" "bcoh {} s1" "bframe s s1"
    "bobs s1 = obs_writes [(log_start s + of_nat tail + 1, view s (lh_block s ! tail))] (bobs s)"
proof -
  let ?b = "log_start s + of_nat tail + 1" and ?a = "lh_block s ! tail"
  have tl: "tail < LOGSIZE" and tz: "int tail + 1 < log_size s" using t wf unfolding log_wf_def by linarith+
  have a: "?a < disksize s" "?a \<notin> log_region (log_start s) (log_size s)" using wf t by (auto simp: log_wf_def)
  let ?rd2 = "\<lambda>s. bind_r (lh_get tail s) (\<lambda>b. bread (log_dev s) b s)"
  have rd2: "?rd2 s' = bread 1 ?a s'" if "bframe s s'" for s'
    using bframe_log [OF that] tl wf by (simp add: lh_get_def log_wf_def)
  have ne: "?a \<noteq> ?b" using a(2) log_regionI(1) [OF tz, of "log_start s"] by auto
  have cap: "card (dblocks s) < NBUF" "Suc (card (dblocks s)) < NBUF \<or> ?a \<in> dblocks s"
    using rm by (auto simp: log_room_def)
  obtain s1 where s1: "bind_r (bread 1 ?b s) (\<lambda>(j, s). bind_r (?rd2 s) (\<lambda>(i, s).
      bind_r (bwrite j (set_data j (bdata (bufs s i)) s)) (\<lambda>s. bind_r (brelse i s) (brelse j)))) = Inr s1"
    "bcoh {} s1" "bframe s s1"
    "bobs s1 = (bobs s)\<lparr>o_view := (view s)(?b := view s ?a), o_disk := (memdisk s)(?b := view s ?a),
      o_writes := dwrites s @ [(?b, view s ?a)], o_dirty := dblocks s - {?b}\<rparr>"
    using bc.copy_dst_first [OF co, of ?a ?b ?rd2] log_block_in_range(1) [OF wf tz] a ne cap rd2 by auto
  have dev: "log_dev s = 1" using wf by (simp add: log_wf_def)
  have "write_from tail (Suc k) s = bind_r (Inr s1) (write_from (Suc tail) k)"
    unfolding s1(1) [symmetric] by (simp add: dev bind_r_assoc case_prod_unfold)
  then show ?thesis using that [of s1] s1 by (simp add: obs_writes_def)
qed

lemma bobsD:
  assumes "bobs s' = obs_writes ws (bobs s)"
  shows "view s' = apply_writes ws (view s)" "memdisk s' = apply_writes ws (memdisk s)"
    "dwrites s' = dwrites s @ ws" "dblocks s' = dblocks s - fst ` set ws"
  using arg_cong [OF assms, of o_view] arg_cong [OF assms, of o_disk]
    arg_cong [OF assms, of o_writes] arg_cong [OF assms, of o_dirty]
  by (simp_all add: obs_writes_def)

lemma install_ok:
  assumes "bcoh {} s" "log_wf s" "tail + k \<le> nat (lh_n s)" "log_room tail k s"
  shows "\<exists>s'. install_from tail k s = Inr s' \<and> bcoh {} s' \<and> bframe s s' \<and>
    bobs s' = obs_writes (map (\<lambda>i. (lh_block s ! i, view s (log_start s + of_nat i + 1))) [tail..<tail + k]) (bobs s)"
  using assms
proof (induction k arbitrary: tail s)
  case 0
  then show ?case using bframe_refl by auto
next
  case (Suc k)
  let ?b = "lh_block s ! tail"
  obtain s1 where s1: "install_from tail (Suc k) s = install_from (Suc tail) k s1" "bcoh {} s1" "bframe s s1"
    "bobs s1 = obs_writes [(?b, view s (log_start s + of_nat tail + 1))] (bobs s)"
    using install_step [OF Suc.prems(1,2) _ Suc.prems(4)] Suc.prems(3) by auto
  note fr = bframe_log [OF s1(3)]
  have d1: "dblocks s1 = dblocks s - {?b}" and v1: "view s1 = (view s)(?b := view s (log_start s + of_nat tail + 1))"
    using bobsD [OF s1(4)] by simp_all
  have "log_room (Suc tail) k s1" by (rule log_room_Suc [OF Suc.prems(4) fr(7) d1]) simp
  then obtain s' where s': "install_from (Suc tail) k s1 = Inr s'" "bcoh {} s'" "bframe s1 s'"
    "bobs s' = obs_writes (map (\<lambda>i. (lh_block s1 ! i, view s1 (log_start s1 + of_nat i + 1)))
      [Suc tail..<Suc tail + k]) (bobs s1)"
    using Suc.IH [OF s1(2), of "Suc tail"] Suc.prems(2,3) fr by auto
  have "view s1 (log_start s + of_nat i + 1) = view s (log_start s + of_nat i + 1)" if "i < tail + Suc k" for i
  proof -
    have "int i + 1 < log_size s" "?b \<notin> log_region (log_start s) (log_size s)"
      using that Suc.prems(2,3) unfolding log_wf_def by (linarith, auto)
    then have "log_start s + of_nat i + 1 \<noteq> ?b" using log_regionI(1) [of i "log_size s" "log_start s"] by metis
    then show ?thesis using v1 by simp
  qed
  then have m: "map (\<lambda>i. (lh_block s1 ! i, view s1 (log_start s1 + of_nat i + 1))) [Suc tail..<Suc tail + k] =
      map (\<lambda>i. (lh_block s ! i, view s (log_start s + of_nat i + 1))) [Suc tail..<Suc tail + k]"
    using fr by auto
  have u: "[tail..<tail + Suc k] = tail # [Suc tail..<Suc tail + k]" by (simp add: upt_conv_Cons)
  have "bobs s' = obs_writes (map (\<lambda>i. (lh_block s ! i, view s (log_start s + of_nat i + 1)))
      [tail..<tail + Suc k]) (bobs s)"
    unfolding s'(4) m s1(4) u list.map by (rule obs_writes_Cons [symmetric])
  then show ?case using s1(1) s'(1,2) bframe_trans [OF s1(3) s'(3)] by auto
qed

lemma write_ok:
  assumes "bcoh {} s" "log_wf s" "tail + k \<le> nat (lh_n s)" "log_room tail k s"
    "dblocks s \<inter> log_region (log_start s) (log_size s) = {}"
  shows "\<exists>s'. write_from tail k s = Inr s' \<and> bcoh {} s' \<and> bframe s s' \<and>
    bobs s' = obs_writes (map (\<lambda>i. (log_start s + of_nat i + 1, view s (lh_block s ! i))) [tail..<tail + k]) (bobs s)"
  using assms
proof (induction k arbitrary: tail s)
  case 0
  then show ?case using bframe_refl by auto
next
  case (Suc k)
  let ?b = "log_start s + of_nat tail + 1"
  obtain s1 where s1: "write_from tail (Suc k) s = write_from (Suc tail) k s1" "bcoh {} s1" "bframe s s1"
    "bobs s1 = obs_writes [(?b, view s (lh_block s ! tail))] (bobs s)"
    using write_step [OF Suc.prems(1,2) _ Suc.prems(4)] Suc.prems(3) by auto
  note fr = bframe_log [OF s1(3)]
  have d1: "dblocks s1 = dblocks s - {?b}" and v1: "view s1 = (view s)(?b := view s (lh_block s ! tail))"
    using bobsD [OF s1(4)] by simp_all
  have lt: "int i + 1 < log_size s" if "i < tail + Suc k" for i
    using that Suc.prems(2,3) unfolding log_wf_def by linarith
  have "?b \<in> log_region (log_start s) (log_size s)" by (rule log_regionI) (simp add: lt)
  then have "{?b} \<inter> dblocks s = {}" using Suc.prems(5) by auto
  then have "log_room (Suc tail) k s1" by (intro log_room_Suc [OF Suc.prems(4) fr(7) d1]) simp
  then obtain s' where s': "write_from (Suc tail) k s1 = Inr s'" "bcoh {} s'" "bframe s1 s'"
    "bobs s' = obs_writes (map (\<lambda>i. (log_start s1 + of_nat i + 1, view s1 (lh_block s1 ! i)))
      [Suc tail..<Suc tail + k]) (bobs s1)"
    using Suc.IH [OF s1(2), of "Suc tail"] Suc.prems(2,3,5) fr d1 by auto
  have "view s1 (lh_block s ! i) = view s (lh_block s ! i)" if "i < tail + Suc k" for i
  proof -
    have "lh_block s ! i \<notin> log_region (log_start s) (log_size s)"
      using that Suc.prems(2,3) unfolding log_wf_def by auto
    then have "lh_block s ! i \<noteq> ?b" using \<open>?b \<in> log_region (log_start s) (log_size s)\<close> by metis
    then show ?thesis using v1 by simp
  qed
  then have m: "map (\<lambda>i. (log_start s1 + of_nat i + 1, view s1 (lh_block s1 ! i))) [Suc tail..<Suc tail + k] =
      map (\<lambda>i. (log_start s + of_nat i + 1, view s (lh_block s ! i))) [Suc tail..<Suc tail + k]"
    using fr by auto
  have u: "[tail..<tail + Suc k] = tail # [Suc tail..<Suc tail + k]" by (simp add: upt_conv_Cons)
  have "bobs s' = obs_writes (map (\<lambda>i. (log_start s + of_nat i + 1, view s (lh_block s ! i)))
      [tail..<tail + Suc k]) (bobs s)"
    unfolding s'(4) m s1(4) u list.map by (rule obs_writes_Cons [symmetric])
  then show ?case using s1(1) s'(1,2) bframe_trans [OF s1(3) s'(3)] by auto
qed

lemma write_head_ok:
  assumes co: "bcoh {} s" and wf: "log_wf s" and rm: "card (dblocks s) < NBUF"
  shows "\<exists>s'. write_head s = Inr s' \<and> bcoh {} s' \<and> bframe s s' \<and>
    bobs s' = obs_writes [(log_start s, put_header (lh_n s) (lh_block s) (view s (log_start s)))] (bobs s)"
proof -
  let ?f = "put_header (lh_n s) (lh_block s)"
  have dev: "log_dev s = 1" and n: "0 \<le> lh_n s" "lh_n s \<le> int LOGSIZE" "length (lh_block s) = LOGSIZE"
    using wf by (auto simp: log_wf_def)
  have "length (?f (o_view (bobs s) (log_start s))) = BSIZE"
    using put_header_facts(1) [OF _ n(1,2)] n bc.view_len [OF co] by simp
  moreover have "(\<lambda>d. put_header (lh_n s') (lh_block s') d) = ?f" if "bframe s s'" for s'
    using bframe_log [OF that] by simp
  ultimately show ?thesis
    using bc.modify_release [OF co, of "log_start s" "\<lambda>s d. put_header (lh_n s) (lh_block s) d" ?f]
      log_block_in_range(2) [OF wf] rm
    by (simp add: write_head_def dev Let_def obs_writes_def)
qed

lemma log_fields [simp]:
  "bcoh H (s\<lparr>lh_n := n\<rparr>) = bcoh H s" "bobs (s\<lparr>lh_n := n\<rparr>) = bobs s"
  "bcoh H (s\<lparr>lh_block := bs\<rparr>) = bcoh H s" "bobs (s\<lparr>lh_block := bs\<rparr>) = bobs s"
  "bcoh H (s\<lparr>committing := c\<rparr>) = bcoh H s" "bobs (s\<lparr>committing := c\<rparr>) = bobs s"
  "bcoh H (s\<lparr>outstanding := k\<rparr>) = bcoh H s" "bobs (s\<lparr>outstanding := k\<rparr>) = bobs s"
  by (rule bcoh_cong bobs_cong; simp)+

lemma view_fields [simp]:
  "view (s\<lparr>lh_n := n\<rparr>) = view s" "view (s\<lparr>lh_block := bs\<rparr>) = view s"
  "view (s\<lparr>committing := c\<rparr>) = view s" "view (s\<lparr>outstanding := k\<rparr>) = view s"
  by (rule view_cong; simp)+

lemma dblocks_fields [simp]:
  "dblocks (s\<lparr>lh_n := n\<rparr>) = dblocks s" "dblocks (s\<lparr>lh_block := bs\<rparr>) = dblocks s"
  "dblocks (s\<lparr>committing := c\<rparr>) = dblocks s" "dblocks (s\<lparr>outstanding := k\<rparr>) = dblocks s"
  by (simp_all add: dblocks_def)

lemma put_header_take: "put_header n (take (nat n) bs) d = put_header n bs d"
  by (simp add: put_header_def)

section \<open>Commit\<close>

text \<open>
  The state between the operations of a transaction: every logged block is in the cache and dirty,
  and the header on the disk is empty. The log has at most \<open>LOGSIZE\<close> blocks, as \<open>mkfs\<close> lays it out, so
  the recorded blocks leave one of the \<open>NBUF\<close> buffers free. \<open>H\<close> is the set of buffers the running
  process holds.
\<close>

definition logged :: "'a log_st_scheme \<Rightarrow> u32 list" where
  "logged s = take (nat (lh_n s)) (lh_block s)"

definition tx_inv :: "nat set \<Rightarrow> 'a log_st_scheme \<Rightarrow> bool" where
  "tx_inv H s \<longleftrightarrow> bcoh H s \<and> log_wf s \<and> dblocks s = set (logged s) \<and> distinct (logged s) \<and>
     log_size s \<le> int LOGSIZE \<and> hdr_n (memdisk s (log_start s)) = 0 \<and>
     LK_log \<notin> set (held s)"

definition commit_writes :: "u32 \<Rightarrow> u32 list \<Rightarrow> (u32 \<Rightarrow> u8 list) \<Rightarrow> (u32 \<times> u8 list) list" where
  "commit_writes st bs V =
     (let n = length bs; h = put_header (int n) bs (V st) in
      map (\<lambda>i. (st + of_nat i + 1, V (bs ! i))) [0..<n] @ [(st, h)] @
      map (\<lambda>i. (bs ! i, V (bs ! i))) [0..<n] @ [(st, put_header 0 bs h)])"

lemma logged_facts:
  assumes "tx_inv H s"
  shows "length (logged s) = nat (lh_n s)" "int (length (logged s)) < log_size s" "int (length (logged s)) = lh_n s"
    "i < length (logged s) \<Longrightarrow> logged s ! i = lh_block s ! i"
    "b \<in> set (logged s) \<Longrightarrow> b \<notin> log_region (log_start s) (log_size s)"
    "card (dblocks s) < NBUF" "dblocks s \<inter> log_region (log_start s) (log_size s) = {}"
    "length (logged s) \<le> LOGSIZE" "0 < log_size s"
proof -
  have wf: "log_wf s" and n: "0 \<le> lh_n s" "lh_n s < log_size s" "log_size s \<le> int LOGSIZE" "length (lh_block s) = LOGSIZE"
    using assms by (auto simp: tx_inv_def log_wf_def)
  show l: "length (logged s) = nat (lh_n s)" "int (length (logged s)) < log_size s" "int (length (logged s)) = lh_n s"
    using n by (auto simp: logged_def)
  show "length (logged s) \<le> LOGSIZE" "0 < log_size s" using l n by auto
  show "i < length (logged s) \<Longrightarrow> logged s ! i = lh_block s ! i" by (simp add: logged_def)
  show r: "b \<notin> log_region (log_start s) (log_size s)" if "b \<in> set (logged s)" for b
    using that wf l by (auto simp: in_set_conv_nth logged_def log_wf_def)
  have "card (dblocks s) \<le> length (logged s)" using assms card_length by (auto simp: tx_inv_def)
  then show "card (dblocks s) < NBUF" using l(2) n(3) by (simp add: LOGSIZE_def MAXOPBLOCKS_def NBUF_def)
  show "dblocks s \<inter> log_region (log_start s) (log_size s) = {}" using assms r by (auto simp: tx_inv_def)
qed

lemma apply_writes_inj:
  assumes "inj_on k (set is)" "j \<in> set is"
  shows "apply_writes (map (\<lambda>i. (k i, d i)) is) D (k j) = d j"
  using assms
proof (induction "is" rule: rev_induct)
  case (snoc i "is")
  show ?case
  proof (cases "j = i")
    case False
    then have "k j \<noteq> k i" using snoc.prems unfolding inj_on_def by auto
    then show ?thesis using snoc False by simp
  qed simp
qed simp

lemma fst_map_pair: "fst ` set (map (\<lambda>i. (k i, d i)) is) = k ` set is"
  by (simp add: image_image)

text \<open>The header and the logged copies after \<open>write_log\<close> and \<open>write_head\<close>.\<close>

definition log_phase :: "u32 \<Rightarrow> u32 list \<Rightarrow> (u32 \<Rightarrow> u8 list) \<Rightarrow> (u32 \<times> u8 list) list" where
  "log_phase st bs V = map (\<lambda>i. (st + of_nat i + 1, V (bs ! i))) [0..<length bs]"

lemma log_phase_keys: "int (length bs) < sz \<Longrightarrow> fst ` set (log_phase st bs V) \<subseteq> log_region st sz"
  by (auto simp: log_phase_def intro!: log_regionI(1))

lemma log_phase_start:
  assumes "log_wf s" "int (length bs) < log_size s"
  shows "apply_writes (log_phase (log_start s) bs V) D (log_start s) = D (log_start s)"
proof (rule apply_writes_other)
  have "log_start s + of_nat i + 1 \<noteq> log_start s" if "i < length bs" for i
    using log_block_not_start [OF assms(1)] that assms(2) by simp
  then show "log_start s \<notin> fst ` set (log_phase (log_start s) bs V)"
    unfolding log_phase_def fst_map_pair by auto
qed

lemma log_phase_copy:
  assumes "log_wf s" "int (length bs) < log_size s" "i < length bs"
  shows "apply_writes (log_phase (log_start s) bs V) D (log_start s + of_nat i + 1) = V (bs ! i)"
  unfolding log_phase_def
  by (rule apply_writes_inj) (use assms log_block_inj [OF assms(1)] in \<open>auto intro!: inj_onI\<close>)

lemma bframe_lh_n:
  assumes "bframe s s'"
  shows "bframe (s\<lparr>lh_n := n\<rparr>) (s'\<lparr>lh_n := n\<rparr>)"
proof -
  obtain t p m w where e: "s' = s\<lparr>bufs := t, ptable := p, memdisk := m, dwrites := w\<rparr>"
    using assms by (auto simp: bframe_def)
  show ?thesis
    by (rule bframeI [where t = t and p = p and m = m and w = w], rule log_st.equality) (simp_all add: e)
qed

lemma commit_ok:
  assumes inv: "tx_inv {} s" and pos: "lh_n s > 0"
  obtains s' where "commit s = Inr s'" "bcoh {} s'" "bframe (s\<lparr>lh_n := 0\<rparr>) s'"
    "bobs s' = obs_writes (commit_writes (log_start s) (logged s) (view s)) (bobs s)"
proof -
  note lf = logged_facts [OF inv]
  have co: "bcoh {} s" and wf: "log_wf s" and db: "dblocks s = set (logged s)"
    using inv by (auto simp: tx_inv_def)
  let ?st = "log_start s" and ?bs = "logged s" and ?n = "length (logged s)"
  let ?h = "put_header (int ?n) ?bs (view s ?st)"
  have n: "nat (lh_n s) = ?n" "lh_n s = int ?n" using lf(1,3) by simp_all
  have mem: "lh_block s ! i \<in> dblocks s" if "i < ?n" for i
    using that lf(4) db by (metis nth_mem)
  have rm: "log_room 0 ?n s" using lf(6) mem by (simp add: log_room_def)
  have "map (\<lambda>i. (?st + of_nat i + 1, view s (lh_block s ! i))) [0..<0 + ?n] = log_phase ?st ?bs (view s)"
    using lf(4) by (simp add: log_phase_def)
  then obtain s1 where s1: "write_log s = Inr s1" "bcoh {} s1" "bframe s s1"
    "bobs s1 = obs_writes (log_phase ?st ?bs (view s)) (bobs s)"
    using write_ok [OF co wf _ rm lf(7)] n by (auto simp: write_log_def)
  note f1 = bframe_log [OF s1(3)] and o1 = bobsD [OF s1(4)]
  have keys: "fst ` set (log_phase ?st ?bs (view s)) \<subseteq> log_region ?st (log_size s)"
    using log_phase_keys lf(2) by simp
  have d1: "dblocks s1 = dblocks s" using o1(4) keys lf(7) by auto
  have v1: "view s1 ?st = view s ?st" using log_phase_start [OF wf] o1(1) lf(2) by simp
  have hb: "put_header (lh_n s) (lh_block s) (view s ?st) = ?h"
    unfolding lf(3) by (simp add: put_header_take logged_def)
  obtain s2 where s2: "write_head s1 = Inr s2" "bcoh {} s2" "bframe s1 s2"
    "bobs s2 = obs_writes [(?st, ?h)] (bobs s1)"
    using write_head_ok [OF s1(2)] wf lf(6) d1 f1 v1 hb by auto
  note f2 = bframe_log [OF s2(3)] and o2 = bobsD [OF s2(4)]
  have "?st \<in> log_region ?st (log_size s)" using lf(9) by (rule log_regionI)
  then have d2: "dblocks s2 = dblocks s" and st: "?st \<notin> set ?bs" using o2(4) d1 lf(5,7) by auto
  have v2: "view s2 (?st + of_nat i + 1) = view s (?bs ! i)" if "i < ?n" for i
  proof -
    have "?st + of_nat i + 1 \<noteq> ?st" using log_block_not_start [OF wf] that lf(2) by simp
    then show ?thesis using o2(1) o1(1) log_phase_copy [OF wf _ that, of "view s"] lf(2) by simp
  qed
  have rm2: "log_room 0 ?n s2" using lf(6) mem d2 f2(7) f1(7) by (simp add: log_room_def)
  have m2: "map (\<lambda>i. (lh_block s2 ! i, view s2 (log_start s2 + of_nat i + 1))) [0..<0 + ?n] =
      map (\<lambda>i. (?bs ! i, view s (?bs ! i))) [0..<?n]"
    using v2 lf(4) f1 f2 by simp
  have "log_wf s2" "0 + ?n \<le> nat (lh_n s2)" "nat (lh_n s2) = ?n" using wf f1(6,10) f2(6,10) n(1) by simp_all
  then obtain s3 where s3: "install_trans s2 = Inr s3" "bcoh {} s3" "bframe s2 s3"
    "bobs s3 = obs_writes (map (\<lambda>i. (?bs ! i, view s (?bs ! i))) [0..<?n]) (bobs s2)"
    using install_ok [OF s2(2) _ _ rm2] unfolding m2 install_trans_def by auto
  note f3 = bframe_log [OF s3(3)] and o3 = bobsD [OF s3(4)]
  have v3: "view s3 ?st = ?h"
    using st o3(1) o2(1) by (subst o3(1), subst apply_writes_other) (auto simp: image_image)
  let ?s3 = "s3\<lparr>lh_n := 0\<rparr>"
  have wf3: "log_wf ?s3" using wf f1 f2 f3 by (simp add: log_wf_def)
  have "card (dblocks s3) \<le> card (dblocks s2)" using o3(4) by (simp add: card_mono)
  then have "\<exists>s'. write_head ?s3 = Inr s' \<and> bcoh {} s' \<and> bframe ?s3 s' \<and>
    bobs s' = obs_writes [(?st, put_header 0 (lh_block s) ?h)] (bobs s3)"
    using write_head_ok [of ?s3] s3(2) wf3 d2 lf(6) v3 f1 f2 f3 by simp
  then obtain s' where s': "write_head ?s3 = Inr s'" "bcoh {} s'" "bframe ?s3 s'"
    "bobs s' = obs_writes [(?st, put_header 0 ?bs ?h)] (bobs s3)"
    by (auto simp: put_header_def)
  have "bframe s s3" using s1(3) s2(3) s3(3) by (meson bframe_trans)
  then have "bframe (s\<lparr>lh_n := 0\<rparr>) ?s3" by (rule bframe_lh_n)
  then have "bframe (s\<lparr>lh_n := 0\<rparr>) s'" using s'(3) by (rule bframe_trans)
  moreover have "bobs s' = obs_writes (commit_writes ?st ?bs (view s)) (bobs s)"
    unfolding s'(4) s3(4) s2(4) s1(4) commit_writes_def Let_def log_phase_def
    by (simp only: obs_writes_append)
  moreover have "commit s = Inr s'" using pos s1(1) s2(1) s3(1) s'(1) by (simp add: commit_def)
  ultimately show ?thesis using that s'(2) by blast
qed

section \<open>Crash safety of commit\<close>

lemma log_region_header:
  assumes "b \<notin> log_region st sz" "0 < sz"
  shows "b \<noteq> st"
  using assms log_regionI(2) by auto

text \<open>The writes of a commit: copies to the log, header, installation, empty header.\<close>

definition home_phase :: "u32 list \<Rightarrow> (u32 \<Rightarrow> u8 list) \<Rightarrow> (u32 \<times> u8 list) list" where
  "home_phase bs V = map (\<lambda>i. (bs ! i, V (bs ! i))) [0..<length bs]"

definition full_header :: "u32 \<Rightarrow> u32 list \<Rightarrow> (u32 \<Rightarrow> u8 list) \<Rightarrow> u8 list" where
  "full_header st bs V = put_header (int (length bs)) bs (V st)"

lemma home_phase_keys: "fst ` set (home_phase bs V) = set bs"
  unfolding home_phase_def fst_map_pair by (metis map_nth set_map)

lemma home_phase_out: "b \<notin> set bs \<Longrightarrow> apply_writes (take j (home_phase bs V)) E b = E b"
  using home_phase_keys [of bs V] by (intro apply_writes_other) (auto dest!: in_set_takeD)

lemma home_phase_all: "apply_writes (home_phase bs V) E b = (if b \<in> set bs then V b else E b)"
proof -
  have "d = V c" if "(c, d) \<in> set (home_phase bs V)" for c d using that by (auto simp: home_phase_def)
  from apply_writes_fun [OF this] show ?thesis by (simp add: home_phase_keys)
qed

lemma log_phase_out:
  "\<lbrakk>int (length bs) < sz; b \<notin> log_region st sz\<rbrakk> \<Longrightarrow> apply_writes (take j (log_phase st bs V)) E b = E b"
  using log_phase_keys [of bs sz st V] by (intro apply_writes_other) (auto dest!: in_set_takeD)

lemma log_phase_take_start:
  "\<lbrakk>log_wf s; int (length bs) < log_size s\<rbrakk> \<Longrightarrow>
   apply_writes (take j (log_phase (log_start s) bs V)) E (log_start s) = E (log_start s)"
  using log_block_not_start [of s]
  by (intro apply_writes_other) (auto simp: log_phase_def dest!: in_set_takeD)

lemma commit_prefix_cases:
  fixes bs :: "u32 list" and st :: u32 and V D :: "u32 \<Rightarrow> u8 list" and k :: nat
  defines "A \<equiv> log_phase st bs V" and "C \<equiv> home_phase bs V" and "h \<equiv> full_header st bs V"
  defines "D' \<equiv> apply_writes (take k (commit_writes st bs V)) D"
  obtains "D' = apply_writes (take k A) D"
  | j where "D' = apply_writes (take j C) ((apply_writes A D)(st := h))"
  | "D' = (apply_writes C ((apply_writes A D)(st := h)))(st := put_header 0 bs h)"
proof -
  let ?n = "length bs"
  have W: "commit_writes st bs V = A @ [(st, h)] @ C @ [(st, put_header 0 bs h)]"
    by (simp add: commit_writes_def A_def C_def h_def log_phase_def home_phase_def full_header_def Let_def)
  have l: "length A = ?n" "length C = ?n" by (simp_all add: A_def C_def log_phase_def home_phase_def)
  consider "k \<le> ?n" | j where "k = Suc (?n + j)" "j \<le> ?n" | "k > Suc (?n + ?n)"
    by (metis add_Suc_right less_imp_Suc_add not_le not_less_eq_eq add_le_cancel_left)
  then show ?thesis
  proof cases
    case 1
    then show ?thesis using that(1) l by (simp add: D'_def W)
  next
    case 2
    then show ?thesis using that(2) [of j] l by (simp add: D'_def W)
  next
    case 3
    then show ?thesis using that(3) l by (simp add: D'_def W)
  qed
qed

text \<open>The header found on the disk after a crash is the old one, the full one or the empty one.\<close>

lemma commit_prefix_header:
  fixes s :: "'a log_st_scheme"
  assumes "log_wf s" "int (length bs) < log_size s" "log_start s \<notin> set bs"
  defines "st \<equiv> log_start s"
  shows "apply_writes (take k (commit_writes st bs V)) D st \<in>
    {D st, full_header st bs V, put_header 0 bs (full_header st bs V)}"
  using log_phase_take_start [OF assms(1,2)] home_phase_out assms(3) unfolding st_def
  by (cases rule: commit_prefix_cases [of k "log_start s" bs V D]) auto

lemma full_header_facts:
  assumes "length (V st) = BSIZE" "length bs \<le> LOGSIZE"
  shows "length (full_header st bs V) = BSIZE" "hdr_n (full_header st bs V) = int (length bs)"
    "i < length bs \<Longrightarrow> hdr_block (full_header st bs V) i = bs ! i"
    "hdr_n (put_header 0 bs (full_header st bs V)) = 0"
proof -
  show l: "length (full_header st bs V) = BSIZE" "hdr_n (full_header st bs V) = int (length bs)"
    "i < length bs \<Longrightarrow> hdr_block (full_header st bs V) i = bs ! i"
    using put_header_facts [OF assms(1), of "int (length bs)" bs] assms(2) by (auto simp: full_header_def)
  show "hdr_n (put_header 0 bs (full_header st bs V)) = 0" using put_header_facts(2) [OF l(1), of 0 bs] by simp
qed

lemma installing_recovers_new:
  fixes s :: "'a log_st_scheme" and V D :: "u32 \<Rightarrow> u8 list" and j :: nat
  assumes wf: "log_wf s" and n: "length bs \<le> LOGSIZE" "int (length bs) < log_size s" and out: "set bs \<inter> log_region (log_start s) (log_size s) = {}"
    and len: "length (V (log_start s)) = BSIZE" and b: "b \<notin> log_region (log_start s) (log_size s)"
    and same: "b \<notin> set bs \<Longrightarrow> V b = D b"
  defines "st \<equiv> log_start s"
  defines "D' \<equiv> apply_writes (take j (home_phase bs V)) ((apply_writes (log_phase st bs V) D)(st := full_header st bs V))"
  shows "recover_disk st D' b = V b"
proof -
  have sz: "0 < log_size s" using n(2) by simp
  have st_bs: "st \<notin> set bs" using out log_regionI(2) [OF sz, of st] by (auto simp: st_def)
  have log_bs: "st + of_nat i + 1 \<notin> set bs" if "i < length bs" for i
    using out n(2) that log_regionI(1) [of i "log_size s" st] by (auto simp: st_def)
  have hd: "D' st = full_header st bs V" using home_phase_out [OF st_bs] by (simp add: D'_def)
  note hf = full_header_facts [of V st bs, unfolded st_def, OF len n(1), folded st_def]
  have cp: "D' (st + of_nat i + 1) = V (hdr_block (D' st) i)" if "i < length bs" for i
    using home_phase_out [OF log_bs [OF that]] log_block_not_start [OF wf, of i] log_phase_copy [OF wf n(2) that]
      that n(2) hd hf(3) by (simp add: st_def D'_def)
  have hb: "hdr_block (D' st) ` {..<length bs} = set bs"
    using hf(3) hd by (auto simp: in_set_conv_nth image_iff)
  have "D' b = D b" if "b \<notin> set bs"
    using home_phase_out [OF that] log_phase_out [OF n(2) b, of "length bs" V D] log_region_header [OF b sz]
    by (simp add: D'_def st_def log_phase_def)
  then show ?thesis
    using recovery_committed [of D' st "length bs" b V] hd hf(2) log_region_header [OF b sz] cp hb same by (simp add: st_def)
qed

lemma commit_prefix:
  fixes s :: "'a log_st_scheme" and D V :: "u32 \<Rightarrow> u8 list" and bs :: "u32 list" and k :: nat
  assumes wf: "log_wf s" and n: "length bs \<le> LOGSIZE" "int (length bs) < log_size s" and out: "set bs \<inter> log_region (log_start s) (log_size s) = {}"
    and D: "hdr_n (D (log_start s)) = 0" and len: "length (V (log_start s)) = BSIZE"
    and same: "\<And>b. b \<notin> log_region (log_start s) (log_size s) \<Longrightarrow> b \<notin> set bs \<Longrightarrow> V b = D b"
  defines "st \<equiv> log_start s"
  defines "D' \<equiv> apply_writes (take k (commit_writes st bs V)) D"
  shows "(\<forall>b. b \<notin> log_region st (log_size s) \<longrightarrow> recover_disk st D' b = D b) \<or>
         (\<forall>b. b \<notin> log_region st (log_size s) \<longrightarrow> recover_disk st D' b = V b)"
proof (cases rule: commit_prefix_cases [of k st bs V D, folded D'_def])
  case 1
  then show ?thesis
    using log_phase_take_start [OF wf n(2)] log_phase_out [OF n(2)] recovery_empty [of D' st] D
      log_region_header [of _ "log_start s" "log_size s"] n(2) by (simp add: st_def)
next
  case (2 j)
  then show ?thesis using installing_recovers_new [of s bs V _ D j, OF wf n out len] same by (simp add: st_def)
next
  case 3
  have hd: "b \<noteq> st" if "b \<notin> log_region st (log_size s)" for b using log_region_header [OF that] n(2) by simp
  have "D' b = V b" if "b \<notin> log_region st (log_size s)" for b
    using 3 log_phase_out [OF n(2) that, of "length bs" V D] home_phase_all hd [OF that] same that
    by (simp add: st_def log_phase_def)
  then show ?thesis
    using recovery_empty [of D' st] 3 full_header_facts(4) [of V "log_start s" bs, OF len n(1)] hd by (simp add: st_def)
qed

section \<open>Recovery\<close>

text \<open>A machine that has just booted: nothing is cached dirty, and the header on the disk is one that
  \<open>commit\<close> can have written.\<close>

definition hdr_ok :: "u32 \<Rightarrow> u32 \<Rightarrow> int \<Rightarrow> u8 list \<Rightarrow> bool" where
  "hdr_ok dsz st sz d \<longleftrightarrow> 0 \<le> hdr_n d \<and> hdr_n d \<le> int LOGSIZE \<and> hdr_n d < sz \<and>
     (\<forall>i < nat (hdr_n d). hdr_block d i < dsz \<and> hdr_block d i \<notin> log_region st sz)"

definition fresh_boot :: "'a log_st_scheme \<Rightarrow> bool" where
  "fresh_boot s \<longleftrightarrow> bcoh {} s \<and> dblocks s = {} \<and> log_dev s = 1 \<and> length (lh_block s) = LOGSIZE \<and>
     0 < log_size s \<and> uint (log_start s) + log_size s \<le> uint (disksize s)"

definition boot_ok :: "'a log_st_scheme \<Rightarrow> bool" where
  "boot_ok s \<longleftrightarrow> fresh_boot s \<and> hdr_ok (disksize s) (log_start s) (log_size s) (memdisk s (log_start s))"

lemma bcoh_lh [simp]: "bcoh H (s\<lparr>lh_n := n, lh_block := bs\<rparr>) = bcoh H s"
  "bobs (s\<lparr>lh_n := n, lh_block := bs\<rparr>) = bobs s"
  by simp_all

lemma read_head_ok:
  assumes "boot_ok s"
  defines "d \<equiv> memdisk s (log_start s)"
  obtains s' where "read_head s = Inr s'" "bcoh {} s'" "bobs s' = bobs s" "log_wf s'"
    "lh_n s' = hdr_n d" "\<And>i. i < nat (hdr_n d) \<Longrightarrow> lh_block s' ! i = hdr_block d i"
    "log_start s' = log_start s" "log_size s' = log_size s" "held s' = held s"
proof -
  have co: "bcoh {} s" and db: "dblocks s = {}" and dev: "log_dev s = 1"
    and sz: "log_start s < disksize s" and n: "0 \<le> hdr_n d" "hdr_n d \<le> int LOGSIZE" "hdr_n d < log_size s"
    using assms by (auto simp: boot_ok_def fresh_boot_def hdr_ok_def word_less_def)
  have vw: "view s (log_start s) = d" using bc.clean_view [OF co, of "log_start s"] db by (simp add: d_def)
  obtain i s1 where s1: "bread 1 (log_start s) s = Inr (i, s1)" "bcoh {i} s1"
    "blockno (bufs s1 i) = log_start s" "bobs s1 = bobs s" "bframe s s1"
    using bc.rd_law [OF co, of "log_start s"] sz db by (auto simp: NBUF_def)
  note f1 = bframe_log [OF s1(5)]
  have d1: "bdata (bufs s1 i) = d"
    using bc.held_view [OF s1(2), of i] s1(3) arg_cong [OF s1(4), of o_view] vw by simp
  let ?s2 = "s1\<lparr>lh_n := hdr_n d,
       lh_block := map (\<lambda>i. if int i < hdr_n d then hdr_block d i else lh_block s1 ! i) [0..<LOGSIZE]\<rparr>"
  have "bdata (bufs ?s2 i) = memdisk ?s2 (blockno (bufs ?s2 i))"
    using d1 s1(3) arg_cong [OF s1(4), of o_disk] by (simp add: d_def)
  then obtain s' where s': "brelse i ?s2 = Inr s'" "bcoh ({i} - {i}) s'" "bframe ?s2 s'" "bobs s' = bobs ?s2"
    using bc.rel_law [of "{i}" ?s2 i] s1(2) by auto
  note f2 = bframe_log [OF s'(3)]
  show ?thesis
  proof (rule that [of s'])
    show "read_head s = Inr s'" using s1(1) s'(1) d1 dev n by (simp add: read_head_def Let_def cong: if_cong)
    show nb: "lh_block s' ! i = hdr_block d i" if "i < nat (hdr_n d)" for i
    proof -
      have "i < LOGSIZE" "int i < hdr_n d" using that n by linarith+
      then show ?thesis using f2(7) by simp
    qed
    have hd: "\<forall>i < nat (hdr_n d). hdr_block d i < disksize s \<and> hdr_block d i \<notin> log_region (log_start s) (log_size s)"
      "uint (log_start s) + log_size s \<le> uint (disksize s)"
      using assms(1) by (auto simp: boot_ok_def fresh_boot_def hdr_ok_def d_def)
    have e: "log_start s' = log_start s" "disksize s' = disksize s" "lh_n s' = hdr_n d" "log_dev s' = 1"
      "length (lh_block s') = LOGSIZE" "log_size s' = log_size s" using f1(1,2,5,8) f2(1,2,5,6,7,8) dev by simp_all
    show "log_wf s'" unfolding log_wf_def e using hd n nb by simp
  qed (use s' s1(4) f1 f2 in simp_all)
qed

lemma recover_ok:
  assumes boot: "boot_ok s"
  obtains s' where "recover_from_log s = Inr s'" "bcoh {} s'" "lh_n s' = 0" "log_wf s'"
    "log_start s' = log_start s" "log_size s' = log_size s" "held s' = held s"
    "bobs s' = obs_writes (recovery_writes (log_start s) (memdisk s)) (bobs s)"
proof -
  let ?st = "log_start s" and ?d = "memdisk s (log_start s)"
  let ?n = "nat (hdr_n ?d)"
  obtain s1 where s1: "read_head s = Inr s1" "bcoh {} s1" "bobs s1 = bobs s" "log_wf s1"
    "lh_n s1 = hdr_n ?d" "\<And>i. i < ?n \<Longrightarrow> lh_block s1 ! i = hdr_block ?d i" "log_start s1 = ?st"
    "log_size s1 = log_size s" "held s1 = held s"
    using read_head_ok [OF boot] by blast
  have co: "bcoh {} s" and db: "dblocks s = {}" using boot by (auto simp: boot_ok_def fresh_boot_def)
  have vw: "view s b = memdisk s b" for b using bc.clean_view [OF co, of b] db by simp
  have db1: "dblocks s1 = {}" and v1: "view s1 = memdisk s"
    using db vw arg_cong [OF s1(3), of o_dirty] arg_cong [OF s1(3), of o_view] by auto
  have rm: "log_room 0 ?n s1" using db1 by (simp add: log_room_def NBUF_def)
  have m: "map (\<lambda>i. (lh_block s1 ! i, view s1 (log_start s1 + of_nat i + 1))) [0..<0 + ?n] =
      install_writes ?st (memdisk s)"
    using s1(6,7) v1 by (simp add: install_writes_def)
  obtain s2 where s2: "install_trans s1 = Inr s2" "bcoh {} s2" "bframe s1 s2"
    "bobs s2 = obs_writes (install_writes ?st (memdisk s)) (bobs s1)"
    using install_ok [OF s1(2,4) _ rm] s1(5) unfolding m install_trans_def by auto
  note f2 = bframe_log [OF s2(3)] and o2 = bobsD [OF s2(4)]
  let ?s2 = "s2\<lparr>lh_n := 0\<rparr>"
  have wf2: "log_wf ?s2" using s1(4) f2 by (simp add: log_wf_def)
  have "?st \<notin> fst ` set (install_writes ?st (memdisk s))"
    using boot log_regionI(2) [of "log_size s" ?st] by (force simp: install_writes_def boot_ok_def fresh_boot_def hdr_ok_def)
  then have v2: "view s2 ?st = ?d" using o2(1) v1 by (simp add: apply_writes_other)
  have "card (dblocks s2) = 0" using o2(4) db1 by simp
  then obtain s' where s': "write_head ?s2 = Inr s'" "bcoh {} s'" "bframe ?s2 s'"
    "bobs s' = obs_writes [(?st, put_header 0 [] ?d)] (bobs s2)"
    using write_head_ok [of ?s2] s2(2) wf2 v2 f2(1) s1(7) by (auto simp: NBUF_def put_header_def)
  note f' = bframe_log [OF s'(3)]
  show ?thesis
  proof (rule that [of s'])
    show "recover_from_log s = Inr s'" using s1(1) s2(1) s'(1) by (simp add: recover_from_log_def)
    show "bobs s' = obs_writes (recovery_writes ?st (memdisk s)) (bobs s)"
      unfolding s'(4) s2(4) s1(3) recovery_writes_def by (simp only: obs_writes_append)
  qed (use s'(2) f' f2 s1(7,8,9) wf2 in simp_all)
qed

lemma recover_restores_inv:
  assumes boot: "boot_ok s" and r: "recover_from_log s = Inr s'"
    and lz: "log_size s \<le> int LOGSIZE" "LK_log \<notin> set (held s)"
  shows "tx_inv {} s'" "memdisk s' = recover_disk (log_start s) (memdisk s)"
    "dwrites s' = dwrites s @ recovery_writes (log_start s) (memdisk s)" "logged s' = []"
proof -
  have s': "bcoh {} s'" "lh_n s' = 0" "log_wf s'" "log_start s' = log_start s"
    "log_size s' = log_size s" "held s' = held s"
    "bobs s' = obs_writes (recovery_writes (log_start s) (memdisk s)) (bobs s)"
    using recover_ok [OF boot] r by auto
  note o' = bobsD [OF s'(7)]
  show l: "logged s' = []" using s'(2) by (simp add: logged_def)
  show m: "memdisk s' = recover_disk (log_start s) (memdisk s)" using o'(2) by (simp add: recover_disk_def)
  show "dwrites s' = dwrites s @ recovery_writes (log_start s) (memdisk s)" by (rule o')
  have "dblocks s' = {}" using o'(4) boot by (simp add: boot_ok_def fresh_boot_def)
  moreover have "hdr_n (memdisk s' (log_start s)) = 0"
    using m put_header_facts(2) [of "memdisk s (log_start s)" 0 "[]"] bcohD(4) [of "{}" s] boot
    by (simp add: recover_disk_def recovery_writes_def boot_ok_def fresh_boot_def)
  ultimately show "tx_inv {} s'" using s' l lz by (simp add: tx_inv_def LOGSIZE_def MAXOPBLOCKS_def)
qed

section \<open>A crash during recovery\<close>

lemma apply_writes_base:
  "b \<in> fst ` set ws \<Longrightarrow> apply_writes ws D b = apply_writes ws E b"
proof (induction ws arbitrary: D E rule: rev_induct)
  case (snoc w ws)
  then show ?case by (cases w) auto
qed simp

lemma apply_writes_again:
  "apply_writes ws (apply_writes (take k ws) D) b = apply_writes ws D b"
proof (cases "b \<in> fst ` set ws")
  case False
  then have "b \<notin> fst ` set (take k ws)" by (auto dest: in_set_takeD)
  then show ?thesis using False by (simp add: apply_writes_other)
qed (rule apply_writes_base)

lemma install_keys_out:
  "hdr_ok dsz st sz (D st) \<Longrightarrow> b \<in> log_region st sz \<Longrightarrow> b \<notin> fst ` set (take k (install_writes st D))"
  by (auto simp: install_writes_def hdr_ok_def dest!: in_set_takeD)

lemma recovery_prefix:
  fixes D :: "u32 \<Rightarrow> u8 list" and k :: nat
  assumes ok: "hdr_ok dsz st sz (D st)" and len: "length (D st) = BSIZE"
  defines "D' \<equiv> apply_writes (take k (recovery_writes st D)) D"
  shows "b \<notin> log_region st sz \<Longrightarrow> recover_disk st D' b = recover_disk st D b" "hdr_ok dsz st sz (D' st)"
proof -
  let ?I = "install_writes st D"
  have "(b \<notin> log_region st sz \<longrightarrow> recover_disk st D' b = recover_disk st D b) \<and> hdr_ok dsz st sz (D' st)"
  proof (cases "k \<le> length ?I")
    case True
    then have D': "D' = apply_writes (take k ?I) D" by (simp add: D'_def recovery_writes_def)
    have keep: "D' c = D c" if "c \<in> log_region st sz" for c
      unfolding D' using install_keys_out [of dsz st sz D, OF ok that] by (rule apply_writes_other)
    have "D' (st + of_nat i + 1) = D (st + of_nat i + 1)" if "i < nat (hdr_n (D st))" for i
      using that ok by (intro keep log_regionI) (auto simp: hdr_ok_def)
    moreover have st: "D' st = D st" using ok by (intro keep log_regionI) (auto simp: hdr_ok_def)
    ultimately have "install_writes st D' = ?I" by (simp add: install_writes_def)
    then show ?thesis using st ok
      by (auto simp: recover_disk_def recovery_writes_def D' apply_writes_again)
  next
    case False
    then have D': "D' = recover_disk st D" by (simp add: D'_def recover_disk_def recovery_writes_def)
    have h: "hdr_n (D' st) = 0"
      using put_header_facts(2) [OF len, of 0 "[]"] by (simp add: D' recover_disk_def recovery_writes_def)
    moreover have "b \<notin> log_region st sz \<longrightarrow> b \<noteq> st" "0 < sz"
      using ok log_regionI(2) [of sz st] by (auto simp: hdr_ok_def)
    ultimately show ?thesis using recovery_empty [of D' st b] D' by (simp add: hdr_ok_def LOGSIZE_def)
  qed
  then show "b \<notin> log_region st sz \<Longrightarrow> recover_disk st D' b = recover_disk st D b" "hdr_ok dsz st sz (D' st)" by auto
qed

end
