(* ===== verification/Log_Tx.thy ===== *)
theory Log_Tx
  imports Log_Recovery
begin

text \<open>
  Transactions: \<open>log_write\<close>, \<open>begin_op\<close> and \<open>end_op\<close>. The locale \<open>tx_store\<close> is the contract the file
  system relies on inside a transaction (reading a block, changing it and recording the change); its
  interpretation \<open>tx\<close> shows that the log keeps it. The claims on crash safety are in \<open>Storage_Props\<close>.
\<close>

section \<open>Recording a block in the transaction\<close>

lemma log_slot_facts:
  assumes "0 \<le> lh_n s" "nat (lh_n s) \<le> length (lh_block s)"
  shows "b \<in> set (logged s) \<Longrightarrow> log_slot b s < nat (lh_n s) \<and> lh_block s ! log_slot b s = b"
    "b \<notin> set (logged s) \<Longrightarrow> log_slot b s = nat (lh_n s)"
proof -
  let ?l = "take (nat (lh_n s)) (lh_block s)"
  have len: "length ?l = nat (lh_n s)" using assms(2) by simp
  have slot: "log_slot b s = length (takeWhile (\<lambda>x. x \<noteq> b) ?l)" by (simp add: log_slot_def)
  {
    assume "b \<in> set (logged s)"
    then have "takeWhile (\<lambda>x. x \<noteq> b) ?l \<noteq> ?l" by (auto simp: logged_def takeWhile_eq_all_conv)
    then have "length (takeWhile (\<lambda>x. x \<noteq> b) ?l) \<noteq> length ?l"
      using takeWhile_eq_take [of "\<lambda>x. x \<noteq> b" ?l] by (metis take_all order_refl)
    then have lt: "log_slot b s < length ?l"
      unfolding slot using length_takeWhile_le [of "\<lambda>x. x \<noteq> b" ?l] by linarith
    moreover have "?l ! log_slot b s = b" using nth_length_takeWhile [of "\<lambda>x. x \<noteq> b" ?l] lt slot by simp
    ultimately show "log_slot b s < nat (lh_n s) \<and> lh_block s ! log_slot b s = b" using len by simp
  }
  assume "b \<notin> set (logged s)"
  then have "takeWhile (\<lambda>x. x \<noteq> b) ?l = ?l" by (auto simp: logged_def takeWhile_eq_all_conv)
  then show "log_slot b s = nat (lh_n s)" using len slot by (simp only:)
qed

lemma log_write_eq:
  assumes inv: "tx_inv H s" and n: "lh_n s < log_size s - 1" and out: "1 \<le> outstanding s"
  shows "log_write i s =
    (let b = blockno (bufs s i); s' = upd_buf i (\<lambda>c. c\<lparr>bflags := bflags c OR B_DIRTY\<rparr>) s in
     Inr (if b \<in> set (logged s) then s'
          else s'\<lparr>lh_block := (lh_block s)[nat (lh_n s) := b], lh_n := lh_n s + 1\<rparr>))"
proof -
  have lk: "LK_log \<notin> set (held s)" and g: "lh_n s < int LOGSIZE" "0 \<le> lh_n s" "nat (lh_n s) \<le> length (lh_block s)"
    using inv by (auto simp: tx_inv_def log_wf_def)
  let ?b = "blockno (bufs s i)"
  let ?s = "s\<lparr>held := LK_log # held s\<rparr>"
  have sl: "log_slot ?b ?s = log_slot ?b s" by (simp add: log_slot_def)
  show ?thesis
  proof (cases "?b \<in> set (logged s)")
    case True
    then have "log_slot ?b s < nat (lh_n s)" "(lh_block s)[log_slot ?b s := ?b] = lh_block s"
      using log_slot_facts(1) [OF g(2,3)] list_update_id by metis+
    then have l: "int (log_slot ?b s) \<noteq> lh_n s" "(lh_block s)[log_slot ?b s := ?b] = lh_block s" by auto
    show ?thesis using True lk g(1) n out l sl
      by (simp add: log_write_def Let_def upd_buf_def)
  next
    case False
    then have l: "log_slot ?b s = nat (lh_n s)" by (rule log_slot_facts(2) [OF g(2,3)])
    show ?thesis using False lk g n out l sl
      by (simp add: log_write_def Let_def upd_buf_def)
  qed
qed

section \<open>The transaction interface\<close>

text \<open>
  What the file system sees of an open transaction: the contents of the blocks, the disk (which does
  not change before the commit), the blocks recorded so far, the free slots of the log, the size of
  the disk, the blocks reserved for the log, and whether an operation is outstanding.
\<close>

record tx_obs =
  t_view :: "u32 \<Rightarrow> u8 list"
  t_disk :: "u32 \<Rightarrow> u8 list"
  t_logged :: "u32 set"
  t_slots :: int
  t_size :: u32
  t_resv :: "u32 set"
  t_active :: bool

locale tx_store =
  fixes tinv :: "nat set \<Rightarrow> 's \<Rightarrow> bool"
    and tobs :: "'s \<Rightarrow> tx_obs"
    and tfrm :: "'s \<Rightarrow> 's \<Rightarrow> bool"
    and blk :: "'s \<Rightarrow> nat \<Rightarrow> u32"
    and dat :: "'s \<Rightarrow> nat \<Rightarrow> u8 list"
    and rd_blk :: "u32 \<Rightarrow> 's \<Rightarrow> (nat \<times> 's) res"
    and set_dat :: "nat \<Rightarrow> u8 list \<Rightarrow> 's \<Rightarrow> 's"
    and log_blk :: "nat \<Rightarrow> 's \<Rightarrow> 's res"
    and rel_blk :: "nat \<Rightarrow> 's \<Rightarrow> 's res"
  assumes t_refl: "tfrm s s"
    and t_trans: "tfrm s s1 \<Longrightarrow> tfrm s1 s2 \<Longrightarrow> tfrm s s2"
    and t_held: "tinv H s \<Longrightarrow> i \<in> H \<Longrightarrow> dat s i = t_view (tobs s) (blk s i)"
    and t_len: "tinv H s \<Longrightarrow> length (t_view (tobs s) b) = BSIZE"
    and t_clean: "tinv H s \<Longrightarrow> b \<notin> blk s ` H \<Longrightarrow> b \<notin> t_logged (tobs s) \<Longrightarrow>
      t_view (tobs s) b = t_disk (tobs s) b"
    and t_rd: "\<lbrakk>tinv H s; b < t_size (tobs s); b \<notin> blk s ` H; int (card H) \<le> t_slots (tobs s) \<or> H = {}\<rbrakk> \<Longrightarrow>
      \<exists>i s'. rd_blk b s = Inr (i, s') \<and> i \<notin> H \<and> tinv (insert i H) s' \<and> blk s' i = b \<and>
        tobs s' = tobs s \<and> (\<forall>j\<in>H. blk s' j = blk s j) \<and> tfrm s s'"
    and t_set: "\<lbrakk>tinv H s; i \<in> H; length d = BSIZE\<rbrakk> \<Longrightarrow>
      tinv H (set_dat i d s) \<and> (\<forall>j. blk (set_dat i d s) j = blk s j) \<and> tfrm s (set_dat i d s) \<and>
      tobs (set_dat i d s) = (tobs s)\<lparr>t_view := (t_view (tobs s))(blk s i := d)\<rparr>"
    and t_log: "\<lbrakk>tinv H s; i \<in> H; 0 < t_slots (tobs s); t_active (tobs s); blk s i \<notin> t_resv (tobs s)\<rbrakk> \<Longrightarrow>
      \<exists>s'. log_blk i s = Inr s' \<and> tinv H s' \<and> (\<forall>j. blk s' j = blk s j) \<and> tfrm s s' \<and>
        tobs s' = (tobs s)\<lparr>t_logged := insert (blk s i) (t_logged (tobs s)),
          t_slots := (if blk s i \<in> t_logged (tobs s) then t_slots (tobs s) else t_slots (tobs s) - 1)\<rparr>"
    and t_rel: "\<lbrakk>tinv H s; i \<in> H; blk s i \<in> t_logged (tobs s) \<or>
        t_view (tobs s) (blk s i) = t_disk (tobs s) (blk s i)\<rbrakk> \<Longrightarrow>
      \<exists>s'. rel_blk i s = Inr s' \<and> tinv (H - {i}) s' \<and> (\<forall>j. blk s' j = blk s j) \<and> tfrm s s' \<and> tobs s' = tobs s"
begin

text \<open>Reading a block: \<open>bread\<close>, look, \<open>brelse\<close>.\<close>

lemma read_only:
  assumes inv: "tinv H s" and b: "b < t_size (tobs s)" "b \<notin> blk s ` H" "int (card H) \<le> t_slots (tobs s) \<or> H = {}"
  shows "\<exists>i s1 s'. rd_blk b s = Inr (i, s1) \<and> dat s1 i = t_view (tobs s) b \<and> tfrm s s1 \<and>
    rel_blk i s1 = Inr s' \<and> tinv H s' \<and> tfrm s s' \<and> tobs s' = tobs s \<and> (\<forall>j\<in>H. blk s' j = blk s j)"
proof -
  obtain i s1 where s1: "rd_blk b s = Inr (i, s1)" "i \<notin> H" "tinv (insert i H) s1" "blk s1 i = b"
    "tobs s1 = tobs s" "\<forall>j\<in>H. blk s1 j = blk s j" "tfrm s s1"
    using t_rd [OF inv b] by auto
  have "b \<in> t_logged (tobs s) \<or> t_view (tobs s) b = t_disk (tobs s) b" using t_clean [OF inv b(2)] by auto
  then obtain s' where s': "rel_blk i s1 = Inr s'" "tinv (insert i H - {i}) s'" "tfrm s1 s'" "tobs s' = tobs s1"
    "\<forall>j. blk s' j = blk s1 j"
    using t_rel [OF s1(3), of i] s1(4,5) by auto
  have "dat s1 i = t_view (tobs s) b" using t_held [OF s1(3), of i] s1(4,5) by simp
  moreover have "insert i H - {i} = H" using s1(2) by auto
  ultimately show ?thesis using s1 s' t_trans [OF s1(7) s'(3)] by auto
qed

text \<open>Changing a held buffer, recording it and releasing it.\<close>

lemma set_log_release:
  assumes inv: "tinv (insert i H) s" and i: "i \<notin> H" and b: "blk s i \<notin> t_resv (tobs s)"
    and t: "0 < t_slots (tobs s)" "t_active (tobs s)" and d: "length d = BSIZE"
  shows "\<exists>s'. bind_r (log_blk i (set_dat i d s)) (rel_blk i) = Inr s' \<and> tinv H s' \<and> tfrm s s' \<and>
    (\<forall>j. blk s' j = blk s j) \<and>
    tobs s' = (tobs s)\<lparr>t_view := (t_view (tobs s))(blk s i := d),
      t_logged := insert (blk s i) (t_logged (tobs s)),
      t_slots := (if blk s i \<in> t_logged (tobs s) then t_slots (tobs s) else t_slots (tobs s) - 1)\<rparr>"
proof -
  let ?s = "set_dat i d s"
  have s: "tinv (insert i H) ?s" "\<And>j. blk ?s j = blk s j" "tfrm s ?s"
    "tobs ?s = (tobs s)\<lparr>t_view := (t_view (tobs s))(blk s i := d)\<rparr>"
    using t_set [OF inv _ d, of i] by auto
  obtain s1 where s1: "log_blk i ?s = Inr s1" "tinv (insert i H) s1" "\<And>j. blk s1 j = blk s j" "tfrm ?s s1"
    "tobs s1 = (tobs ?s)\<lparr>t_logged := insert (blk s i) (t_logged (tobs ?s)),
       t_slots := (if blk s i \<in> t_logged (tobs ?s) then t_slots (tobs ?s) else t_slots (tobs ?s) - 1)\<rparr>"
    using t_log [OF s(1), of i] s b t by auto
  obtain s' where s': "rel_blk i s1 = Inr s'" "tinv (insert i H - {i}) s'" "\<And>j. blk s' j = blk s1 j"
    "tfrm s1 s'" "tobs s' = tobs s1"
    using t_rel [OF s1(2), of i] s1(3,5) by auto
  moreover have "insert i H - {i} = H" using i by auto
  ultimately show ?thesis using s s1 t_trans [OF s(3) t_trans [OF s1(4) s'(4)]] by simp
qed

text \<open>The idiom of \<open>fs.c\<close>: \<open>bread\<close>, modify, \<open>log_write\<close>, \<open>brelse\<close>.\<close>

lemma read_modify_write:
  assumes inv: "tinv H s" and b: "b < t_size (tobs s)" "b \<notin> blk s ` H" "b \<notin> t_resv (tobs s)"
    and t: "0 < t_slots (tobs s)" "int (card H) \<le> t_slots (tobs s)" "t_active (tobs s)"
    and f: "\<And>s'. tfrm s s' \<Longrightarrow> g s' = f" "length (f (t_view (tobs s) b)) = BSIZE"
  shows "\<exists>s'. bind_r (rd_blk b s) (\<lambda>(i, s). bind_r (log_blk i (set_dat i (g s (dat s i)) s)) (rel_blk i)) = Inr s' \<and>
    tinv H s' \<and> tfrm s s' \<and> (\<forall>j\<in>H. blk s' j = blk s j) \<and>
    tobs s' = (tobs s)\<lparr>t_view := (t_view (tobs s))(b := f (t_view (tobs s) b)),
      t_logged := insert b (t_logged (tobs s)),
      t_slots := (if b \<in> t_logged (tobs s) then t_slots (tobs s) else t_slots (tobs s) - 1)\<rparr>"
proof -
  obtain i s1 where s1: "rd_blk b s = Inr (i, s1)" "i \<notin> H" "tinv (insert i H) s1" "blk s1 i = b"
    "tobs s1 = tobs s" "\<forall>j\<in>H. blk s1 j = blk s j" "tfrm s s1"
    using t_rd [OF inv b(1,2)] t(2) by auto
  have d: "g s1 (dat s1 i) = f (t_view (tobs s) b)"
    using t_held [OF s1(3), of i] s1(4,5) f(1) [OF s1(7)] by simp
  show ?thesis
    using set_log_release [OF s1(3,2), of "f (t_view (tobs s) b)"] s1 b(3) t(1,3) f(2) d t_trans [OF s1(7)]
    by fastforce
qed

end

section \<open>The log provides the transaction interface\<close>

definition tx_obs_of :: "'a log_st_scheme \<Rightarrow> tx_obs" where
  "tx_obs_of s = \<lparr>t_view = view s, t_disk = memdisk s, t_logged = set (logged s),
     t_slots = log_size s - 1 - lh_n s, t_size = disksize s, t_resv = log_region (log_start s) (log_size s),
     t_active = (1 \<le> outstanding s)\<rparr>"

definition lframe :: "'a log_st_scheme \<Rightarrow> 'a log_st_scheme \<Rightarrow> bool" where
  "lframe s s' \<longleftrightarrow> (\<exists>t p n bs. s' = s\<lparr>bufs := t, ptable := p, lh_n := n, lh_block := bs\<rparr>)"

lemma lframeI: "s' = s\<lparr>bufs := t, ptable := p, lh_n := n, lh_block := bs\<rparr> \<Longrightarrow> lframe s s'"
  by (auto simp: lframe_def)

lemma lframe_refl: "lframe s s"
  by (rule lframeI [where t = "bufs s" and p = "ptable s" and n = "lh_n s" and bs = "lh_block s"]) simp

lemma lframe_trans: "lframe s s1 \<Longrightarrow> lframe s1 s2 \<Longrightarrow> lframe s s2"
  unfolding lframe_def by (elim exE) (simp, blast)

lemma bframe_lframe:
  assumes "bframe s s'" "bobs s' = (bobs s)\<lparr>o_view := v\<rparr>"
  shows "lframe s s'"
proof -
  obtain t p m w where e: "s' = s\<lparr>bufs := t, ptable := p, memdisk := m, dwrites := w\<rparr>"
    using assms(1) by (auto simp: bframe_def)
  have "memdisk s' = memdisk s" "dwrites s' = dwrites s"
    using arg_cong [OF assms(2), of o_disk] arg_cong [OF assms(2), of o_writes] by simp_all
  then have "m = memdisk s" "w = dwrites s" by (simp_all add: e)
  then show ?thesis
    by (intro lframeI [where t = t and p = p and n = "lh_n s" and bs = "lh_block s"] log_st.equality)
       (simp_all add: e)
qed

lemma tx_sel [simp]:
  "t_view (tx_obs_of s) = view s" "t_disk (tx_obs_of s) = memdisk s" "t_logged (tx_obs_of s) = set (logged s)"
  "t_slots (tx_obs_of s) = log_size s - 1 - lh_n s" "t_size (tx_obs_of s) = disksize s"
  "t_resv (tx_obs_of s) = log_region (log_start s) (log_size s)" "t_active (tx_obs_of s) = (1 \<le> outstanding s)"
  by (simp_all add: tx_obs_of_def)

text \<open>Steps of the cache that neither write the disk nor change what is dirty.\<close>

lemma tx_cache_step:
  assumes "tx_inv H s" "bcoh H' s'" "bframe s s'" "bobs s' = (bobs s)\<lparr>o_view := v\<rparr>"
  shows "tx_inv H' s'" "tx_obs_of s' = (tx_obs_of s)\<lparr>t_view := v\<rparr>" "lframe s s'"
proof -
  note fr = bframe_log [OF assms(3)]
  have o: "memdisk s' = memdisk s" "dblocks s' = dblocks s" "view s' = v"
    using arg_cong [OF assms(4), of o_disk] arg_cong [OF assms(4), of o_dirty] arg_cong [OF assms(4), of o_view]
    by simp_all
  have l: "logged s' = logged s" using fr by (simp add: logged_def)
  show "tx_inv H' s'" using assms(1,2) fr o l unfolding tx_inv_def by simp
  show "tx_obs_of s' = (tx_obs_of s)\<lparr>t_view := v\<rparr>" using fr o l by (simp add: tx_obs_of_def)
  show "lframe s s'" by (rule bframe_lframe [OF assms(3,4)])
qed

lemma tx_inv_capacity:
  assumes "tx_inv H s" "int (card H) \<le> log_size s - 1 - lh_n s \<or> H = {}"
  shows "card H + card (dblocks s) < NBUF"
proof -
  have "card (dblocks s) \<le> length (logged s)" using assms(1) card_length by (auto simp: tx_inv_def)
  then have "card (dblocks s) \<le> nat (lh_n s)" by (simp add: logged_def)
  moreover have "0 \<le> lh_n s" "lh_n s < log_size s" "log_size s \<le> int LOGSIZE" "int LOGSIZE = int NBUF"
    using assms(1) by (auto simp: tx_inv_def log_wf_def LOGSIZE_def MAXOPBLOCKS_def NBUF_def)
  ultimately show ?thesis using assms(2) by auto
qed

lemma mark_dirty_ok:
  assumes co: "bcoh H s" and i: "i \<in> H"
  defines "s' \<equiv> upd_buf i (\<lambda>c. c\<lparr>bflags := bflags c OR B_DIRTY\<rparr>) s"
  shows "bcoh H s'" "view s' = view s" "dblocks s' = insert (blockno (bufs s i)) (dblocks s)"
proof -
  have iN: "i < NBUF" using held_buf [OF co i] by simp
  have ok: "buf_ok (memdisk s) (disksize s) True (bufs s i)" using bcohD(5) [OF co iN] i by simp
  have na: "no_alias (bufs s)" using co by (rule bcohD)
  show "bcoh H s'" unfolding s'_def upd_buf_def
    using ok i no_aliasD [OF na _ iN]
    by (intro bcoh_upd [OF co iN, where h = True]) (auto simp: buf_ok_def valid_def dirty_def)
  show "view s' = view s" unfolding s'_def by (rule ext, rule view_same [OF na]) (simp_all)
  show "dblocks s' = insert (blockno (bufs s i)) (dblocks s)"
  proof (rule set_eqI)
    fix b
    show "b \<in> dblocks s' \<longleftrightarrow> b \<in> insert (blockno (bufs s i)) (dblocks s)"
      using iN unfolding s'_def dblocks_def dirty_def by (auto split: if_splits)
  qed
qed

lemma log_write_ok:
  assumes inv: "tx_inv H s" and i: "i \<in> H" and n: "lh_n s < log_size s - 1" and out: "1 \<le> outstanding s"
    and b: "blockno (bufs s i) \<notin> log_region (log_start s) (log_size s)"
  shows "\<exists>s'. log_write i s = Inr s' \<and> tx_inv H s' \<and> (\<forall>j. blockno (bufs s' j) = blockno (bufs s j)) \<and>
    lframe s s' \<and> tx_obs_of s' = (tx_obs_of s)\<lparr>t_logged := insert (blockno (bufs s i)) (set (logged s)),
      t_slots := (if blockno (bufs s i) \<in> set (logged s) then log_size s - 1 - lh_n s else log_size s - 2 - lh_n s)\<rparr>"
proof -
  let ?b = "blockno (bufs s i)" and ?s = "upd_buf i (\<lambda>c. c\<lparr>bflags := bflags c OR B_DIRTY\<rparr>) s"
  have co: "bcoh H s" and wf: "log_wf s" and g: "0 \<le> lh_n s" "nat (lh_n s) < length (lh_block s)"
    using inv by (auto simp: tx_inv_def log_wf_def)
  note md = mark_dirty_ok [OF co i]
  have fr: "lframe s ?s"
    by (rule lframeI [where t = "(bufs s)(i := (bufs s i)\<lparr>bflags := bflags (bufs s i) OR B_DIRTY\<rparr>)"
      and p = "ptable s" and n = "lh_n s" and bs = "lh_block s"]) (simp add: upd_buf_def)
  have bsz: "?b < disksize s" using bcohD(5) [OF co, of i] held_buf [OF co i] i by (auto simp: buf_ok_def)
  show ?thesis
  proof (cases "?b \<in> set (logged s)")
    case True
    have l: "logged ?s = logged s" by (simp add: logged_def upd_buf_def)
    have "tx_inv H ?s" using inv md True l unfolding tx_inv_def log_wf_def by (auto simp: upd_buf_def)
    moreover have "tx_obs_of ?s = tx_obs_of s" using md(2) l by (simp add: tx_obs_of_def upd_buf_def)
    ultimately show ?thesis using log_write_eq [OF inv n out, of i] True fr
      by (simp add: Let_def insert_absorb tx_obs_of_def)
  next
    case False
    let ?s' = "?s\<lparr>lh_block := (lh_block s)[nat (lh_n s) := ?b], lh_n := lh_n s + 1\<rparr>"
    have l: "logged ?s' = logged s @ [?b]"
      using g by (simp add: logged_def nat_add_distrib take_Suc_conv_app_nth)
    have nb: "lh_block ?s' ! k = (if k = nat (lh_n s) then ?b else lh_block s ! k)" for k
      using g by (simp add: nth_list_update)
    have wf': "log_wf ?s'"
      using wf g b bsz inv n unfolding log_wf_def tx_inv_def
      by (auto simp: upd_buf_def nth_list_update nat_add_distrib less_Suc_eq)
    have v: "view ?s' = view s" "dblocks ?s' = insert ?b (dblocks s)" "bcoh H ?s'" using md by simp_all
    have "tx_inv H ?s'"
      using inv v wf' l False n unfolding tx_inv_def by (simp add: upd_buf_def)
    moreover have "tx_obs_of ?s' = (tx_obs_of s)\<lparr>t_logged := insert ?b (set (logged s)),
        t_slots := log_size s - 2 - lh_n s\<rparr>"
      using v l by (simp add: tx_obs_of_def upd_buf_def)
    moreover have "lframe s ?s'" by (rule lframe_trans [OF fr], rule lframeI
        [where t = "bufs ?s" and p = "ptable s" and n = "lh_n s + 1" and bs = "(lh_block s)[nat (lh_n s) := ?b]"])
      (rule log_st.equality; simp)
    ultimately show ?thesis using log_write_eq [OF inv n out, of i] False by (simp add: Let_def)
  qed
qed

interpretation tx: tx_store tx_inv tx_obs_of lframe "\<lambda>s i. blockno (bufs s i)" "\<lambda>s i. bdata (bufs s i)"
  "bread 1" set_data log_write brelse
proof (unfold_locales, goal_cases)
  case (1 s)
  show ?case by (rule lframe_refl)
next
  case (2 s s1 s2)
  then show ?case by (rule lframe_trans)
next
  case (3 H s i)
  then show ?case using bc.held_view [of H s i] by (simp add: tx_inv_def)
next
  case (4 H s b)
  then show ?case using bc.view_len [of H s b] by (simp add: tx_inv_def)
next
  case (5 H s b)
  then show ?case using bc.clean_view [of H s b] by (simp add: tx_inv_def)
next
  case (6 H s b)
  have "bcoh H s" using 6(1) by (simp add: tx_inv_def)
  moreover have "card H + card (dblocks s) < NBUF" using tx_inv_capacity [OF 6(1)] 6(4) by simp
  ultimately obtain i s' where r: "bread 1 b s = Inr (i, s')" "i \<notin> H" "bcoh (insert i H) s'"
    "blockno (bufs s' i) = b" "bobs s' = bobs s" "\<forall>j\<in>H. blockno (bufs s' j) = blockno (bufs s j)" "bframe s s'"
    using bc.rd_law [of H s b] 6(2,3) by auto
  have "bobs s' = (bobs s)\<lparr>o_view := view s\<rparr>" using r(5) by (simp add: bobs_def)
  from tx_cache_step [OF 6(1) r(3,7) this] r show ?case by (auto simp: tx_obs_of_def)
next
  case (7 H s i d)
  have co: "bcoh H s" using 7(1) by (simp add: tx_inv_def)
  have r: "bcoh H (set_data i d s)" "\<forall>j. blockno (bufs (set_data i d s) j) = blockno (bufs s j)"
    "bframe s (set_data i d s)" "bobs (set_data i d s) = (bobs s)\<lparr>o_view := (view s)(blockno (bufs s i) := d)\<rparr>"
    using bc.set_law [OF co 7(2,3)] by auto
  from tx_cache_step [OF 7(1) r(1,3,4)] r(2) show ?case by simp
next
  case (8 H s i)
  then show ?case using log_write_ok [OF 8(1,2)] by auto
next
  case (9 H s i)
  have co: "bcoh H s" using 9(1) by (simp add: tx_inv_def)
  have "blockno (bufs s i) \<in> dblocks s \<or> bdata (bufs s i) = memdisk s (blockno (bufs s i))"
    using 9(1,3) bc.held_view [OF co 9(2)] by (auto simp: tx_inv_def)
  then obtain s' where r: "brelse i s = Inr s'" "bcoh (H - {i}) s'" "\<forall>j. blockno (bufs s' j) = blockno (bufs s j)"
    "bframe s s'" "bobs s' = bobs s"
    using bc.rel_law [OF co 9(2)] by auto
  have "bobs s' = (bobs s)\<lparr>o_view := view s\<rparr>" using r(5) by (simp add: bobs_def)
  from tx_cache_step [OF 9(1) r(2,4) this] r show ?case by (auto simp: tx_obs_of_def)
qed

section \<open>Beginning and ending a system call\<close>

lemma begin_op_Inr:
  "begin_op s = Inr s' \<longleftrightarrow> LK_log \<notin> set (held s) \<and> \<not> committing s \<and>
     lh_n s + (outstanding s + 1) * int MAXOPBLOCKS \<le> int LOGSIZE \<and> s' = s\<lparr>outstanding := outstanding s + 1\<rparr>"
  by (auto simp: begin_op_def acq_def rel_def split: if_splits)

lemma wakeup1_log [simp]:
  "bcoh H (wakeup1 c s) = bcoh H s" "bobs (wakeup1 c s) = bobs s"
  by (rule bcoh_cong bobs_cong; simp add: wakeup1_def)+

definition tx_writes :: "'a log_st_scheme \<Rightarrow> (u32 \<times> u8 list) list" where
  "tx_writes s = (if lh_n s > 0 then commit_writes (log_start s) (logged s) (view s) else [])"

lemma commit_inv:
  assumes inv: "tx_inv {} s"
  obtains s' where "commit s = Inr s'" "tx_inv {} s'" "logged s' = []" "bframe (s\<lparr>lh_n := 0\<rparr>) s'"
    "dwrites s' = dwrites s @ tx_writes s" "memdisk s' = apply_writes (tx_writes s) (memdisk s)"
    "view s' = apply_writes (tx_writes s) (view s)"
proof (cases "lh_n s > 0")
  case False
  then have n: "lh_n s = 0" using inv by (auto simp: tx_inv_def log_wf_def)
  have "s\<lparr>lh_n := 0\<rparr> = s" using n by (intro log_st.equality) simp_all
  then have "bframe (s\<lparr>lh_n := 0\<rparr>) s" using bframe_refl [of s] by simp
  then show ?thesis using that [of s] inv n False by (simp add: commit_def logged_def tx_writes_def)
next
  case True
  let ?W = "commit_writes (log_start s) (logged s) (view s)"
  obtain s' where s': "commit s = Inr s'" "bcoh {} s'" "bframe (s\<lparr>lh_n := 0\<rparr>) s'"
    "bobs s' = obs_writes ?W (bobs s)" using commit_ok [OF inv True] by blast
  note f = bframe_log [OF s'(3)] and o' = bobsD [OF s'(4)]
  let ?n = "length (logged s)" and ?st = "log_start s"
  have l: "logged s' = []" using f(6) by (simp add: logged_def)
  have "set (logged s) \<subseteq> fst ` set ?W"
    by (auto simp: commit_writes_def Let_def in_set_conv_nth image_Un image_image)
  then have d: "dblocks s' = {}" using o'(4) inv by (auto simp: tx_inv_def)
  have vl: "length (view s ?st) = BSIZE" using tx.t_len [OF inv] by simp
  have "length (put_header (int ?n) (logged s) (view s ?st)) = BSIZE"
    using put_header_facts(1) [OF vl, of "int ?n" "logged s"] logged_facts(8) [OF inv] by simp
  then have "hdr_n (memdisk s' ?st) = 0"
    using o'(2) put_header_facts(2) [of _ 0 "logged s"] by (simp add: commit_writes_def Let_def)
  moreover have "log_wf s'" using inv f unfolding tx_inv_def log_wf_def by simp
  ultimately have "tx_inv {} s'"
    using inv s'(2) d l f unfolding tx_inv_def by (simp add: LOGSIZE_def MAXOPBLOCKS_def)
  then show ?thesis using that [of s'] s'(1,3) l o' True by (simp add: tx_writes_def)
qed

lemma tx_inv_cong:
  "\<lbrakk>bufs s' = bufs s; memdisk s' = memdisk s; disksize s' = disksize s; held s' = held s; cur s' = cur s;
    me s' = me s; log_dev s' = log_dev s; log_start s' = log_start s; log_size s' = log_size s;
    lh_n s' = lh_n s; lh_block s' = lh_block s\<rbrakk> \<Longrightarrow> tx_inv H s' = tx_inv H s"
  unfolding tx_inv_def using bcoh_cong [of s' s H]
  by (simp add: log_wf_def logged_def dblocks_def)

lemma end_op_commits:
  assumes inv: "tx_inv {} s" and out: "outstanding s = 1" "\<not> committing s"
  obtains s' where "end_op s = Inr s'" "tx_inv {} s'" "logged s' = []" "outstanding s' = 0" "\<not> committing s'"
    "log_start s' = log_start s" "disksize s' = disksize s" "held s' = held s"
    "dwrites s' = dwrites s @ tx_writes s" "memdisk s' = apply_writes (tx_writes s) (memdisk s)"
    "view s' = apply_writes (tx_writes s) (view s)"
proof -
  let ?s1 = "s\<lparr>outstanding := 0, committing := True\<rparr>"
  have inv1: "tx_inv {} ?s1" using inv by (subst tx_inv_cong [of _ s]) simp_all
  have w1: "tx_writes ?s1 = tx_writes s" by (simp add: tx_writes_def logged_def)
  obtain s2 where s2: "commit ?s1 = Inr s2" "tx_inv {} s2" "logged s2 = []" "bframe (?s1\<lparr>lh_n := 0\<rparr>) s2"
    "dwrites s2 = dwrites ?s1 @ tx_writes ?s1" "memdisk s2 = apply_writes (tx_writes ?s1) (memdisk ?s1)"
    "view s2 = apply_writes (tx_writes ?s1) (view ?s1)"
    using commit_inv [OF inv1] by blast
  note f = bframe_log [OF s2(4)]
  let ?s' = "wakeup1 Chan_log (s2\<lparr>committing := False\<rparr>)"
  have lk: "LK_log \<notin> set (held s)" "LK_ptable \<notin> set (held s)"
    using inv bcohD(1) [of "{}" s] locks_freeD(2) [of s] unfolding tx_inv_def by blast+
  have lk2: "LK_log \<notin> set (held s2)" "LK_ptable \<notin> set (held s2)" using lk f(9) by simp_all
  have "end_op s = Inr (?s'\<lparr>held := held s2\<rparr>)"
    using lk lk2 out s2(1) by (simp add: end_op_def Let_def wakeup_def wakeup1_def)
  moreover have "?s'\<lparr>held := held s2\<rparr> = ?s'" by (rule log_st.equality) (simp_all add: wakeup1_def)
  ultimately have e: "end_op s = Inr ?s'" by simp
  have sel: "bufs ?s' = bufs s2" "memdisk ?s' = memdisk s2" "disksize ?s' = disksize s2" "held ?s' = held s2"
    "cur ?s' = cur s2" "me ?s' = me s2" "log_dev ?s' = log_dev s2" "log_start ?s' = log_start s2"
    "log_size ?s' = log_size s2" "lh_n ?s' = lh_n s2" "lh_block ?s' = lh_block s2" "dwrites ?s' = dwrites s2"
    "outstanding ?s' = outstanding s2" "\<not> committing ?s'"
    by (simp_all add: wakeup1_def)
  have "tx_inv {} ?s'" using s2(2) sel by (subst tx_inv_cong [of _ s2]) simp_all
  moreover have "view ?s' = view s2" using sel by (intro view_cong)
  ultimately show ?thesis
    using that [of ?s'] e sel s2(3,5,6,7) f w1 by (simp add: logged_def)
qed

lemma end_op_waits:
  assumes "LK_log \<notin> set (held s)" "LK_ptable \<notin> set (held s)" "outstanding s \<noteq> 1" "\<not> committing s"
  shows "end_op s = Inr (wakeup1 Chan_log (s\<lparr>outstanding := outstanding s - 1\<rparr>))"
  using assms by (simp add: end_op_def Let_def wakeup_def wakeup1_def)

end
