(* ===== verification/Storage_Props.thy ===== *)
theory Storage_Props
  imports Log_Tx
begin

text \<open>
  The properties of the buffer cache and of the log, and the concrete disks their witnesses run on:
  \<open>zero_img\<close> is a disk of zeroes, \<open>committed_img\<close> one that crashed after the commit point.
\<close>

section \<open>Initialisation\<close>

lemma binit_loop_keeps:
  "HEAD \<notin> set bs \<Longrightarrow> bflags (binit_loop bs t i) = bflags (t i) \<and> bdev (binit_loop bs t i) = bdev (t i) \<and>
     blockno (binit_loop bs t i) = blockno (t i) \<and> refcnt (binit_loop bs t i) = refcnt (t i) \<and>
     bdata (binit_loop bs t i) = bdata (t i) \<and>
     block (binit_loop bs t i) = (if i \<in> set bs then initsleeplock ''buffer'' (block (t i)) else block (t i))"
proof (induction bs arbitrary: t)
  case (Cons b bs)
  then show ?case
    by (auto simp: Let_def link_head_keeps link_node_keeps initsleeplock_def)
qed simp

lemma binit_lru: "lru_list (bufs (binit s)) (rev [0..<NBUF])"
proof -
  let ?t = "(bufs s)(HEAD := (bufs s HEAD)\<lparr>bprev := HEAD, bnext := HEAD\<rparr>)"
  have "chain (binit_loop [0..<NBUF] ?t) HEAD (rev [0..<NBUF] @ []) HEAD"
    by (rule binit_loop_chain) (auto simp: HEAD_def)
  then show ?thesis by (auto simp: lru_list_def binit_def)
qed

text \<open>The static buffers start zeroed; the first process then runs on the CPU.\<close>

lemma binit_ok:
  assumes z: "\<And>i. i < NBUF \<Longrightarrow> bflags (bufs s i) = 0 \<and> bdev (bufs s i) = 0 \<and> refcnt (bufs s i) = 0"
    and "\<And>b. length (memdisk s b) = BSIZE" "locks_free s" "c (me s) \<noteq> None"
  shows "bcoh {} ((binit s)\<lparr>cur := c\<rparr>)" "dblocks ((binit s)\<lparr>cur := c\<rparr>) = {}"
proof -
  have k: "bflags (bufs (binit s) i) = 0 \<and> bdev (bufs (binit s) i) = 0 \<and> refcnt (bufs (binit s) i) = 0 \<and>
      sl_locked (block (bufs (binit s) i)) = 0" if "i < NBUF" for i
    using z [OF that] that binit_loop_keeps [of "[0..<NBUF]"]
    by (simp add: binit_def initsleeplock_def HEAD_def)
  have "no_alias (bufs (binit s))" using k unfolding no_alias_def by simp
  moreover have "buf_ok (memdisk s) (disksize s) False (bufs (binit s) i)" if "i < NBUF" for i
    using k [OF that] by (simp add: buf_ok_def valid_def dirty_def)
  moreover have "bufs ((binit s)\<lparr>cur := c\<rparr>) = bufs (binit s)" "memdisk ((binit s)\<lparr>cur := c\<rparr>) = memdisk s"
    "disksize ((binit s)\<lparr>cur := c\<rparr>) = disksize s" "held ((binit s)\<lparr>cur := c\<rparr>) = held s"
    "me ((binit s)\<lparr>cur := c\<rparr>) = me s"
    by (simp_all add: binit_def)
  ultimately show "bcoh {} ((binit s)\<lparr>cur := c\<rparr>)"
    using assms(2-4) binit_lru [of s] unfolding bcoh_def locks_free_def myproc_def by auto
  show "dblocks ((binit s)\<lparr>cur := c\<rparr>) = {}" using k by (auto simp: dblocks_def dirty_def)
qed

section \<open>A concrete disk\<close>

text \<open>A disk of 1000 zeroed blocks with the log at block 2, just after \<open>binit\<close>, inside one system call.\<close>

definition proc0 :: proc where
  "proc0 = \<lparr>psz = 0, pgdir = 0, kstack = 0, state = RUNNING, pid = 1, parent = None, tf = 0, pcontext = 0,
     pchan = None, killed = False, ofile = (\<lambda>_. None), cwd = None, pname = []\<rparr>"

definition buf0 :: buf where
  "buf0 = \<lparr>bflags = 0, bdev = 0, blockno = 0, block = \<lparr>sl_locked = 0, sl_name = [], sl_pid = 0\<rparr>,
     refcnt = 0, bprev = 0, bnext = 0, bdata = []\<rparr>"

definition log_demo0 :: "(u32 \<Rightarrow> u8 list) \<Rightarrow> 'a \<Rightarrow> 'a log_st_scheme" where
  "log_demo0 img x = \<lparr>held = [], mem = (\<lambda>_. 0), kend = 0x80100000, use_lock = True, freelist = 0,
     data_addr = 0x80108000, vgpu = gpu_demo,
     ptable = (\<lambda>_. proc0), cur = (\<lambda>_. None), me = 0, nextpid = 2, initproc = Some 0, kpgdir = 0,
     cr3 = (\<lambda>_. 0), esp0 = (\<lambda>_. 0), forkret_addr = 0, trapret_addr = 0,
     bufs = (\<lambda>_. buf0), memdisk = img, disksize = 1000, dwrites = [],
     log_start = 2, log_size = 30, outstanding = 1, committing = False, log_dev = 1, lh_n = 0,
     lh_block = replicate LOGSIZE 0, \<dots> = x\<rparr>"

definition log_demo :: "(u32 \<Rightarrow> u8 list) \<Rightarrow> 'a \<Rightarrow> 'a log_st_scheme" where
  "log_demo img x = (binit (log_demo0 img x))\<lparr>cur := (\<lambda>_. Some 0)\<rparr>"

definition zero_img :: "u32 \<Rightarrow> u8 list" where
  "zero_img = (\<lambda>_. replicate BSIZE 0)"

lemma log_demo_sel [simp]:
  "memdisk (log_demo img x) = img" "disksize (log_demo img x) = 1000" "log_start (log_demo img x) = 2"
  "log_size (log_demo img x) = 30" "outstanding (log_demo img x) = 1" "\<not> committing (log_demo img x)"
  "log_dev (log_demo img x) = 1" "lh_n (log_demo img x) = 0" "length (lh_block (log_demo img x)) = LOGSIZE"
  "held (log_demo img x) = []" "dwrites (log_demo img x) = []"
  by (simp_all add: log_demo_def log_demo0_def binit_def)

lemma log_demo_boot:
  assumes "\<And>b. length (img b) = BSIZE"
  shows "hdr_ok 1000 2 30 (img 2) \<Longrightarrow> boot_ok (log_demo img x)"
    "hdr_n (img 2) = 0 \<Longrightarrow> tx_inv {} (log_demo img x)" "logged (log_demo img x) = []"
proof -
  have b: "bcoh {} (log_demo img x)" "dblocks (log_demo img x) = {}"
    unfolding log_demo_def using assms
    by (intro binit_ok; simp add: log_demo0_def buf0_def locks_free_def)+
  show l: "logged (log_demo img x) = []" by (simp add: logged_def)
  show "boot_ok (log_demo img x)" if "hdr_ok 1000 2 30 (img 2)"
    using b that by (simp add: boot_ok_def fresh_boot_def)
  show "tx_inv {} (log_demo img x)" if "hdr_n (img 2) = 0"
    using b l that by (simp add: tx_inv_def log_wf_def LOGSIZE_def MAXOPBLOCKS_def)
qed

lemma zero_img_facts [simp]: "length (zero_img b) = BSIZE" "hdr_n (zero_img b) = 0"
  by (simp_all add: zero_img_def hdr_n_def u32_at_def get_bytes_def BSIZE_def of_le32_def)

text \<open>The log \<open>mkfs\<close> lays out: blocks 2 to 31; block 32 is the first inode block.\<close>

lemma log_region_2: "b \<in> log_region 2 30 \<longleftrightarrow> (\<exists>i<30. b = 2 + of_nat i)"
  by (auto simp: log_region_def)

lemma not_in_log_region_2: "32 \<le> b \<Longrightarrow> b \<notin> log_region 2 30"
  by (auto simp: log_region_2 word_le_nat_alt unat_word_ariths unat_of_nat)

text \<open>One block changed inside the transaction: the state before a commit.\<close>

lemma log_demo_written:
  obtains s :: "'a log_st_scheme" where "tx_inv {} s" "lh_n s > 0" "log_start s = 2" "log_size s = 30" "outstanding s = 1" "\<not> committing s"
    "disksize s = 1000" "memdisk s = zero_img" "view s 32 = replicate BSIZE 1"
proof -
  fix x :: 'a
  let ?s = "log_demo zero_img x"
  have inv: "tx_inv {} ?s" "logged ?s = []" using log_demo_boot [of zero_img x] by simp_all
  have "32 \<notin> log_region 2 30" by (rule not_in_log_region_2) simp
  then obtain s' where s': "tx_inv {} s'" "lframe ?s s'"
    "tx_obs_of s' = (tx_obs_of ?s)\<lparr>t_view := (view ?s)(32 := replicate BSIZE 1), t_logged := {32}, t_slots := 28\<rparr>"
    using tx.read_modify_write [OF inv(1), of 32 "\<lambda>_ _. replicate BSIZE 1" "\<lambda>_. replicate BSIZE 1"] inv(2) by auto
  have "t_slots (tx_obs_of s') = 28" "view s' 32 = replicate BSIZE 1"
    using arg_cong [OF s'(3), of t_slots] arg_cong [OF s'(3), of t_view] by simp_all
  moreover have "log_size s' = 30" "log_start s' = 2" "outstanding s' = 1" "\<not> committing s'" "disksize s' = 1000"
    "memdisk s' = zero_img"
    using s'(2) by (auto simp: lframe_def)
  ultimately show ?thesis using that s'(1) by simp
qed

section \<open>Properties of the log\<close>

lemma commit_all:
  assumes "int (length bs) < sz" "b \<notin> log_region st sz"
  shows "apply_writes (commit_writes st bs V) D b = (if b \<in> set bs then V b else D b)"
proof -
  have W: "commit_writes st bs V = log_phase st bs V @ [(st, full_header st bs V)] @ home_phase bs V @
      [(st, put_header 0 bs (full_header st bs V))]"
    by (simp add: commit_writes_def log_phase_def home_phase_def full_header_def Let_def)
  show ?thesis
    using log_phase_out [OF assms, of "length bs" V D] log_region_header [OF assms(2)] assms(1)
    by (simp add: W home_phase_all log_phase_def)
qed

lemma tx_writes_home:
  assumes inv: "tx_inv {} s" and b: "b \<notin> log_region (log_start s) (log_size s)"
  shows "apply_writes (tx_writes s) (memdisk s) b = view s b" "apply_writes (tx_writes s) (view s) b = view s b"
proof -
  have cl: "view s b = memdisk s b" if "b \<notin> set (logged s)" using tx.t_clean [OF inv, of b] that by simp
  note W = commit_all [OF logged_facts(2) [OF inv] b, of "view s"]
  have "\<not> lh_n s > 0 \<Longrightarrow> logged s = []" by (simp add: logged_def)
  then show "apply_writes (tx_writes s) (memdisk s) b = view s b" "apply_writes (tx_writes s) (view s) b = view s b"
    using W cl by (auto simp: tx_writes_def)
qed

lemma commit_prefix_boot:
  assumes inv: "tx_inv {} s" and t: "fresh_boot t" "log_start t = log_start s" "log_size t = log_size s" "disksize t = disksize s"
    "memdisk t = apply_writes (take k (commit_writes (log_start s) (logged s) (view s))) (memdisk s)"
  shows "boot_ok t"
proof -
  let ?st = "log_start s" and ?bs = "logged s"
  note lf = logged_facts [OF inv]
  have wf: "log_wf s" and hd: "hdr_n (memdisk s ?st) = 0" using inv by (auto simp: tx_inv_def)
  have len: "length (view s ?st) = BSIZE" using tx.t_len [OF inv] by simp
  have "?st \<notin> set ?bs" using lf(5) [of ?st] log_regionI(2) [OF lf(9)] by auto
  note ch = commit_prefix_header [OF wf lf(2) this, of k "view s" "memdisk s"]
  note fh = full_header_facts [of "view s" ?st ?bs, OF len lf(8)]
  have "?bs ! i < disksize s \<and> ?bs ! i \<notin> log_region ?st (log_size s)" if "i < length ?bs" for i
    using that lf(4) [OF that] lf(1) wf by (auto simp: log_wf_def)
  then have "hdr_ok (disksize s) ?st (log_size s) (full_header ?st ?bs (view s))"
    using fh lf(2,8) by (simp add: hdr_ok_def)
  then have "hdr_ok (disksize s) ?st (log_size s) (memdisk t ?st)" using ch fh(4) lf(9) hd t(5) by (auto simp: hdr_ok_def)
  then show ?thesis using t by (simp add: boot_ok_def)
qed

text \<open>
  C1: crash safety of \<open>commit\<close>. Take a transaction that satisfies the invariant of the log and commit
  it. Let the machine stop after any number \<open>k\<close> of the block writes that \<open>commit\<close> issues, boot again on
  the disk as it is then, and run \<open>recover_from_log\<close>: recovery terminates normally, and every block
  outside the \<open>log_size\<close> blocks of the log holds what it held before the transaction, or every one
  holds what the transaction wrote.
\<close>

theorem commit_crash_safe:
  fixes s :: "'a log_st_scheme"
  assumes "tx_inv {} s" "lh_n s > 0"
  shows "\<exists>s' ws. commit s = Inr s' \<and> dwrites s' = dwrites s @ ws \<and> memdisk s' = apply_writes ws (memdisk s) \<and>
    (\<forall>k (t :: 'a log_st_scheme). fresh_boot t \<longrightarrow> log_start t = log_start s \<longrightarrow> log_size t = log_size s \<longrightarrow> disksize t = disksize s \<longrightarrow>
       memdisk t = apply_writes (take k ws) (memdisk s) \<longrightarrow>
       (\<exists>t'. recover_from_log t = Inr t' \<and>
         ((\<forall>b. b \<notin> log_region (log_start s) (log_size s) \<longrightarrow> memdisk t' b = memdisk s b) \<or>
          (\<forall>b. b \<notin> log_region (log_start s) (log_size s) \<longrightarrow> memdisk t' b = view s b))))"
proof -
  let ?st = "log_start s" and ?W = "commit_writes (log_start s) (logged s) (view s)"
  note lf = logged_facts [OF assms(1)]
  obtain s' where s': "commit s = Inr s'" "bobs s' = obs_writes ?W (bobs s)"
    using commit_ok [OF assms] by blast
  have crash: "\<exists>t'. recover_from_log t = Inr t' \<and>
      ((\<forall>b. b \<notin> log_region ?st (log_size s) \<longrightarrow> memdisk t' b = memdisk s b) \<or>
       (\<forall>b. b \<notin> log_region ?st (log_size s) \<longrightarrow> memdisk t' b = view s b))"
    if t: "fresh_boot t" "log_start t = ?st" "log_size t = log_size s" "disksize t = disksize s"
      "memdisk t = apply_writes (take k ?W) (memdisk s)" for k and t :: "'a log_st_scheme"
  proof -
    obtain t' where t': "recover_from_log t = Inr t'"
      "bobs t' = obs_writes (recovery_writes (log_start t) (memdisk t)) (bobs t)"
      using recover_ok [OF commit_prefix_boot [OF assms(1) t]] by blast
    have m: "memdisk t' = recover_disk ?st (memdisk t)" using bobsD(2) [OF t'(2)] t(2) by (simp add: recover_disk_def)
    have wf: "log_wf s" and hd: "hdr_n (memdisk s ?st) = 0" using assms(1) by (auto simp: tx_inv_def)
    have out: "set (logged s) \<inter> log_region ?st (log_size s) = {}" using lf(5) by auto
    have len: "length (view s ?st) = BSIZE" using tx.t_len [OF assms(1)] by simp
    have same: "\<And>b. b \<notin> log_region ?st (log_size s) \<Longrightarrow> b \<notin> set (logged s) \<Longrightarrow> view s b = memdisk s b"
      using tx.t_clean [OF assms(1)] by simp
    show ?thesis using commit_prefix [of s "logged s" "memdisk s" "view s" k, OF wf lf(8,2) out hd len same] t'(1) m t(5) by auto
  qed
  then show ?thesis using s'(1) bobsD(2,3) [OF s'(2)] by blast
qed

theorem commit_crash_safe_witness:
  "\<exists>(s :: log_st) s' ws. tx_inv {} s \<and> lh_n s > 0 \<and> commit s = Inr s' \<and> dwrites s' = dwrites s @ ws \<and>
    (\<forall>k (t :: log_st). fresh_boot t \<longrightarrow> log_start t = log_start s \<longrightarrow> log_size t = log_size s \<longrightarrow> disksize t = disksize s \<longrightarrow>
       memdisk t = apply_writes (take k ws) (memdisk s) \<longrightarrow>
       (\<exists>t'. recover_from_log t = Inr t' \<and>
         ((\<forall>b. b \<notin> log_region (log_start s) (log_size s) \<longrightarrow> memdisk t' b = memdisk s b) \<or>
          (\<forall>b. b \<notin> log_region (log_start s) (log_size s) \<longrightarrow> memdisk t' b = view s b))))"
proof -
  obtain s :: log_st where s: "tx_inv {} s" "lh_n s > 0" by (rule log_demo_written)
  show ?thesis using commit_crash_safe [OF s] s by blast
qed

text \<open>
  C2: recovery after a crash during recovery. \<open>recover_from_log\<close> terminates on every disk whose header
  a commit can have left (at most \<open>log_size - 1\<close> blocks, none of them a block of the log), turns the disk
  into \<open>recover_disk\<close> of it and clears the log; when the machine stops after any number of the block
  writes of recovery and boots again, the second recovery gives the same contents outside the
  \<open>log_size\<close> blocks of the log. The log has at most \<open>LOGSIZE\<close> blocks, as \<open>mkfs\<close> lays it out.
\<close>

theorem recovery_crash_safe:
  fixes s :: "'a log_st_scheme"
  assumes "boot_ok s" "log_size s \<le> int LOGSIZE" "LK_log \<notin> set (held s)"
  shows "\<exists>s' ws. recover_from_log s = Inr s' \<and> tx_inv {} s' \<and> logged s' = [] \<and>
    memdisk s' = recover_disk (log_start s) (memdisk s) \<and> dwrites s' = dwrites s @ ws \<and>
    (\<forall>k (t :: 'a log_st_scheme). fresh_boot t \<longrightarrow> log_start t = log_start s \<longrightarrow> log_size t = log_size s \<longrightarrow> disksize t = disksize s \<longrightarrow>
       memdisk t = apply_writes (take k ws) (memdisk s) \<longrightarrow>
       (\<exists>t'. recover_from_log t = Inr t' \<and>
         (\<forall>b. b \<notin> log_region (log_start s) (log_size s) \<longrightarrow> memdisk t' b = memdisk s' b)))"
proof -
  let ?st = "log_start s"
  obtain s' where s': "recover_from_log s = Inr s'" using recover_ok [OF assms(1)] by blast
  note r = recover_restores_inv [OF assms(1) s' assms(2,3)]
  have ok: "hdr_ok (disksize s) ?st (log_size s) (memdisk s ?st)" and len: "length (memdisk s ?st) = BSIZE"
    using assms(1) bcohD(4) by (auto simp: boot_ok_def fresh_boot_def)
  have again: "\<exists>t'. recover_from_log t = Inr t' \<and> (\<forall>b. b \<notin> log_region ?st (log_size s) \<longrightarrow> memdisk t' b = memdisk s' b)"
    if t: "fresh_boot t" "log_start t = ?st" "log_size t = log_size s" "disksize t = disksize s"
      "memdisk t = apply_writes (take k (recovery_writes ?st (memdisk s))) (memdisk s)" for k and t :: "'a log_st_scheme"
  proof -
    note rp = recovery_prefix [where D = "memdisk s" and k = k, OF ok len]
    have "boot_ok t" using rp(2) t by (auto simp: boot_ok_def)
    then obtain t' where t': "recover_from_log t = Inr t'"
      "bobs t' = obs_writes (recovery_writes (log_start t) (memdisk t)) (bobs t)" using recover_ok by blast
    then show ?thesis using rp(1) t bobsD(2) [OF t'(2)] r(2) by (auto simp: recover_disk_def)
  qed
  then show ?thesis using s' r by blast
qed

text \<open>A disk with a committed transaction: the log copy of block 32 is in block 3.\<close>

definition committed_img :: "u32 \<Rightarrow> u8 list" where
  "committed_img = zero_img(2 := put_header 1 [32] (zero_img 2), 3 := replicate BSIZE 7)"

lemma committed_img_facts:
  "length (committed_img b) = BSIZE" "hdr_n (committed_img 2) = 1" "hdr_block (committed_img 2) 0 = 32"
proof -
  have n: "(1 :: int) \<le> int LOGSIZE" by (simp add: LOGSIZE_def MAXOPBLOCKS_def)
  note ph = put_header_facts [of "zero_img 2" 1 "[32]", OF zero_img_facts(1) _ n]
  show "length (committed_img b) = BSIZE" using ph(1) by (simp add: committed_img_def)
  show "hdr_n (committed_img 2) = 1" using ph(2) by (simp add: committed_img_def)
  show "hdr_block (committed_img 2) 0 = 32" using ph(3) [of 0] by (simp add: committed_img_def)
qed

lemma committed_img_hdr: "hdr_ok 1000 2 30 (committed_img 2)"
proof -
  have "(32 :: u32) \<notin> log_region 2 30" by (rule not_in_log_region_2) simp
  then show ?thesis unfolding hdr_ok_def committed_img_facts(2) using committed_img_facts(3)
    by (simp add: LOGSIZE_def MAXOPBLOCKS_def)
qed

theorem recovery_crash_safe_witness:
  "\<exists>s'. recover_from_log (log_demo committed_img ()) = Inr s' \<and> tx_inv {} s' \<and> memdisk s' 32 = replicate BSIZE 7"
proof -
  let ?s = "log_demo committed_img () :: log_st"
  have b: "boot_ok ?s" by (rule log_demo_boot(1) [of committed_img, OF committed_img_facts(1) committed_img_hdr])
  have "committed_img (2 + of_nat 0 + 1) = replicate BSIZE 7" by (simp add: committed_img_def)
  then have "install_writes 2 committed_img = [(32, replicate BSIZE 7)]"
    unfolding install_writes_def committed_img_facts(2) by (simp add: committed_img_facts(3))
  then have r: "recover_disk 2 committed_img 32 = replicate BSIZE 7"
    by (simp add: recover_disk_def recovery_writes_def)
  have "\<exists>s' ws. recover_from_log ?s = Inr s' \<and> tx_inv {} s' \<and>
      memdisk s' = recover_disk (log_start ?s) (memdisk ?s) \<and> dwrites s' = dwrites ?s @ ws"
    using recovery_crash_safe [OF b] by (fastforce simp: LOGSIZE_def MAXOPBLOCKS_def)
  then show ?thesis using r by fastforce
qed

text \<open>
  C3: durability. When the last outstanding system call ends, \<open>end_op\<close> commits without panicking or
  sleeping: every block outside the \<open>log_size\<close> blocks of the log then has on the disk the contents it had in the cache, the
  contents seen through the cache are unchanged, the log is empty and the invariant holds again.
\<close>

theorem end_op_durable:
  assumes "tx_inv {} s" "outstanding s = 1" "\<not> committing s"
  shows "\<exists>s'. end_op s = Inr s' \<and> tx_inv {} s' \<and> logged s' = [] \<and> outstanding s' = 0 \<and> \<not> committing s' \<and>
    held s' = held s \<and>
    (\<forall>b. b \<notin> log_region (log_start s) (log_size s) \<longrightarrow> memdisk s' b = view s b \<and> view s' b = view s b)"
  using end_op_commits [OF assms] tx_writes_home [OF assms(1)] by metis

theorem end_op_durable_witness:
  "\<exists>(s :: log_st) s'. tx_inv {} s \<and> outstanding s = 1 \<and> \<not> committing s \<and> memdisk s 32 = replicate BSIZE 0 \<and>
     end_op s = Inr s' \<and> logged s' = [] \<and> memdisk s' 32 = replicate BSIZE 1"
proof -
  obtain s :: log_st where s: "tx_inv {} s" "log_start s = 2" "log_size s = 30" "outstanding s = 1" "\<not> committing s"
    "memdisk s = zero_img" "view s 32 = replicate BSIZE 1" by (rule log_demo_written)
  have "(32 :: u32) \<notin> log_region 2 30" by (rule not_in_log_region_2) simp
  moreover have "memdisk s 32 = replicate BSIZE 0" using s(6) by (simp add: zero_img_def)
  ultimately show ?thesis using end_op_durable [OF s(1,4,5)] s by metis
qed

text \<open>
  C8: a block is recorded in the log at most once. For a held buffer of a block outside the log, while
  there is room and an operation is outstanding, \<open>log_write\<close> succeeds; a block that is already
  recorded uses no further slot, any other block uses exactly one, the contents and the disk do not
  change, and the invariant (recorded blocks are pinned in the cache, without duplicates) holds again.
\<close>

theorem log_write_absorbs:
  assumes "tx_inv H s" "i \<in> H" "lh_n s < log_size s - 1" "1 \<le> outstanding s"
    "blockno (bufs s i) \<notin> log_region (log_start s) (log_size s)"
  shows "\<exists>s'. log_write i s = Inr s' \<and> tx_inv H s' \<and>
    set (logged s') = insert (blockno (bufs s i)) (set (logged s)) \<and> distinct (logged s') \<and>
    lh_n s' = (if blockno (bufs s i) \<in> set (logged s) then lh_n s else lh_n s + 1) \<and>
    dirty (bufs s' i) \<and> view s' = view s \<and> memdisk s' = memdisk s \<and> held s' = held s"
proof -
  obtain s' where s': "log_write i s = Inr s'" "tx_inv H s'" "lframe s s'"
    "tx_obs_of s' = (tx_obs_of s)\<lparr>t_logged := insert (blockno (bufs s i)) (set (logged s)),
      t_slots := (if blockno (bufs s i) \<in> set (logged s) then log_size s - 1 - lh_n s else log_size s - 2 - lh_n s)\<rparr>"
    using log_write_ok [OF assms] by blast
  have f: "log_size s' = log_size s" "memdisk s' = memdisk s" "held s' = held s"
    using s'(3) by (auto simp: lframe_def)
  have d: "dirty (bufs s' i)"
    using s'(1) log_write_eq [OF assms(1,3,4), of i] by (auto simp: Let_def dirty_def split: if_splits)
  show ?thesis
    using s'(1,2) f d arg_cong [OF s'(4), of t_logged] arg_cong [OF s'(4), of t_slots]
      arg_cong [OF s'(4), of t_view]
    by (auto simp: tx_inv_def split: if_splits)
qed

theorem log_write_absorbs_witness:
  "\<exists>(s :: log_st) i s'. tx_inv {i} s \<and> lh_n s = 0 \<and> log_write i s = Inr s' \<and> lh_n s' = 1 \<and>
     set (logged s') = {32}"
proof -
  let ?s = "log_demo zero_img () :: log_st"
  have inv: "tx_inv {} ?s" using log_demo_boot(2) [of zero_img] by simp
  have "32 < t_size (tx_obs_of ?s)" by simp
  then obtain i s1 where s1: "tx_inv {i} s1" "blockno (bufs s1 i) = 32" "tx_obs_of s1 = tx_obs_of ?s" "lframe ?s s1"
    using tx.t_rd [OF inv, of 32] by auto
  have f: "log_size s1 = 30" "log_start s1 = 2" "outstanding s1 = 1" using s1(4) by (auto simp: lframe_def)
  have n: "lh_n s1 = 0" "logged s1 = []"
    using arg_cong [OF s1(3), of t_slots] arg_cong [OF s1(3), of t_logged] f log_demo_boot(3) [of zero_img "()"]
    by simp_all
  have "(32 :: u32) \<notin> log_region 2 30" by (rule not_in_log_region_2) simp
  then show ?thesis using log_write_absorbs [OF s1(1), of i] s1 f n by fastforce
qed

section \<open>The block operations do not touch the log\<close>

lemma acq_more: "acq l s = Inr s' \<Longrightarrow> s' = s\<lparr>held := l # held s\<rparr>"
  by (auto simp: acq_def split: if_splits)

lemma rel_more: "rel l s = Inr s' \<Longrightarrow> s' = s\<lparr>held := removeAll l (held s)\<rparr>"
  by (auto simp: rel_def split: if_splits)

lemma upd_buf_more [simp]: "bio_st.more (upd_buf i f s) = bio_st.more s" "bio_st.more (upd_buf_lock i g s) = bio_st.more s"
  by (simp_all add: upd_buf_def upd_buf_lock_def)

lemma wakeup_more: "wakeup c s = Inr s' \<Longrightarrow> bio_st.more s' = bio_st.more s"
  by (auto simp: wakeup_def wakeup1_def bind_r_eq_Inr dest!: acq_more rel_more)

lemma holdingsleep_more: "holdingsleep c g s = Inr (h, s') \<Longrightarrow> bio_st.more s' = bio_st.more s"
  by (auto simp: holdingsleep_def bind_r_eq_Inr Let_def dest!: acq_more rel_more)

lemma acquiresleep_more:
  "acquiresleep c g (upd_buf_lock i) s = Inr s' \<Longrightarrow> bio_st.more s' = bio_st.more s"
  by (auto simp: acquiresleep_def bind_r_eq_Inr Let_def split: if_splits option.splits dest!: acq_more rel_more)

lemma releasesleep_more: "releasesleep c (upd_buf_lock i) s = Inr s' \<Longrightarrow> bio_st.more s' = bio_st.more s"
  by (auto simp: releasesleep_def bind_r_eq_Inr Let_def dest!: acq_more rel_more wakeup_more)

lemma iderw_more: "iderw i s = Inr s' \<Longrightarrow> bio_st.more s' = bio_st.more s"
  by (auto simp: iderw_def bind_r_eq_Inr Let_def split: if_splits dest!: holdingsleep_more)

lemma bget_more: "bget d b s = Inr (i, s') \<Longrightarrow> bio_st.more s' = bio_st.more s"
  by (auto simp: bget_def bind_r_eq_Inr Let_def simp del: scan_fwd.simps scan_bwd.simps
      split: option.splits dest!: acq_more rel_more acquiresleep_more)

lemma bread_more: "bread d b s = Inr (i, s') \<Longrightarrow> bio_st.more s' = bio_st.more s"
  by (auto simp: bread_def bind_r_eq_Inr split: if_splits dest!: bget_more iderw_more)

lemma bwrite_more: "bwrite i s = Inr s' \<Longrightarrow> bio_st.more s' = bio_st.more s"
  by (auto simp: bwrite_def bind_r_eq_Inr split: if_splits dest!: holdingsleep_more iderw_more)

lemma brelse_more: "brelse i s = Inr s' \<Longrightarrow> bio_st.more s' = bio_st.more s"
  by (auto simp: brelse_def bind_r_eq_Inr Let_def split: if_splits
      dest!: holdingsleep_more releasesleep_more acq_more rel_more)

lemma set_data_more [simp]: "bio_st.more (set_data i d s) = bio_st.more s"
  by (simp add: set_data_def)

lemmas block_ops_more = bread_more bwrite_more brelse_more

lemma more_log:
  assumes "bio_st.more s' = bio_st.more s"
  shows "lh_n s' = lh_n s" "outstanding s' = outstanding s" "committing s' = committing s" "log_size s' = log_size s"
  using assms by (cases s; cases s'; simp)+

lemma install_from_more: "install_from t k s = Inr s' \<Longrightarrow> bio_st.more s' = bio_st.more s"
proof (induction k arbitrary: t s)
  case (Suc k)
  then show ?case by (auto simp: bind_r_eq_Inr dest!: block_ops_more)
qed simp

lemma write_from_more: "write_from t k s = Inr s' \<Longrightarrow> bio_st.more s' = bio_st.more s"
proof (induction k arbitrary: t s)
  case (Suc k)
  then show ?case by (auto simp: bind_r_eq_Inr dest!: block_ops_more)
qed simp

lemma write_head_more: "write_head s = Inr s' \<Longrightarrow> bio_st.more s' = bio_st.more s"
  by (auto simp: write_head_def bind_r_eq_Inr Let_def dest!: block_ops_more)

lemma commit_counts:
  assumes "commit s = Inr s'"
  shows "outstanding s' = outstanding s" "lh_n s' = (if lh_n s > 0 then 0 else lh_n s)"
proof -
  have "outstanding s' = outstanding s \<and> lh_n s' = (if lh_n s > 0 then 0 else lh_n s)"
  proof (cases "lh_n s > 0")
    case True
    then obtain x where x: "bio_st.more x = bio_st.more s" "write_head (x\<lparr>lh_n := 0\<rparr>) = Inr s'"
      using assms by (auto simp: commit_def write_log_def install_trans_def bind_r_eq_Inr
          dest!: write_from_more install_from_more dest: write_head_more)
    show ?thesis using more_log [OF write_head_more [OF x(2)]] more_log [OF x(1)] True by simp
  qed (use assms in \<open>simp add: commit_def\<close>)
  then show "outstanding s' = outstanding s" "lh_n s' = (if lh_n s > 0 then 0 else lh_n s)" by blast+
qed

lemma wakeup_log:
  assumes "wakeup c s = Inr s'"
  shows "lh_n s' = lh_n s" "outstanding s' = outstanding s"
  using more_log [OF wakeup_more [OF assms]] by simp_all

lemma end_op_counts:
  assumes "end_op s = Inr s'" "0 \<le> lh_n s"
  shows "outstanding s' = outstanding s - 1" "lh_n s' = (if outstanding s = 1 then 0 else lh_n s)"
proof -
  have "outstanding s' = outstanding s - 1 \<and> lh_n s' = (if outstanding s = 1 then 0 else lh_n s)"
    using assms by (auto simp: end_op_def bind_r_eq_Inr Let_def wakeup_log commit_counts split: if_splits
        dest!: acq_more rel_more)
  then show "outstanding s' = outstanding s - 1" "lh_n s' = (if outstanding s = 1 then 0 else lh_n s)" by blast+
qed

section \<open>The reservation of the log\<close>

text \<open>
  System calls in any interleaving, with the number of blocks each may still log. A call may log
  \<open>MAXOPBLOCKS\<close> blocks between its \<open>begin_op\<close> and its \<open>end_op\<close>; in between, all other code of the
  kernel may do anything but change the counters of the log (\<open>elsewhere\<close>).
\<close>

inductive log_run :: "'a log_st_scheme \<Rightarrow> nat list \<Rightarrow> bool" where
  start: "lh_n s = 0 \<Longrightarrow> outstanding s = 0 \<Longrightarrow> log_run s []"
| began: "log_run s bs \<Longrightarrow> begin_op s = Inr s' \<Longrightarrow> log_run s' (MAXOPBLOCKS # bs)"
| recorded: "log_run s bs \<Longrightarrow> i < length bs \<Longrightarrow> 0 < bs ! i \<Longrightarrow> log_write b s = Inr s' \<Longrightarrow>
    log_run s' (bs[i := bs ! i - 1])"
| ended: "log_run s bs \<Longrightarrow> i < length bs \<Longrightarrow> end_op s = Inr s' \<Longrightarrow>
    log_run s' (take i bs @ drop (Suc i) bs)"
| elsewhere: "log_run s bs \<Longrightarrow> lh_n s' = lh_n s \<Longrightarrow> outstanding s' = outstanding s \<Longrightarrow> log_run s' bs"

lemma log_write_counts:
  "log_write b s = Inr s' \<Longrightarrow> lh_n s \<le> lh_n s' \<and> lh_n s' \<le> lh_n s + 1 \<and> outstanding s' = outstanding s"
  by (auto simp: log_write_def acq_def rel_def Let_def upd_buf_def split: if_splits)

lemma sum_list_dec: "i < length bs \<Longrightarrow> 0 < bs ! i \<Longrightarrow> Suc (sum_list (bs[i := bs ! i - 1])) = sum_list bs" for bs :: "nat list"
  by (induction bs arbitrary: i) (auto split: nat.split)

lemma sum_list_del: "sum_list (take i bs @ drop (Suc i) bs) \<le> sum_list bs" for bs :: "nat list"
  by (induction bs arbitrary: i) (auto simp: take_Cons drop_Cons split: nat.split)

lemma sum_list_bounded: "\<forall>b \<in> set bs. b \<le> m \<Longrightarrow> sum_list bs \<le> length bs * m" for bs :: "nat list"
  by (induction bs) auto

lemma log_run_reserved:
  "log_run s bs \<Longrightarrow> outstanding s = int (length bs) \<and> 0 \<le> lh_n s \<and> (\<forall>b \<in> set bs. b \<le> MAXOPBLOCKS) \<and>
     lh_n s + int (sum_list bs) \<le> int LOGSIZE"
proof (induction rule: log_run.induct)
  case (began s bs s')
  have "sum_list bs \<le> length bs * MAXOPBLOCKS" using began.IH by (intro sum_list_bounded) blast
  then have "int (sum_list bs) \<le> int (length bs) * int MAXOPBLOCKS" by (metis of_nat_le_iff of_nat_mult)
  then show ?case using began by (auto simp: begin_op_Inr algebra_simps)
next
  case (recorded s bs i b s')
  have "bs ! i - 1 \<le> MAXOPBLOCKS" using recorded.IH nth_mem [OF recorded.hyps(2)] by (meson diff_le_self le_trans)
  with recorded show ?case
    using log_write_counts [OF recorded.hyps(4)] sum_list_dec [OF recorded.hyps(2,3)]
    by (auto dest!: set_update_subset_insert [THEN subsetD])
next
  case (ended s bs i s')
  then show ?case
    using end_op_counts [OF ended.hyps(3)] sum_list_del [of i bs]
    by (auto dest: in_set_takeD in_set_dropD)
qed simp_all

text \<open>
  C4: the reservation of \<open>begin_op\<close> is sound. In every interleaving of calls that each log at most
  \<open>MAXOPBLOCKS\<close> blocks, with any other activity of the kernel in between, the blocks recorded and the
  blocks still reserved fit the \<open>LOGSIZE\<close> entries of the header. So a call that has blocks left finds a
  free entry: its \<open>log_write\<close> succeeds whenever the log on disk has a block left, and the only panic
  it can meet is that of a log on disk of at most \<open>LOGSIZE\<close> blocks.
\<close>

theorem begin_op_reserves_room:
  assumes "log_run s bs"
  shows "outstanding s = int (length bs) \<and> lh_n s + int (sum_list bs) \<le> int LOGSIZE \<and>
    (\<forall>i < length bs. 0 < bs ! i \<longrightarrow> LK_log \<notin> set (held s) \<longrightarrow> lh_n s < int LOGSIZE \<and>
      (if lh_n s < log_size s - 1 then \<exists>s'. log_write b s = Inr s' \<and> log_run s' (bs[i := bs ! i - 1])
       else log_size s \<le> int LOGSIZE \<and> log_write b s = Inl (Panic ''too big a transaction'')))"
proof -
  note r = log_run_reserved [OF assms]
  have "lh_n s < int LOGSIZE \<and>
      (if lh_n s < log_size s - 1 then \<exists>s'. log_write b s = Inr s' \<and> log_run s' (bs[i := bs ! i - 1])
       else log_size s \<le> int LOGSIZE \<and> log_write b s = Inl (Panic ''too big a transaction''))"
    if i: "i < length bs" "0 < bs ! i" "LK_log \<notin> set (held s)" for i
  proof -
    have "bs ! i \<le> sum_list bs" using i(1) by (intro member_le_sum_list) simp_all
    then have n: "lh_n s < int LOGSIZE" using r i(2) by linarith
    have o: "1 \<le> outstanding s" using r i(1) by simp
    have "\<exists>s'. log_write b s = Inr s'" if "lh_n s < log_size s - 1"
      using that n o i(3) by (auto simp: log_write_def Let_def upd_buf_def)
    moreover have "log_write b s = Inl (Panic ''too big a transaction'')" if "\<not> lh_n s < log_size s - 1"
      using that by (simp add: log_write_def)
    ultimately show ?thesis using n log_run.recorded [OF assms i(1,2)] by fastforce
  qed
  then show ?thesis using r by blast
qed

theorem begin_op_reserves_room_witness:
  "\<exists>s s'. begin_op ((log_demo zero_img ())\<lparr>outstanding := 0\<rparr>) = Inr s \<and> log_write 0 s = Inr s' \<and> log_run s' [9]"
proof -
  let ?s = "(log_demo zero_img ())\<lparr>outstanding := 0\<rparr>" and ?t = "(log_demo zero_img ())\<lparr>outstanding := 1\<rparr>"
  have b: "begin_op ?s = Inr ?t" by (simp add: begin_op_Inr LOGSIZE_def MAXOPBLOCKS_def)
  have "log_run ?s []" by (rule log_run.start) simp_all
  from log_run.began [OF this b] have "log_run ?t [10]" by (simp add: MAXOPBLOCKS_def)
  from begin_op_reserves_room [OF this, of 0] b show ?thesis by auto
qed

text \<open>The way a call changes blocks: read each, record it, release it.\<close>

fun log_blocks :: "u32 list \<Rightarrow> 'a log_st_scheme \<Rightarrow> 'a log_st_scheme res" where
  "log_blocks [] s = Inr s"
| "log_blocks (b # bs) s =
     bind_r (bread 1 b s) (\<lambda>(i, s). bind_r (log_write i s) (\<lambda>s. bind_r (brelse i s) (log_blocks bs)))"

lemma log_blocks_ok:
  assumes "tx_inv {} s" "1 \<le> outstanding s" "distinct bs" "set bs \<inter> set (logged s) = {}"
    "\<forall>b\<in>set bs. b < disksize s \<and> b \<notin> log_region (log_start s) (log_size s)"
    "lh_n s + int (length bs) < log_size s"
  shows "\<exists>s'. log_blocks bs s = Inr s' \<and> tx_inv {} s' \<and> lframe s s' \<and> lh_n s' = lh_n s + int (length bs) \<and>
    set (logged s') = set (logged s) \<union> set bs"
  using assms
proof (induction bs arbitrary: s)
  case Nil
  then show ?case using lframe_refl by auto
next
  case (Cons b bs)
  obtain i s1 where s1: "bread 1 b s = Inr (i, s1)" "tx_inv {i} s1" "blockno (bufs s1 i) = b"
    "tx_obs_of s1 = tx_obs_of s" "lframe s s1"
    using tx.t_rd [OF Cons.prems(1), of b] Cons.prems(5) by auto
  obtain s2 where s2: "log_write i s1 = Inr s2" "tx_inv {i} s2" "blockno (bufs s2 i) = b" "lframe s1 s2"
    "tx_obs_of s2 = (tx_obs_of s)\<lparr>t_logged := insert b (set (logged s)), t_slots := log_size s - 2 - lh_n s\<rparr>"
    using tx.t_log [OF s1(2), of i] s1(3,4) Cons.prems by auto
  obtain s3 where s3: "brelse i s2 = Inr s3" "tx_inv {} s3" "lframe s2 s3" "tx_obs_of s3 = tx_obs_of s2"
    using tx.t_rel [OF s2(2), of i] s2(3,5) by auto
  have fr: "lframe s s3" using s1(5) s2(4) s3(3) by (meson lframe_trans)
  have e: "log_start s3 = log_start s" "log_size s3 = log_size s" "disksize s3 = disksize s" "outstanding s3 = outstanding s"
    using fr by (auto simp: lframe_def)
  have o: "set (logged s3) = insert b (set (logged s))" "lh_n s3 = lh_n s + 1"
    using arg_cong [OF s3(4), of t_logged] arg_cong [OF s3(4), of t_slots] s2(5) e(2) by simp_all
  obtain s' where s': "log_blocks bs s3 = Inr s'" "tx_inv {} s'" "lframe s3 s'" "lh_n s' = lh_n s3 + int (length bs)"
    "set (logged s') = set (logged s3) \<union> set bs"
    using Cons.IH [OF s3(2)] Cons.prems e o by auto
  then show ?case using s1(1) s2(1) s3(1) o lframe_trans [OF fr s'(3)] by auto
qed

text \<open>
  C24: the reservation of \<open>begin_op\<close> is larger than the log. With the log \<open>mkfs\<close> lays out (\<open>LOGSIZE\<close>
  blocks, header included), \<open>begin_op\<close> admits three calls at once, which reserves all \<open>LOGSIZE\<close> entries
  of the header. When the three then change \<open>LOGSIZE\<close> different blocks, no more than \<open>MAXOPBLOCKS\<close>
  each, all but the last are recorded and the last one panics.
\<close>

theorem log_reservation_exceeds_log:
  assumes "tx_inv {} s" "logged s = []" "outstanding s = 0" "\<not> committing s" "log_size s = int LOGSIZE"
    and bs: "distinct bs" "length bs = LOGSIZE"
      "\<forall>b\<in>set bs. b < disksize s \<and> b \<notin> log_region (log_start s) (log_size s)"
  shows "\<exists>s3 s4. bind_r (begin_op s) (\<lambda>s. bind_r (begin_op s) begin_op) = Inr s3 \<and>
    outstanding s3 * int MAXOPBLOCKS = int LOGSIZE \<and> log_blocks (butlast bs) s3 = Inr s4 \<and>
    log_blocks [last bs] s4 = Inl (Panic ''too big a transaction'')"
proof -
  let ?s3 = "s\<lparr>outstanding := 3\<rparr>"
  have n: "lh_n s = 0" and lk: "LK_log \<notin> set (held s)"
    using assms(1,2) logged_facts(3) [OF assms(1)] by (auto simp: tx_inv_def)
  have b3: "bind_r (begin_op s) (\<lambda>s. bind_r (begin_op s) begin_op) = Inr ?s3"
    using assms(3,4) n lk by (simp add: begin_op_def LOGSIZE_def MAXOPBLOCKS_def)
  have inv3: "tx_inv {} ?s3" using assms(1) by (subst tx_inv_cong [of _ s]) simp_all
  have ne: "bs \<noteq> []" using bs(2) by (auto simp: LOGSIZE_def MAXOPBLOCKS_def)
  obtain s4 where s4: "log_blocks (butlast bs) ?s3 = Inr s4" "tx_inv {} s4" "lframe ?s3 s4" "lh_n s4 = int (LOGSIZE - 1)"
    using log_blocks_ok [OF inv3, of "butlast bs"] bs n assms(2,5) distinct_butlast [OF bs(1)] ne
    by (auto simp: logged_def dest: in_set_butlastD simp: LOGSIZE_def MAXOPBLOCKS_def)
  have e: "log_size s4 = int LOGSIZE" "disksize s4 = disksize s" using s4(3) assms(5) by (auto simp: lframe_def)
  obtain i s5 where s5: "bread 1 (last bs) s4 = Inr (i, s5)" "tx_obs_of s5 = tx_obs_of s4" "lframe s4 s5"
    using tx.t_rd [OF s4(2), of "last bs"] bs(3) last_in_set [OF ne] e by auto
  have "log_size s5 = int LOGSIZE" using s5(3) e by (auto simp: lframe_def)
  then have "lh_n s5 = log_size s5 - 1"
    using arg_cong [OF s5(2), of t_slots] s4(4) e by (simp add: LOGSIZE_def MAXOPBLOCKS_def)
  then have "log_blocks [last bs] s4 = Inl (Panic ''too big a transaction'')" using s5(1) by (simp add: log_write_def)
  then show ?thesis using b3 s4(1) by (auto simp: LOGSIZE_def MAXOPBLOCKS_def)
qed

theorem log_reservation_exceeds_log_witness:
  "\<exists>(s :: log_st) s3 s4. outstanding s = 0 \<and> bind_r (begin_op s) (\<lambda>s. bind_r (begin_op s) begin_op) = Inr s3 \<and>
    log_blocks (map of_nat [32..<61]) s3 = Inr s4 \<and> log_blocks [61] s4 = Inl (Panic ''too big a transaction'')"
proof -
  let ?s = "(log_demo zero_img ())\<lparr>outstanding := 0\<rparr> :: log_st" and ?bs = "map of_nat [32..<62] :: u32 list"
  have inv: "tx_inv {} ?s" using log_demo_boot(2) [of zero_img "()"] by (subst tx_inv_cong [of _ "log_demo zero_img ()"]) simp_all
  have u: "unat (of_nat i :: u32) = i" if "i < 62" for i using that by (simp add: unat_of_nat)
  have "inj_on (of_nat :: nat \<Rightarrow> u32) {32..<62}" by (rule inj_onI) (metis u atLeastLessThan_iff)
  then have d: "distinct ?bs" by (simp add: distinct_map)
  have r: "b < 1000 \<and> b \<notin> log_region 2 30" if "b \<in> set ?bs" for b
    using that not_in_log_region_2 [of b] u by (auto simp: word_less_nat_alt word_le_nat_alt)
  have l: "logged ?s = []" and c: "\<not> committing ?s" and z: "log_size ?s = int LOGSIZE" and n: "length ?bs = LOGSIZE"
    by (simp_all add: logged_def LOGSIZE_def MAXOPBLOCKS_def)
  have "\<exists>s3 s4. bind_r (begin_op ?s) (\<lambda>s. bind_r (begin_op s) begin_op) = Inr s3 \<and>
      outstanding s3 * int MAXOPBLOCKS = int LOGSIZE \<and> log_blocks (butlast ?bs) s3 = Inr s4 \<and>
      log_blocks [last ?bs] s4 = Inl (Panic ''too big a transaction'')"
    by (rule log_reservation_exceeds_log [OF inv l _ c z d n]) (use r in \<open>simp_all del: upt_rec_numeral\<close>)
  moreover have "butlast ?bs = map of_nat [32..<61]" "last ?bs = 61"
    by (simp_all add: map_butlast [symmetric] last_map)
  moreover have "outstanding ?s = 0" by simp
  ultimately show ?thesis by metis
qed

section \<open>Properties of the buffer cache\<close>

text \<open>
  C7: reading through the cache. While fewer than \<open>NBUF\<close> buffers are held or dirty, \<open>bread\<close> of a block
  of the disk that the process does not already hold returns a locked buffer with the current
  contents of the block; no block changes, nothing is written to the disk, and the cache stays
  coherent with it.
\<close>

theorem bread_reads_block:
  assumes "bcoh H s" "b < disksize s" "b \<notin> hblocks H s" "card H + card (dblocks s) < NBUF"
  shows "\<exists>i s'. bread 1 b s = Inr (i, s') \<and> i \<notin> H \<and> bcoh (insert i H) s' \<and> blockno (bufs s' i) = b \<and>
    bdata (bufs s' i) = view s b \<and> view s' = view s \<and> memdisk s' = memdisk s \<and> dwrites s' = dwrites s \<and>
    held s' = held s"
proof -
  obtain i s' where s': "bread 1 b s = Inr (i, s')" "i \<notin> H" "bcoh (insert i H) s'" "blockno (bufs s' i) = b"
    "bobs s' = bobs s" "bframe s s'"
    using bc.rd_law [OF assms(1), of b] assms(2-4) by (auto simp: hblocks_def)
  have "bdata (bufs s' i) = view s' b" using bc.held_view [OF s'(3), of i] s'(4) by simp
  moreover have "view s' = view s" "memdisk s' = memdisk s" "dwrites s' = dwrites s"
    using arg_cong [OF s'(5), of o_view] arg_cong [OF s'(5), of o_disk] arg_cong [OF s'(5), of o_writes] by simp_all
  moreover have "held s' = held s" using s'(6) by (auto simp: bframe_def)
  ultimately show ?thesis using s' by auto
qed

lemma log_demo_bcoh: "bcoh {} (log_demo zero_img x)" "dblocks (log_demo zero_img x) = {}"
  using log_demo_boot(1) [of zero_img x] by (auto simp: boot_ok_def fresh_boot_def hdr_ok_def)

theorem bread_reads_block_witness:
  "\<exists>i s'. bread 1 32 (log_demo committed_img ()) = Inr (i, s') \<and> bdata (bufs s' i) = replicate BSIZE 0"
proof -
  let ?s = "log_demo committed_img () :: log_st"
  have "boot_ok ?s" by (rule log_demo_boot(1) [of committed_img, OF committed_img_facts(1) committed_img_hdr])
  then have co: "bcoh {} ?s" and d: "dblocks ?s = {}" by (auto simp: boot_ok_def fresh_boot_def)
  have "view ?s 32 = committed_img 32" using bc.clean_view [OF co, of 32] d by simp
  moreover have "committed_img 32 = replicate BSIZE 0" by (simp add: committed_img_def zero_img_def)
  ultimately show ?thesis
    using bread_reads_block [OF co, of 32] d by (auto simp: hblocks_def NBUF_def)
qed

lemma find_rev_last: "find P (rev xs) = (if filter P xs = [] then None else Some (last (filter P xs)))"
  by (induction xs rule: rev_induct) auto

lemma bread_full:
  assumes "lru_list (bufs s) xs" "locks_free s"
    "find (\<lambda>i. bdev (bufs s i) = 1 \<and> blockno (bufs s i) = b) xs = None"
    "find (\<lambda>i. refcnt (bufs s i) = 0 \<and> bflags (bufs s i) AND B_DIRTY = 0) (rev xs) = None"
  shows "bread 1 b s = Inl (Panic ''bget: no buffers'')"
proof -
  have c: "chain (bufs s) HEAD xs HEAD" "HEAD \<notin> set xs" "length xs < Suc NBUF"
    using assms(1) lru_length [OF assms(1)] by (auto simp: lru_list_def)
  show ?thesis using assms(2-4) scan_fwd_chain [OF c] scan_bwd_chain [OF c]
    by (simp add: bread_def bget_def del: scan_fwd.simps scan_bwd.simps)
qed

text \<open>
  C22: replacement. For a block that is not cached, \<open>bread\<close> recycles the least recently used buffer that
  is neither held nor dirty (the last such buffer of the list), leaves every other buffer alone and
  keeps the order of the list; when every buffer is held or dirty it panics.
\<close>

theorem bread_recycles_lru:
  assumes co: "bcoh H s" and xs: "lru_list (bufs s) xs" and miss: "cached s b = None" and b: "b < disksize s"
  shows "case filter (\<lambda>i. i \<notin> H \<and> \<not> dirty (bufs s i)) xs of
      [] \<Rightarrow> bread 1 b s = Inl (Panic ''bget: no buffers'')
    | ys \<Rightarrow> \<exists>s'. bread 1 b s = Inr (last ys, s') \<and> bdata (bufs s' (last ys)) = memdisk s b \<and>
        (\<forall>j. j \<noteq> last ys \<longrightarrow> bufs s' j = bufs s j) \<and> lru_list (bufs s') xs"
proof -
  obtain p where p: "myproc s = Some p" and lf: "locks_free s" using co by (auto simp: bcoh_def)
  have set_xs: "set xs = {..<NBUF}" using xs by (simp add: lru_list_def)
  have nf: "find (\<lambda>i. bdev (bufs s i) = 1 \<and> blockno (bufs s i) = b) xs = None"
    using miss set_xs by (auto simp: find_None_iff cached_None)
  let ?P = "\<lambda>i. refcnt (bufs s i) = 0 \<and> bflags (bufs s i) AND B_DIRTY = 0"
  let ?ys = "filter (\<lambda>i. i \<notin> H \<and> \<not> dirty (bufs s i)) xs"
  have "?P i \<longleftrightarrow> i \<notin> H \<and> \<not> dirty (bufs s i)" if "i \<in> set xs" for i
    using bcohD(5) [OF co, of i] that set_xs by (simp add: buf_ok_def dirty_def)
  then have "filter ?P xs = ?ys" by (rule filter_cong [OF refl])
  then have fr: "find ?P (rev xs) = (if ?ys = [] then None else Some (last ?ys))"
    using find_rev_last [of ?P xs] by simp
  show ?thesis
  proof (cases "?ys = []")
    case True
    then show ?thesis using bread_full [OF xs lf nf] fr by simp
  next
    case False
    let ?i = "last ?ys"
    have "?i \<in> set ?ys" using False by (rule last_in_set)
    then have i: "?i < NBUF" "?i \<notin> H" using set_xs by auto
    then have ok: "sl_locked (block (bufs s ?i)) = 0" using bcohD(5) [OF co i(1)] by (simp add: buf_ok_def)
    have f: "find ?P (rev xs) = Some ?i" using fr False by simp
    note bm = bread_miss [OF xs lf p nf f ok b]
    let ?t = "bufs (upd_buf ?i (\<lambda>c. c\<lparr>bdev := 1, blockno := b, refcnt := 1,
      block := (block c)\<lparr>sl_locked := 1, sl_pid := pid (ptable s p)\<rparr>, bdata := memdisk s b, bflags := B_VALID\<rparr>) s)"
    have "lru_list ?t xs" using xs lru_cong [of ?t "bufs s" xs] by simp
    then show ?thesis using bm False by (cases ?ys) auto
  qed
qed

theorem bread_recycles_lru_witness:
  "\<exists>s'. bread 1 32 (log_demo zero_img ()) = Inr (0, s') \<and> bdata (bufs s' 0) = replicate BSIZE 0"
proof -
  let ?s = "log_demo zero_img () :: log_st"
  have xs: "lru_list (bufs ?s) (rev [0..<NBUF])" using binit_lru [of "log_demo0 zero_img ()"] by (simp add: log_demo_def)
  have k: "bdev (bufs ?s i) = 0 \<and> bflags (bufs ?s i) = 0" if "i < NBUF" for i
    using that binit_loop_keeps [of "[0..<NBUF]"] by (simp add: log_demo_def log_demo0_def binit_def buf0_def HEAD_def)
  have miss: "cached ?s 32 = None" using k by (simp add: cached_None)
  have f: "filter (\<lambda>i. i \<notin> {} \<and> \<not> dirty (bufs ?s i)) (rev [0..<NBUF]) = rev [0..<NBUF]"
    using k by (auto simp: filter_id_conv dirty_def)
  have l: "last (rev [0..<NBUF]) = 0" by (simp add: NBUF_def last_rev)
  obtain z zs where r: "rev [0..<NBUF] = z # zs" "last (z # zs) = 0"
    using l by (cases "rev [0..<NBUF]") (auto simp: NBUF_def)
  have "32 < disksize ?s" by simp
  from bread_recycles_lru [OF log_demo_bcoh(1) xs miss this] show ?thesis
    unfolding f unfolding r(1) list.case r(2) by (auto simp: zero_img_def)
qed

text \<open>
  C23: releasing. \<open>brelse\<close> of a held buffer that is dirty or equal to the disk moves it to the front of
  the least-recently-used list, keeps the order of the others, releases the lock, and changes no
  contents; releasing a buffer that is not locked panics.
\<close>

theorem brelse_moves_to_front:
  assumes "bcoh H s" "lru_list (bufs s) xs" "i < NBUF"
    "i \<in> H \<longrightarrow> dirty (bufs s i) \<or> bdata (bufs s i) = memdisk s (blockno (bufs s i))"
  shows "if i \<in> H
    then \<exists>s'. brelse i s = Inr s' \<and> lru_list (bufs s') (i # remove1 i xs) \<and> bcoh (H - {i}) s' \<and> view s' = view s
    else brelse i s = Inl (Panic ''brelse'')"
proof (cases "i \<in> H")
  case True
  obtain s' t p where s': "brelse i s = Inr s'" "bcoh (H - {i}) s'" "\<And>c. view s' c = view s c"
    using brelse_ok [OF assms(1) True] assms(4) True by metis
  have "lru_list ((bufs s)(i := (bufs s i)\<lparr>block := (block (bufs s i))\<lparr>sl_locked := 0, sl_pid := 0\<rparr>, refcnt := 0\<rparr>)) xs"
    using assms(2) lru_cong [of "(bufs s)(i := (bufs s i)\<lparr>block := (block (bufs s i))\<lparr>sl_locked := 0, sl_pid := 0\<rparr>,
      refcnt := 0\<rparr>)" "bufs s" xs] by simp
  from relink_lru [OF this assms(3)] have "lru_list (bufs s') (i # remove1 i xs)"
    using brelse_eq [OF assms(1) True] s'(1) by auto
  then show ?thesis using True s' ext [of "view s'" "view s"] by auto
next
  case False
  then show ?thesis using bcohD(1,5) [OF assms(1)] assms(3)
    by (simp add: brelse_def holdingsleep_buf buf_ok_def)
qed

theorem brelse_moves_to_front_witness:
  "brelse 3 (log_demo zero_img () :: log_st) = Inl (Panic ''brelse'') \<and>
   (\<exists>i s1 s2. bread 1 32 (log_demo zero_img () :: log_st) = Inr (i, s1) \<and> brelse i s1 = Inr s2 \<and> view s2 = view s1)"
proof -
  let ?s = "log_demo zero_img () :: log_st"
  note co = log_demo_bcoh(1) [of "()"] and d = log_demo_bcoh(2) [of "()"]
  have xs: "lru_list (bufs ?s) (rev [0..<NBUF])" using binit_lru [of "log_demo0 zero_img ()"] by (simp add: log_demo_def)
  have p: "brelse 3 ?s = Inl (Panic ''brelse'')"
    using brelse_moves_to_front [OF log_demo_bcoh(1) xs, of 3] by (simp add: NBUF_def)
  obtain i s1 where s1: "bread 1 32 ?s = Inr (i, s1)" "bcoh {i} s1" "blockno (bufs s1 i) = 32" "bobs s1 = bobs ?s"
    using bc.rd_law [OF co, of 32] d by (auto simp: NBUF_def)
  obtain ys where ys: "lru_list (bufs s1) ys" using s1(2) by (auto simp: bcoh_def)
  have iN: "i < NBUF" using held_buf [OF s1(2)] by simp
  have "bdata (bufs s1 i) = memdisk s1 32"
    using bc.held_view [OF s1(2), of i] s1(3) arg_cong [OF s1(4), of o_view] arg_cong [OF s1(4), of o_disk]
      bc.clean_view [OF co, of 32] d by simp
  then show ?thesis using brelse_moves_to_front [OF s1(2) ys iN] p s1 by auto
qed

end
