(* ===== verification/Vm_User.thy ===== *)
theory Vm_User
  imports Vm
begin

text \<open>
  User address spaces of \<open>xv6/vm.c\<close>: \<open>allocuvm\<close> and \<open>deallocuvm\<close> add and remove exactly the pages of
  the range they are given, also when memory runs out half-way, and \<open>copyout\<close> writes exactly the
  user bytes it is asked to write. All of it is stated over \<open>umap\<close>, the map from user addresses to
  pages, and under the invariant \<open>uvm_ok\<close>.
\<close>

definition in_pages :: "u32 \<Rightarrow> u32 \<Rightarrow> u32 \<Rightarrow> bool" where
  "in_pages lo hi va \<longleftrightarrow> lo \<le> PGROUNDDOWN va \<and> PGROUNDDOWN va < hi"

lemma user_same_trans:
  assumes "user_same m m1 pd P" "user_same m1 m2 pd Q"
    and "\<And>va p. R (PGROUNDDOWN va) \<Longrightarrow> umap m pd va = Some p \<Longrightarrow>
      P (PGROUNDDOWN va) \<and> Q (PGROUNDDOWN va) \<and> umap m1 pd va = Some p"
  shows "user_same m m2 pd R"
  using assms unfolding user_same_def by metis

lemma user_same_weaken: "user_same m m' pd P \<Longrightarrow> (\<And>q. Q q \<Longrightarrow> P q) \<Longrightarrow> user_same m m' pd Q"
  unfolding user_same_def by blast

lemma user_same_refl: "user_same m m pd P"
  by (simp add: user_same_def)

lemma PGROUNDDOWN_lt: "va < KERNBASE \<Longrightarrow> PGROUNDDOWN va < KERNBASE"
proof -
  have "PGROUNDDOWN va \<le> va"
    by (simp add: PGROUNDDOWN_mod word_le_nat_alt unat_sub unat_mod)
  then show "va < KERNBASE \<Longrightarrow> PGROUNDDOWN va < KERNBASE" by simp
qed

lemma in_pages_lt: "in_pages lo hi va \<Longrightarrow> hi < KERNBASE \<Longrightarrow> va < KERNBASE"
proof -
  assume *: "in_pages lo hi va" "hi < KERNBASE"
  have "unat va = unat (PGROUNDDOWN va) + unat va mod 4096"
    by (simp add: PGROUNDDOWN_mod unat_sub word_le_nat_alt unat_mod)
  moreover have "unat (PGROUNDDOWN va) < 2 ^ 31" using * by (simp add: in_pages_def KERNBASE_def word_less_nat_alt)
  moreover obtain j where "unat (PGROUNDDOWN va) = 4096 * j" using aligned_unat [OF PGROUNDDOWN_aligned] by blast
  moreover have "unat va mod 4096 < 4096" by simp
  ultimately have "unat va < 2 ^ 31" by simp
  then show "va < KERNBASE" by (simp add: KERNBASE_def word_less_nat_alt)
qed

section \<open>Shrinking\<close>

text \<open>
  \<open>shrunk s s' pd a hi xs\<close>: from \<open>s\<close> to \<open>s'\<close> the pages of \<open>[a, hi)\<close> were unmapped and exactly they went
  back to the pool \<open>xs\<close>; the other pages kept their place and contents.
\<close>

definition mapped_in :: "mem \<Rightarrow> u32 \<Rightarrow> u32 \<Rightarrow> u32 \<Rightarrow> u32 set" where
  "mapped_in m pd a hi = {p. \<exists>va. in_pages a hi va \<and> umap m pd va = Some p}"

definition shrunk :: "'a kmem_st_scheme \<Rightarrow> 'a kmem_st_scheme \<Rightarrow> u32 \<Rightarrow> u32 \<Rightarrow> u32 \<Rightarrow> u32 list \<Rightarrow> bool" where
  "shrunk s s' pd a hi xs \<longleftrightarrow> (\<exists>ys. uvm_ok s' pd ys \<and> set ys = set xs \<union> mapped_in (mem s) pd a hi) \<and>
     tabs (mem s') pd = tabs (mem s) pd \<and>
     (\<forall>va. umap (mem s') pd va = (if in_pages a hi va then None else umap (mem s) pd va)) \<and>
     user_same (mem s) (mem s') pd (\<lambda>q. \<not> (a \<le> q \<and> q < hi)) \<and> (\<exists>m f. s' = s\<lparr>mem := m, freelist := f\<rparr>)"

lemma shrunk_refl:
  assumes "uvm_ok s pd xs" "\<not> a < hi"
  shows "shrunk s s pd a hi xs"
proof -
  have n: "\<not> in_pages a hi va" for va
    using assms(2) by (auto simp: in_pages_def word_le_nat_alt word_less_nat_alt)
  then have m: "set xs = set xs \<union> mapped_in (mem s) pd a hi" by (simp add: mapped_in_def)
  have "s = s\<lparr>mem := mem s, freelist := freelist s\<rparr>" by simp
  then show ?thesis using assms(1) n m user_same_refl unfolding shrunk_def by metis
qed

lemma shrunk_skip:
  assumes "shrunk s s' pd b hi xs" "a \<le> b" "\<And>va. a \<le> PGROUNDDOWN va \<Longrightarrow> PGROUNDDOWN va < b \<Longrightarrow> umap (mem s) pd va = None"
  shows "shrunk s s' pd a hi xs"
proof -
  have "umap (mem s') pd va = (if in_pages a hi va then None else umap (mem s) pd va)" for va
    using assms(1,2) assms(3) [of va] by (auto simp: shrunk_def in_pages_def not_le)
  moreover have "user_same (mem s) (mem s') pd (\<lambda>q. \<not> (a \<le> q \<and> q < hi))"
    by (rule user_same_weaken [where P = "\<lambda>q. \<not> (b \<le> q \<and> q < hi)"])
      (use assms(1,2) in \<open>auto simp: shrunk_def\<close>)
  moreover have "in_pages a hi va \<and> umap (mem s) pd va = Some p \<longleftrightarrow> in_pages b hi va \<and> umap (mem s) pd va = Some p"
    for va p using assms(2) assms(3) [of va] by (cases "b \<le> PGROUNDDOWN va") (auto simp: in_pages_def not_le)
  then have "mapped_in (mem s) pd a hi = mapped_in (mem s) pd b hi" by (simp add: mapped_in_def)
  ultimately show ?thesis using assms(1) by (simp add: shrunk_def)
qed

lemma entry_page: "PGROUNDDOWN va = PGROUNDDOWN va' \<Longrightarrow> entry m pd va = entry m pd va'"
  by (simp add: same_page_iff entry_def has_tab_def ptab_def pde_at_def)

lemma umap_page: "PGROUNDDOWN va = PGROUNDDOWN va' \<Longrightarrow> umap m pd va = umap m pd va'"
  using entry_page [of va va' m pd] by (simp add: umap_def)

lemma shrunk_step:
  assumes n: "a mod PGSIZE = 0" "a < hi" "unat a < 3 * 2 ^ 30" "umap (mem s) pd a = Some p"
    and u: "\<And>va. umap (mem s2) pd va = (if PGROUNDDOWN va = a then None else umap (mem s) pd va)"
    and e: "user_same (mem s) (mem s2) pd (\<lambda>q. q \<noteq> a)" "\<exists>m f. s2 = s\<lparr>mem := m, freelist := f\<rparr>"
      "tabs (mem s2) pd = tabs (mem s) pd"
    and r: "shrunk s2 s' pd (a + PGSIZE) hi (p # xs)"
  shows "shrunk s s' pd a hi xs"
proof -
  note np = next_page [OF n(1) PGROUNDDOWN_aligned n(3)]
  have sp: "in_pages a hi va \<longleftrightarrow> PGROUNDDOWN va = a \<or> in_pages (a + PGSIZE) hi va" for va
    using np(1) [of va] n(2) by (auto simp: in_pages_def)
  have na: "PGROUNDDOWN va \<noteq> a" if "in_pages (a + PGSIZE) hi va" for va
    using that np(2) by (auto simp: in_pages_def word_le_nat_alt)
  have pg: "umap (mem s) pd va = Some p" if "PGROUNDDOWN va = a" for va
    using umap_page [of va a] that page_of_aligned [OF n(1)] n(4) by simp
  have "umap (mem s') pd va = (if in_pages a hi va then None else umap (mem s) pd va)" for va
    using r u [of va] sp [of va] by (auto simp: shrunk_def)
  moreover have "user_same (mem s) (mem s') pd (\<lambda>q. \<not> (a \<le> q \<and> q < hi))"
    by (rule user_same_trans [OF e(1), where Q = "\<lambda>q. \<not> (a + PGSIZE \<le> q \<and> q < hi)"])
      (use n(2) np(2) r u in \<open>auto simp: word_le_nat_alt shrunk_def\<close>)
  moreover have "mapped_in (mem s) pd a hi = insert p (mapped_in (mem s2) pd (a + PGSIZE) hi)"
    using sp na pg page_of_aligned [OF n(1)] unfolding mapped_in_def u by (auto split: if_splits)
  moreover obtain m f where "s' = s\<lparr>mem := m, freelist := f\<rparr>" using r e(2) by (fastforce simp: shrunk_def)
  ultimately show ?thesis using r e(3) unfolding shrunk_def by auto
qed

lemma dealloc_turn:
  assumes u: "uvm_ok s pd xs" and a: "a mod PGSIZE = 0" "a < oldsz" "oldsz \<le> KERNBASE" "umap (mem s) pd a = Some p"
  obtains s2 where "uvm_ok s2 pd (p # xs)"
    "deallocuvm_loop (Suc fuel) pd a oldsz s = deallocuvm_loop fuel pd (a + PGSIZE) oldsz s2"
    "\<And>s'. shrunk s2 s' pd (a + PGSIZE) oldsz (p # xs) \<Longrightarrow> shrunk s s' pd a oldsz xs"
proof -
  have ak: "a < KERNBASE" "unat a < 3 * 2 ^ 30"
    using a(2,3) by (auto simp: word_less_nat_alt word_le_nat_alt KERNBASE_def)
  let ?pte = "ptab (mem s) pd a + 4 * PTX a"
  obtain s1 where s1: "has_tab (mem s) pd a" "kfree p s = Inr s1" "uvm_ok (s1\<lparr>mem := store32 (mem s1) ?pte 0\<rparr>) pd (p # xs)"
    "\<And>va. umap (store32 (mem s1) ?pte 0) pd va = (if PGROUNDDOWN va = a then None else umap (mem s) pd va)"
    "user_same (mem s) (store32 (mem s1) ?pte 0) pd (\<lambda>q. q \<noteq> a)" "tabs (store32 (mem s1) ?pte 0) pd = tabs (mem s) pd"
    "\<exists>m f. s1 = s\<lparr>mem := m, freelist := f\<rparr>"
    using dealloc_step [OF u a(1) ak(1) a(4)] by metis
  let ?s2 = "s1\<lparr>mem := store32 (mem s1) ?pte 0\<rparr>"
  note u' = uvm_okD [OF u]
  have "?pte \<noteq> 0" using pt_okD(4) [OF u'(1) s1(1)] by (intro page_ok_entry_nonzero) simp_all
  moreover have "PTE_ADDR (load32 (mem s) ?pte) = V2P p" "bit (load32 (mem s) ?pte) 0"
    using a(4) s1(1) by (auto simp: umap_def entry_def split: if_splits)
  moreover have "V2P p \<noteq> 0" using u'(3) u'(4) [OF ak(1) a(4)] by (auto simp: page_ok_def V2P_def)
  ultimately have "deallocuvm_loop (Suc fuel) pd a oldsz s = deallocuvm_loop fuel pd (a + PGSIZE) oldsz ?s2"
    using a(2) walkpgdir_look(1) [OF s1(1)] s1(2) by (simp add: Let_def)
  moreover have "shrunk s s' pd a oldsz xs" if "shrunk ?s2 s' pd (a + PGSIZE) oldsz (p # xs)" for s'
  proof (rule shrunk_step [OF a(1,2) ak(2) a(4) _ _ _ _ that])
    obtain m f where "s1 = s\<lparr>mem := m, freelist := f\<rparr>" using s1(7) by blast
    then have "?s2 = s\<lparr>mem := store32 (mem s1) ?pte 0, freelist := f\<rparr>" by simp
    then show "\<exists>m f. ?s2 = s\<lparr>mem := m, freelist := f\<rparr>" by blast
  qed (use s1(4-6) in simp_all)
  ultimately show thesis using that s1(3) by blast
qed

lemma dealloc_skip:
  "a < oldsz \<Longrightarrow> \<not> has_tab (mem s) pd a \<Longrightarrow>
     deallocuvm_loop (Suc fuel) pd a oldsz s = deallocuvm_loop fuel pd (PGADDR (PDX a + 1) 0 0) oldsz s"
  "a < oldsz \<Longrightarrow> pt_ok s pd xs \<Longrightarrow> has_tab (mem s) pd a \<Longrightarrow> umap (mem s) pd a = None \<Longrightarrow>
     deallocuvm_loop (Suc fuel) pd a oldsz s = deallocuvm_loop fuel pd (a + PGSIZE) oldsz s"
proof -
  show "a < oldsz \<Longrightarrow> \<not> has_tab (mem s) pd a \<Longrightarrow>
     deallocuvm_loop (Suc fuel) pd a oldsz s = deallocuvm_loop fuel pd (PGADDR (PDX a + 1) 0 0) oldsz s"
    using walkpgdir_look(2) [of s pd a] by simp
  assume *: "a < oldsz" "pt_ok s pd xs" "has_tab (mem s) pd a" "umap (mem s) pd a = None"
  have "ptab (mem s) pd a + 4 * PTX a \<noteq> 0"
    using pt_okD(4) [OF *(2,3)] by (intro page_ok_entry_nonzero) simp_all
  moreover have "\<not> bit (load32 (mem s) (ptab (mem s) pd a + 4 * PTX a)) 0"
    using *(3,4) by (auto simp: umap_def entry_def split: if_splits)
  ultimately show "deallocuvm_loop (Suc fuel) pd a oldsz s = deallocuvm_loop fuel pd (a + PGSIZE) oldsz s"
    using *(1) walkpgdir_look(1) [OF *(3)] by simp
qed

lemma deallocuvm_loop_ok:
  assumes "uvm_ok s pd xs" "a mod PGSIZE = 0" "oldsz \<le> KERNBASE" "unat oldsz \<le> unat a + 4096 * fuel"
  shows "\<exists>s'. deallocuvm_loop (Suc fuel) pd a oldsz s = Inr s' \<and> shrunk s s' pd a oldsz xs"
  using assms
proof (induction fuel arbitrary: a s xs)
  case 0
  then show ?case using shrunk_refl [of s pd xs a oldsz] by (simp add: word_less_nat_alt)
next
  case (Suc fuel)
  show ?case
  proof (cases "a < oldsz")
    case False
    then show ?thesis using shrunk_refl Suc.prems(1) by auto
  next
    case True
    have ak: "a < KERNBASE" "unat a < 3 * 2 ^ 30"
      using True Suc.prems(3) by (auto simp: word_less_nat_alt word_le_nat_alt KERNBASE_def)
    note u = uvm_okD [OF Suc.prems(1)]
    note np = next_page [OF Suc.prems(2) PGROUNDDOWN_aligned ak(2)]
    have nfuel: "unat oldsz \<le> unat (a + PGSIZE) + 4096 * fuel" using Suc.prems(4) np(2) by simp
    consider (notab) "\<not> has_tab (mem s) pd a"
      | (none) "has_tab (mem s) pd a" "umap (mem s) pd a = None"
      | (page) p where "has_tab (mem s) pd a" "umap (mem s) pd a = Some p" by blast
    then show ?thesis
    proof cases
      case notab
      note nt = next_table [OF Suc.prems(2) ak(1)]
      have no: "umap (mem s) pd va = None" if "PDX va = PDX a" for va
        using notab that by (simp add: umap_def entry_def has_tab_def pde_at_def)
      have "unat oldsz \<le> unat (PGADDR (PDX a + 1) 0 0) + 4096 * fuel" using Suc.prems(4) nt(2) by simp
      from Suc.IH [OF Suc.prems(1) nt(1) Suc.prems(3) this] obtain s' where
        "deallocuvm_loop (Suc fuel) pd (PGADDR (PDX a + 1) 0 0) oldsz s = Inr s'"
        "shrunk s s' pd (PGADDR (PDX a + 1) 0 0) oldsz xs" by blast
      moreover from this(2) have "shrunk s s' pd a oldsz xs"
        by (rule shrunk_skip) (use nt no in \<open>auto simp: word_le_nat_alt\<close>)
      ultimately show ?thesis using dealloc_skip(1) [OF True notab] by metis
    next
      case none
      have no: "umap (mem s) pd va = None" if "a \<le> PGROUNDDOWN va" "PGROUNDDOWN va < a + PGSIZE" for va
        using that np(1) [of va] none(2) umap_page [of va a] page_of_aligned [OF Suc.prems(2)] by auto
      from Suc.IH [OF Suc.prems(1) np(3) Suc.prems(3) nfuel] obtain s' where
        "deallocuvm_loop (Suc fuel) pd (a + PGSIZE) oldsz s = Inr s'" "shrunk s s' pd (a + PGSIZE) oldsz xs" by blast
      moreover from this(2) have "shrunk s s' pd a oldsz xs"
        by (rule shrunk_skip) (use np(2) no in \<open>auto simp: word_le_nat_alt\<close>)
      ultimately show ?thesis using dealloc_skip(2) [OF True u(1) none] by metis
    next
      case page
      show ?thesis using dealloc_turn [OF Suc.prems(1,2) True Suc.prems(3) page(2)]
          Suc.IH [OF _ np(3) Suc.prems(3) nfuel] by metis
    qed
  qed
qed

lemma PGROUNDUP_ok:
  fixes sz :: u32
  assumes "unat sz \<le> 2 ^ 31"
  shows "PGROUNDUP sz mod PGSIZE = 0" "sz \<le> PGROUNDUP sz" "unat (PGROUNDUP sz) < unat sz + 4096"
proof -
  have e: "PGROUNDUP sz = PGROUNDDOWN (sz + 4095)" by (simp add: PGROUNDUP_def PGROUNDDOWN_def PGSIZE_def add.commute)
  have u: "unat (sz + 4095) = unat sz + 4095" using assms by (simp add: unat_word_ariths)
  have "unat (PGROUNDDOWN (sz + 4095)) = unat (sz + 4095) - unat (sz + 4095) mod 4096"
    by (simp add: PGROUNDDOWN_mod unat_sub word_le_nat_alt unat_mod)
  moreover have "unat (sz + 4095) mod 4096 < 4096" by simp
  ultimately show "sz \<le> PGROUNDUP sz" "unat (PGROUNDUP sz) < unat sz + 4096"
    unfolding e word_le_nat_alt u by linarith+
  show "PGROUNDUP sz mod PGSIZE = 0" unfolding e by (rule PGROUNDDOWN_aligned)
qed

lemma deallocuvm_ok:
  assumes "uvm_ok s pd xs" "oldsz \<le> KERNBASE" "newsz < oldsz"
  shows "\<exists>s'. deallocuvm pd oldsz newsz s = Inr (newsz, s') \<and> shrunk s s' pd (PGROUNDUP newsz) oldsz xs"
proof -
  have n: "unat newsz \<le> 2 ^ 31" using assms(2,3) by (simp add: word_less_nat_alt word_le_nat_alt KERNBASE_def)
  have "unat oldsz < 4096 * (unat oldsz div 4096) + 4096" using mod_less_divisor [of 4096 "unat oldsz"]
    mult_div_mod_eq [of 4096 "unat oldsz"] by linarith
  then have "unat oldsz \<le> unat (PGROUNDUP newsz) + 4096 * (unat (oldsz div PGSIZE) + 1)"
    by (simp add: unat_div PGSIZE_def)
  from deallocuvm_loop_ok [OF assms(1) PGROUNDUP_ok(1) [OF n] assms(2) this] show ?thesis
    using assms(3) by (auto simp: deallocuvm_def simp del: deallocuvm_loop.simps)
qed

section \<open>Growing\<close>

lemma kfree_unused:
  assumes u: "uvm_ok s pd xs" and x: "page_ok s x" "x \<notin> set xs" "x \<notin> insert pd (tabs (mem s) pd)"
    "\<And>va. va < KERNBASE \<Longrightarrow> umap (mem s) pd va \<noteq> Some x"
  shows "\<exists>s' m f. kfree x s = Inr s' \<and> uvm_ok s' pd (x # xs) \<and> umap (mem s') pd = umap (mem s) pd \<and>
    user_same (mem s) (mem s') pd (\<lambda>_. True) \<and> s' = s\<lparr>mem := m, freelist := f\<rparr>"
proof -
  note u' = uvm_okD [OF u]
  have xa: "x mod PGSIZE = 0" using x(1) by (rule page_okD)
  obtain s1 where s1: "kfree x s = Inr s1" "kpool s1 (x # xs)"
    "\<And>b. 4096 \<le> unat (b - x) \<Longrightarrow> mem s1 b = mem s b"
    using kfree_kpool [OF u'(2) x(1,2)] by blast
  obtain m f where st: "s1 = s\<lparr>mem := m, freelist := f\<rparr>"
    using s1(1) kfree_Inr [OF x(1)] u'(2) by (auto simp: kpool_def)
  have d: "pde_at (mem s1) pd = pde_at (mem s) pd" "tabs (mem s1) pd = tabs (mem s) pd"
    "umap (mem s1) pd = umap (mem s) pd"
    using data_write [OF u'(1) xa x(3), of "mem s1"] s1(3) by blast+
  have k1: "pt_ok s1 pd (x # xs)"
    unfolding st
  proof (rule pt_ok_cong [OF u'(1)])
    show "pde_at m pd va = pde_at (mem s) pd va" for va using d(1) by (simp add: st)
    show "set (x # xs) \<inter> insert pd (ptab (mem s) pd ` {va. has_tab (mem s) pd va}) = {}"
      using x(3) tabs_not_free [OF u'(1)] by (auto simp: tabs_def)
  qed (use s1(2) st in simp)
  have pg: "page_ok s1 q = page_ok s q" "KERNBASE < kend s1" for q using u'(3) by (simp_all add: st page_ok_def)
  have "uvm_ok s1 pd (x # xs)"
    using k1 pg(2) u'(4,5) x(4) unfolding uvm_ok_def pg(1) d(2,3) by (metis set_ConsD)
  moreover have "user_same (mem s) (mem s1) pd (\<lambda>_. True)"
    unfolding user_same_def using page_separate [OF _ xa] s1(3) u'(4) x(4) page_okD(1) by metis
  ultimately show ?thesis using s1(1) d(3) st by blast
qed

definition grown :: "'a kmem_st_scheme \<Rightarrow> 'a kmem_st_scheme \<Rightarrow> u32 \<Rightarrow> u32 \<Rightarrow> u32 \<Rightarrow> bool" where
  "grown s s' pd a hi \<longleftrightarrow> (\<exists>ys. uvm_ok s' pd ys) \<and>
     (\<forall>va. if in_pages a hi va
        then \<exists>x. entry (mem s') pd va = V2P x OR 7 \<and> umap (mem s') pd va = Some x \<and> (\<forall>k. unat k < 4096 \<longrightarrow> mem s' (x + k) = 0)
        else entry (mem s') pd va = entry (mem s) pd va) \<and>
     user_same (mem s) (mem s') pd (\<lambda>_. True) \<and> (\<exists>m f. s' = s\<lparr>mem := m, freelist := f\<rparr>)"

definition gave_up :: "'a kmem_st_scheme \<Rightarrow> 'a kmem_st_scheme \<Rightarrow> u32 \<Rightarrow> u32 \<Rightarrow> u32 \<Rightarrow> bool" where
  "gave_up s s' pd a hi \<longleftrightarrow> (\<exists>ys. uvm_ok s' pd ys) \<and>
     (\<forall>va. umap (mem s') pd va = (if in_pages a hi va then None else umap (mem s) pd va)) \<and>
     user_same (mem s) (mem s') pd (\<lambda>q. \<not> (a \<le> q \<and> q < hi)) \<and> (\<exists>m f. s' = s\<lparr>mem := m, freelist := f\<rparr>)"

lemma allocuvm_fails:
  assumes u: "uvm_ok s pd [x]" and a: "a mod PGSIZE = 0" "a < newsz" "newsz < KERNBASE" "umap (mem s) pd a = None"
    "oldsz < newsz" "PGROUNDUP oldsz \<le> a"
  defines "s1 \<equiv> s\<lparr>freelist := load32 (mem s) x, mem := memset (mem s) x 0 PGSIZE\<rparr>"
  assumes f: "uvm_ok s1 pd []" "umap (mem s1) pd = umap (mem s) pd" "x \<notin> insert pd (tabs (mem s1) pd)"
      "page_ok s1 x" "user_same (mem s) (mem s1) pd (\<lambda>_. True)" "\<And>va. va < KERNBASE \<Longrightarrow> umap (mem s) pd va \<noteq> Some x"
  shows "\<exists>s3 s2. deallocuvm pd newsz oldsz s1 = Inr (oldsz, s2) \<and> kfree x s2 = Inr s3 \<and>
    gave_up s s3 pd (PGROUNDUP oldsz) newsz"
proof -
  let ?lo = "PGROUNDUP oldsz"
  obtain s2 where s2: "deallocuvm pd newsz oldsz s1 = Inr (oldsz, s2)" "shrunk s1 s2 pd ?lo newsz []"
    using deallocuvm_ok [OF f(1) less_imp_le [OF a(3)] a(5)] by blast
  then obtain ys m f2 where ys: "uvm_ok s2 pd ys" "set ys = mapped_in (mem s1) pd ?lo newsz" "tabs (mem s2) pd = tabs (mem s1) pd"
    "\<And>va. umap (mem s2) pd va = (if in_pages ?lo newsz va then None else umap (mem s1) pd va)"
    "user_same (mem s1) (mem s2) pd (\<lambda>q. \<not> (?lo \<le> q \<and> q < newsz))" "s2 = s1\<lparr>mem := m, freelist := f2\<rparr>"
    by (auto simp: shrunk_def)
  have lt: "va < KERNBASE" if "in_pages ?lo newsz va" for va
    using that a(3) in_pages_lt by blast
  have "x \<notin> set ys" using ys(2) f(2,6) lt by (auto simp: mapped_in_def)
  moreover have "page_ok s2 x" using f(4) by (simp add: ys(6) page_ok_def)
  ultimately obtain s3 m3 f3 where s3: "kfree x s2 = Inr s3" "uvm_ok s3 pd (x # ys)" "umap (mem s3) pd = umap (mem s2) pd"
    "user_same (mem s2) (mem s3) pd (\<lambda>_. True)" "s3 = s2\<lparr>mem := m3, freelist := f3\<rparr>"
    using kfree_unused [OF ys(1), of x] f(2,3,6) ys(3,4) by (metis option.distinct(1))
  have "user_same (mem s) (mem s2) pd (\<lambda>q. \<not> (?lo \<le> q \<and> q < newsz))"
    by (rule user_same_trans [OF f(5) ys(5)]) (simp add: f(2))
  then have "user_same (mem s) (mem s3) pd (\<lambda>q. \<not> (?lo \<le> q \<and> q < newsz))"
    by (rule user_same_trans [OF _ s3(4)]) (simp add: ys(4) f(2) in_pages_def)
  moreover have "s3 = s\<lparr>mem := m3, freelist := f3\<rparr>" using s3(5) ys(6) by (simp add: s1_def)
  ultimately show ?thesis using s2(1) s3 ys(4) f(2) unfolding gave_up_def by auto
qed

lemma grown_step:
  assumes n: "a mod PGSIZE = 0" "a < hi" "unat a < 3 * 2 ^ 30" "hi < KERNBASE"
    and um: "\<And>va. umap (mem s2) pd va = (if PGROUNDDOWN va = a then Some x else umap (mem s) pd va)"
    and en: "\<And>va. entry (mem s2) pd va = (if PGROUNDDOWN va = a then V2P x OR 7 else entry (mem s) pd va)"
    and none: "\<And>va. in_pages a hi va \<Longrightarrow> umap (mem s) pd va = None"
    and z: "\<And>k. unat k < 4096 \<Longrightarrow> mem s2 (x + k) = 0" and e: "user_same (mem s) (mem s2) pd (\<lambda>_. True)"
      "\<exists>m f. s2 = s\<lparr>mem := m, freelist := f\<rparr>"
    and r: "grown s2 s' pd (a + PGSIZE) hi"
  shows "grown s s' pd a hi"
proof -
  note np = next_page [OF n(1) PGROUNDDOWN_aligned n(3)]
  have sp: "in_pages a hi va \<longleftrightarrow> PGROUNDDOWN va = a \<or> in_pages (a + PGSIZE) hi va" for va
    using np(1) [of va] n(2) by (auto simp: in_pages_def)
  have na: "PGROUNDDOWN va \<noteq> a" if "in_pages (a + PGSIZE) hi va" for va
    using that np(2) by (auto simp: in_pages_def word_le_nat_alt)
  have us: "user_same (mem s2) (mem s') pd (\<lambda>_. True)" using r by (simp add: grown_def)
  have "\<exists>x. entry (mem s') pd va = V2P x OR 7 \<and> umap (mem s') pd va = Some x \<and> (\<forall>k. unat k < 4096 \<longrightarrow> mem s' (x + k) = 0)"
    if va: "PGROUNDDOWN va = a" for va
  proof -
    have "\<not> in_pages (a + PGSIZE) hi va" using na va by blast
    then have en': "entry (mem s') pd va = V2P x OR 7" using r en [of va] va by (auto simp: grown_def)
    have "umap (mem s2) pd va = Some x" using um [of va] va by simp
    moreover from this have "umap (mem s') pd va = Some x"
      using en' en [of va] va by (simp add: umap_def split: if_splits)
    moreover have "va < KERNBASE" using in_pages_lt [of a hi va] sp [of va] va n(4) by blast
    ultimately show ?thesis using en' us z unfolding user_same_def by metis
  qed
  then have "if in_pages a hi va
        then \<exists>x. entry (mem s') pd va = V2P x OR 7 \<and> umap (mem s') pd va = Some x \<and> (\<forall>k. unat k < 4096 \<longrightarrow> mem s' (x + k) = 0)
        else entry (mem s') pd va = entry (mem s) pd va" for va
    using r sp [of va] en [of va] by (auto simp: grown_def)
  moreover have "user_same (mem s) (mem s') pd (\<lambda>_. True)"
    by (rule user_same_trans [OF e(1) us])
      (use um none sp in \<open>metis option.distinct(1)\<close>)
  moreover obtain m f where "s' = s\<lparr>mem := m, freelist := f\<rparr>" using r e(2) by (fastforce simp: grown_def)
  ultimately show ?thesis using r unfolding grown_def by blast
qed

lemma gave_up_step:
  assumes n: "a mod PGSIZE = 0" "lo \<le> a" "a < hi"
    and um: "\<And>va. umap (mem s2) pd va = (if PGROUNDDOWN va = a then Some x else umap (mem s) pd va)"
    and e: "user_same (mem s) (mem s2) pd (\<lambda>_. True)" "\<exists>m f. s2 = s\<lparr>mem := m, freelist := f\<rparr>"
    and r: "gave_up s2 s' pd lo hi"
  shows "gave_up s s' pd lo hi"
proof -
  have a: "in_pages lo hi va" if "PGROUNDDOWN va = a" for va using that n by (simp add: in_pages_def)
  have "umap (mem s') pd va = (if in_pages lo hi va then None else umap (mem s) pd va)" for va
    using r um [of va] a [of va] by (auto simp: gave_up_def)
  moreover have "user_same (mem s) (mem s') pd (\<lambda>q. \<not> (lo \<le> q \<and> q < hi))"
    by (rule user_same_trans [OF e(1), where Q = "\<lambda>q. \<not> (lo \<le> q \<and> q < hi)"])
      (use r um n in \<open>auto simp: gave_up_def\<close>)
  moreover obtain m f where "s' = s\<lparr>mem := m, freelist := f\<rparr>" using r e(2) by (fastforce simp: gave_up_def)
  ultimately show ?thesis using r unfolding gave_up_def by blast
qed

lemma grown_refl:
  assumes "uvm_ok s pd xs" "\<not> a < hi"
  shows "grown s s pd a hi"
proof -
  have n: "\<not> in_pages a hi va" for va
    using assms(2) by (auto simp: in_pages_def word_le_nat_alt word_less_nat_alt)
  have "s = s\<lparr>mem := mem s, freelist := freelist s\<rparr>" by simp
  then show ?thesis using assms(1) n user_same_refl unfolding grown_def by metis
qed

lemma allocuvm_turn:
  assumes "a < newsz" "kalloc s = Inr (x, s1)" "x \<noteq> 0"
    "mappages pd a PGSIZE (V2P x) (PTE_W OR PTE_U) (s1\<lparr>mem := memset (mem s1) x 0 PGSIZE\<rparr>) = Inr (0, s2)"
  shows "allocuvm_loop (Suc fuel) pd a oldsz newsz s = allocuvm_loop fuel pd (a + PGSIZE) oldsz newsz s2"
  using assms by simp

lemma allocuvm_loop_ok:
  assumes "uvm_ok s pd xs" "a mod PGSIZE = 0" "newsz < KERNBASE" "unat newsz \<le> unat a + 4096 * fuel"
    "PGROUNDUP oldsz \<le> a" "oldsz \<le> PGROUNDUP oldsz" "\<And>va. in_pages a newsz va \<Longrightarrow> umap (mem s) pd va = None"
    "unat newsz \<le> unat a + 4096 * n"
  shows "\<exists>r s'. allocuvm_loop (Suc fuel) pd a oldsz newsz s = Inr (r, s') \<and>
    (r = newsz \<and> grown s s' pd a newsz \<or> r = 0 \<and> gave_up s s' pd (PGROUNDUP oldsz) newsz \<and> length xs < 2 * n)"
  using assms
proof (induction fuel arbitrary: a s xs n)
  case 0
  then show ?case using grown_refl [of s pd xs a newsz] by (simp add: word_less_nat_alt)
next
  case (Suc fuel)
  show ?case
  proof (cases "a < newsz")
    case False
    then show ?thesis using grown_refl [OF Suc.prems(1) False] by simp
  next
    case True
    have ak: "a < KERNBASE" "unat a < 3 * 2 ^ 30" "oldsz < newsz"
      using True Suc.prems(3,5,6) by (auto simp: word_less_nat_alt word_le_nat_alt KERNBASE_def)
    have an: "umap (mem s) pd a = None"
      using Suc.prems(7) [of a] True page_of_aligned [OF Suc.prems(2)] by (simp add: in_pages_def)
    then obtain n' where n': "n = Suc n'" using True Suc.prems(8) by (cases n) (auto simp: word_less_nat_alt)
    note np = next_page [OF Suc.prems(2) PGROUNDDOWN_aligned ak(2)]
    show ?thesis
    proof (cases xs)
      case Nil
      have "kalloc s = Inr (0, s)" using kalloc_kpool_Nil uvm_okD(2) Suc.prems(1) Nil by blast
      moreover obtain s' where "deallocuvm pd newsz oldsz s = Inr (oldsz, s')" "shrunk s s' pd (PGROUNDUP oldsz) newsz xs"
        using deallocuvm_ok [OF Suc.prems(1) less_imp_le [OF Suc.prems(3)] ak(3)] by blast
      moreover from this(2) have "gave_up s s' pd (PGROUNDUP oldsz) newsz" by (auto simp: shrunk_def gave_up_def)
      ultimately show ?thesis using True Nil n' by simp
    next
      case (Cons x ys)
      note u = Suc.prems(1) [unfolded Cons]
      let ?s1 = "s\<lparr>freelist := load32 (mem s) x, mem := memset (mem s) x 0 PGSIZE\<rparr>"
      have x: "kalloc s = Inr (x, s\<lparr>freelist := load32 (mem s) x\<rparr>)" "x \<noteq> 0"
        using kalloc_kpool_Cons uvm_okD(2) [OF u] page_okD(2) by (blast, auto simp: kpool_def)
      from u Suc.prems(2) ak(1) an show ?thesis
      proof (cases rule: alloc_step)
        case nomem
        obtain s3 s2 where "deallocuvm pd newsz oldsz ?s1 = Inr (oldsz, s2)" "kfree x s2 = Inr s3"
          "gave_up s s3 pd (PGROUNDUP oldsz) newsz"
          using allocuvm_fails [OF u [unfolded nomem(1)] Suc.prems(2) True Suc.prems(3) an ak(3) Suc.prems(5)]
            nomem by (metis (no_types))
        then show ?thesis using True x nomem(1,2) Cons n' by simp
      next
        case (mapped s2 zs)
        have "\<exists>r s'. allocuvm_loop (Suc fuel) pd (a + PGSIZE) oldsz newsz s2 = Inr (r, s') \<and>
          (r = newsz \<and> grown s2 s' pd (a + PGSIZE) newsz \<or> r = 0 \<and> gave_up s2 s' pd (PGROUNDUP oldsz) newsz \<and> length zs < 2 * n')"
        proof (rule Suc.IH [OF mapped(2) np(3) Suc.prems(3) _ _ Suc.prems(6)])
          show "unat newsz \<le> unat (a + PGSIZE) + 4096 * fuel" using Suc.prems(4) np(2) by simp
          show "unat newsz \<le> unat (a + PGSIZE) + 4096 * n'" using Suc.prems(8) np(2) n' by simp
          show "PGROUNDUP oldsz \<le> a + PGSIZE" using Suc.prems(5) np(2) by (simp add: word_le_nat_alt)
          show "umap (mem s2) pd va = None" if "in_pages (a + PGSIZE) newsz va" for va
            using that np(2) Suc.prems(7) [of va] mapped(3) [of va] by (auto simp: in_pages_def word_le_nat_alt)
        qed
        then obtain r s' where r: "allocuvm_loop (Suc fuel) pd (a + PGSIZE) oldsz newsz s2 = Inr (r, s')"
          "r = newsz \<and> grown s2 s' pd (a + PGSIZE) newsz \<or> r = 0 \<and> gave_up s2 s' pd (PGROUNDUP oldsz) newsz \<and> length zs < 2 * n'"
          by blast
        have "length xs < 2 * n" if "length zs < 2 * n'" using that mapped(8) n' Cons by simp
        then have "r = newsz \<and> grown s s' pd a newsz \<or> r = 0 \<and> gave_up s s' pd (PGROUNDUP oldsz) newsz \<and> length xs < 2 * n"
          using r(2) grown_step [OF Suc.prems(2) True ak(2) Suc.prems(3) mapped(3,4) Suc.prems(7) mapped(5-7)]
            gave_up_step [OF Suc.prems(2,5) True mapped(3,6,7)] by blast
        then show ?thesis using True x mapped(1) r(1) by (simp del: allocuvm_loop.simps add: allocuvm_turn)
      qed
    qed
  qed
qed

lemma allocuvm_ok:
  assumes "uvm_ok s pd xs" "oldsz \<le> newsz" "newsz < KERNBASE"
    and "\<And>va. in_pages (PGROUNDUP oldsz) newsz va \<Longrightarrow> umap (mem s) pd va = None"
    and "unat newsz \<le> unat (PGROUNDUP oldsz) + 4096 * n"
  shows "\<exists>r s'. allocuvm pd oldsz newsz s = Inr (r, s') \<and>
    (r = newsz \<and> grown s s' pd (PGROUNDUP oldsz) newsz \<or>
     r = 0 \<and> gave_up s s' pd (PGROUNDUP oldsz) newsz \<and> length xs < 2 * n)"
proof -
  have o: "unat oldsz \<le> 2 ^ 31" using assms(2,3) by (simp add: word_less_nat_alt word_le_nat_alt KERNBASE_def)
  have "unat newsz < 4096 * (unat newsz div 4096) + 4096" using mod_less_divisor [of 4096 "unat newsz"]
    mult_div_mod_eq [of 4096 "unat newsz"] by linarith
  then have "unat newsz \<le> unat (PGROUNDUP oldsz) + 4096 * (unat (newsz div PGSIZE) + 1)"
    by (simp add: unat_div PGSIZE_def)
  from allocuvm_loop_ok [OF assms(1) PGROUNDUP_ok(1) [OF o] assms(3) this _ PGROUNDUP_ok(2) [OF o] assms(4,5)]
  moreover have "\<not> KERNBASE \<le> newsz" "\<not> newsz < oldsz" using assms(2,3) by auto
  ultimately show ?thesis by (simp add: allocuvm_def del: allocuvm_loop.simps)
qed

section \<open>Copying to user memory\<close>

text \<open>The kernel address of a mapped user byte.\<close>

definition kaddr :: "mem \<Rightarrow> u32 \<Rightarrow> u32 \<Rightarrow> u32" where
  "kaddr m pd va = the (umap m pd va) + va mod 4096"

definition user_ok :: "mem \<Rightarrow> u32 \<Rightarrow> u32 \<Rightarrow> bool" where
  "user_ok m pd va \<longleftrightarrow> va < KERNBASE \<and> bit (entry m pd va) 0 \<and> bit (entry m pd va) 2"

lemma user_ok_umap: "user_ok m pd va \<Longrightarrow> umap m pd va = Some (P2V (PTE_ADDR (entry m pd va)))"
  by (simp add: user_ok_def umap_def)

lemma uva2ka_user:
  assumes "uvm_ok s pd xs" "user_ok (mem s) pd va"
  shows "uva2ka pd (PGROUNDDOWN va) s = Inr (the (umap (mem s) pd va))" "the (umap (mem s) pd va) \<noteq> 0"
proof -
  have g: "PGROUNDDOWN (PGROUNDDOWN va) = PGROUNDDOWN va" by (simp add: page_of_aligned PGROUNDDOWN_aligned)
  have e: "entry (mem s) pd (PGROUNDDOWN va) = entry (mem s) pd va" by (rule entry_page [OF g])
  then have ht: "has_tab (mem s) pd (PGROUNDDOWN va)"
    using assms(2) by (auto simp: user_ok_def entry_def split: if_splits)
  have "ptab (mem s) pd (PGROUNDDOWN va) + 4 * PTX (PGROUNDDOWN va) \<noteq> 0"
    using pt_okD(4) [OF uvm_okD(1) [OF assms(1)] ht] by (intro page_ok_entry_nonzero) simp_all
  moreover have "load32 (mem s) (ptab (mem s) pd (PGROUNDDOWN va) + 4 * PTX (PGROUNDDOWN va)) = entry (mem s) pd va"
    using e ht by (simp add: entry_def)
  ultimately show "uva2ka pd (PGROUNDDOWN va) s = Inr (the (umap (mem s) pd va))"
    using assms(2) walkpgdir_look(1) [OF ht] by (simp add: uva2ka_def user_ok_umap user_ok_def)
  show "the (umap (mem s) pd va) \<noteq> 0"
    using uvm_okD(4) [OF assms(1), of va] assms(2) user_ok_umap [OF assms(2)] page_okD(2)
    by (auto simp: user_ok_def)
qed

lemma same_page_offset:
  fixes va i :: u32
  assumes "unat (va mod 4096) + unat i < 4096"
  shows "PGROUNDDOWN (va + i) = PGROUNDDOWN va" "(va + i) mod 4096 = va mod 4096 + i"
proof -
  have "unat va + unat i < 2 ^ 32"
  proof -
    define j where "j = unat va div 4096"
    have "unat va = 4096 * j + unat (va mod 4096)" by (simp add: j_def unat_mod)
    moreover have "j < 2 ^ 20" using unat32_lt [of va] by (simp add: j_def less_mult_imp_div_less)
    ultimately show ?thesis using assms by simp
  qed
  then have ov: "unat (va + i) = unat va + unat i" by (simp add: unat_word_ariths)
  have "(unat va + unat i) mod 4096 = unat va mod 4096 + unat i"
    using assms by (simp add: unat_mod mod_add_eq flip: mod_add_left_eq [of "unat va"])
  then have "unat ((va + i) mod 4096) = unat (va mod 4096) + unat i" by (simp add: unat_mod ov)
  also have "\<dots> = unat (va mod 4096 + i)" using assms by (simp add: unat_word_ariths)
  finally show o: "(va + i) mod 4096 = va mod 4096 + i" by (simp add: word_unat_eq_iff)
  show "PGROUNDDOWN (va + i) = PGROUNDDOWN va" by (simp add: PGROUNDDOWN_mod o)
qed

lemma kaddr_offset:
  assumes "unat (va mod 4096) + unat i < 4096"
  shows "kaddr m pd (va + i) = kaddr m pd va + i"
  using same_page_offset [OF assms] umap_page [of "va + i" va m pd] by (simp add: kaddr_def add.assoc)

text \<open>The source of a copy lies outside the user pages of the address space.\<close>

definition kernel_src :: "mem \<Rightarrow> u32 \<Rightarrow> u32 \<Rightarrow> u32 \<Rightarrow> bool" where
  "kernel_src m pd p len \<longleftrightarrow> (\<forall>i. unat i < unat len \<longrightarrow> (\<forall>va<KERNBASE. \<forall>q. umap m pd va = Some q \<longrightarrow> 4096 \<le> unat (p + i - q)))"

lemma kaddr_page: "unat (kaddr m pd va - the (umap m pd va)) < 4096"
  by (simp add: kaddr_def unat_mod)

lemma kaddr_inj:
  assumes u: "uvm_ok s pd xs" and a: "user_ok (mem s) pd va" "user_ok (mem s) pd vb" "kaddr (mem s) pd va = kaddr (mem s) pd vb"
  shows "va = vb"
proof -
  note u' = uvm_okD [OF u]
  obtain p q where p: "umap (mem s) pd va = Some p" "umap (mem s) pd vb = Some q" "va < KERNBASE" "vb < KERNBASE"
    using a(1,2) user_ok_umap by (auto simp: user_ok_def)
  have pq: "p mod PGSIZE = 0" "q mod PGSIZE = 0" using u'(4) p page_okD(1) by blast+
  have "p = q"
  proof (rule ccontr)
    assume "p \<noteq> q"
    from page_separate [OF pq this, of "va mod 4096"] show False
      using a(3) kaddr_page [of "mem s" pd vb] p page_offset_lt [of va] by (simp add: kaddr_def)
  qed
  then have "PGROUNDDOWN va = PGROUNDDOWN vb" "va mod 4096 = vb mod 4096"
    using u'(5) [OF p(3,4)] p a(3) by (auto simp: kaddr_def)
  then show ?thesis by (metis PGROUNDDOWN_mod diff_add_cancel)
qed

lemma uvm_ok_data_write:
  assumes u: "uvm_ok s pd xs" and q: "va < KERNBASE" "umap (mem s) pd va = Some q"
    and w: "\<And>a. 4096 \<le> unat (a - q) \<Longrightarrow> m' a = mem s a"
  shows "uvm_ok (s\<lparr>mem := m'\<rparr>) pd xs" "entry m' pd = entry (mem s) pd" "umap m' pd = umap (mem s) pd"
proof -
  note u' = uvm_okD [OF u]
  have p: "page_ok s q" "q \<notin> set xs" "q \<notin> insert pd (tabs (mem s) pd)" using u'(4) [OF q] by blast+
  have d: "entry m' pd = entry (mem s) pd" "tabs m' pd = tabs (mem s) pd" "umap m' pd = umap (mem s) pd"
    using data_write [OF u'(1) page_okD(1) [OF p(1)] p(3), of m'] w by blast+
  show "entry m' pd = entry (mem s) pd" "umap m' pd = umap (mem s) pd" by (rule d)+
  have "pt_ok (s\<lparr>mem := m'\<rparr>) pd xs" using pt_ok_data_write [OF u'(1) p, of m'] w by blast
  moreover have pg: "page_ok (s\<lparr>mem := m'\<rparr>) x = page_ok s x" for x by (simp add: page_ok_def)
  moreover have m: "mem (s\<lparr>mem := m'\<rparr>) = m'" "kend (s\<lparr>mem := m'\<rparr>) = kend s" by simp_all
  ultimately show "uvm_ok (s\<lparr>mem := m'\<rparr>) pd xs"
    using u'(3-5) unfolding uvm_ok_def m pg d by blast
qed

text \<open>One turn of the loop of \<open>copyout\<close>: the bytes up to the end of the page or of the source.\<close>

lemma copyout_turn:
  assumes u: "uvm_ok s pd xs" and v: "user_ok (mem s) pd va" and l: "0 < len" "unat p + unat len < 2 ^ 32"
  obtains n m1 where "0 < unat n" "unat n \<le> unat len" "unat (va mod 4096) + unat n \<le> 4096"
    "n = len \<or> va + n = PGROUNDDOWN va + PGSIZE"
    "copyout pd va p len s = copyout pd (PGROUNDDOWN va + PGSIZE) (p + n) (len - n) (s\<lparr>mem := m1\<rparr>)"
    "\<And>a. m1 a = (if unat (a - kaddr (mem s) pd va) < unat n then mem s (p + (a - kaddr (mem s) pd va)) else mem s a)"
    "\<And>a. 4096 \<le> unat (a - the (umap (mem s) pd va)) \<Longrightarrow> m1 a = mem s a"
proof -
  let ?off = "va mod 4096" and ?q = "the (umap (mem s) pd va)"
  let ?r = "PGSIZE - ?off"
  let ?n = "if len < ?r then len else ?r"
  have off: "unat ?off < 4096" by (rule page_offset_lt)
  then have r: "unat ?r = 4096 - unat ?off" by (simp add: PGSIZE_def unat_sub word_le_nat_alt)
  have n: "0 < unat ?n" "unat ?n \<le> unat len" "unat ?off + unat ?n \<le> 4096"
    using r off l(1) by (auto simp: word_less_nat_alt)
  have dst: "kaddr (mem s) pd va = ?q + ?off" by (simp add: kaddr_def)
  have "page_ok s ?q" using uvm_okD(4) [OF u] v user_ok_umap [OF v] by (auto simp: user_ok_def)
  then have "unat ?q < 3 * 2 ^ 30" using V2P_bound [of ?q] by (auto simp: page_ok_def KERNBASE_def PHYSTOP_def)
  then have "unat (?q + ?off) + unat ?n \<le> 2 ^ 32" using off n by (simp add: unat_word_ariths)
  moreover have "unat p + unat ?n < 2 ^ 32" using l(2) n(2) by linarith
  ultimately have m: "memmove (mem s) (?q + ?off) p ?n a =
      (if unat (a - (?q + ?off)) < unat ?n then mem s (p + (a - (?q + ?off))) else mem s a)" for a
    by (rule memmove_apply [rotated])
  have "copyout pd va p len s = copyout pd (PGROUNDDOWN va + PGSIZE) (p + ?n) (len - ?n)
      (s\<lparr>mem := memmove (mem s) (?q + ?off) p ?n\<rparr>)"
    using uva2ka_user [OF u v] l(1) by (subst copyout.simps) (simp add: Let_def page_offset)
  moreover have "memmove (mem s) (?q + ?off) p ?n a = mem s a" if "4096 \<le> unat (a - ?q)" for a
    unfolding m using that n(3) addr_plus [of ?off a ?q] by auto
  moreover have "?n = len \<or> va + ?n = PGROUNDDOWN va + PGSIZE" by (simp add: PGROUNDDOWN_mod)
  ultimately show thesis using that [OF n] m dst by metis
qed

definition copied :: "mem \<Rightarrow> mem \<Rightarrow> u32 \<Rightarrow> u32 \<Rightarrow> u32 \<Rightarrow> u32 \<Rightarrow> bool" where
  "copied m m' pd va p len \<longleftrightarrow>
     (\<forall>i. unat i < unat len \<longrightarrow> m' (kaddr m pd (va + i)) = m (p + i)) \<and>
     (\<forall>b. (\<forall>i. unat i < unat len \<longrightarrow> b \<noteq> kaddr m pd (va + i)) \<longrightarrow> m' b = m b)"

lemma split_index:
  fixes i n len :: u32
  assumes "unat i < unat len" "unat n \<le> unat len"
  obtains "unat i < unat n" | j where "i = n + j" "unat j < unat (len - n)"
proof (cases "unat i < unat n")
  case False
  then have "unat (i - n) = unat i - unat n" "unat (len - n) = unat len - unat n"
    using assms(2) by (simp_all add: unat_sub word_le_nat_alt)
  then show thesis using that(2) [of "i - n"] assms(1) False by simp
qed (use that in blast)

lemma join_index:
  fixes j n len :: u32
  assumes "unat j < unat (len - n)" "unat n \<le> unat len"
  shows "unat (n + j) = unat n + unat j" "unat (n + j) < unat len"
proof -
  have "unat (len - n) = unat len - unat n" using assms(2) by (simp add: unat_sub word_le_nat_alt)
  then show "unat (n + j) = unat n + unat j" "unat (n + j) < unat len"
    using assms unat32_lt [of len] by (simp_all add: unat_word_ariths)
qed

lemma copied_join:
  assumes c: "copied m m1 pd va p n" "copied m1 m' pd (va + n) (p + n) (len - n)" "umap m1 pd = umap m pd"
    and n: "unat n \<le> unat len" and src: "\<And>i. unat i < unat len \<Longrightarrow> m1 (p + i) = m (p + i)"
    and inj: "\<And>i j. unat i < unat len \<Longrightarrow> unat j < unat len \<Longrightarrow> kaddr m pd (va + i) = kaddr m pd (va + j) \<Longrightarrow> i = j"
  shows "copied m m' pd va p len"
proof -
  have k: "kaddr m1 pd = kaddr m pd" by (simp add: fun_eq_iff kaddr_def c(3))
  have "m' (kaddr m pd (va + i)) = m (p + i)" if i: "unat i < unat len" for i
  proof (rule split_index [OF i n])
    assume lt: "unat i < unat n"
    have "kaddr m pd (va + i) \<noteq> kaddr m1 pd (va + n + j)" if j: "unat j < unat (len - n)" for j
      using inj [OF i join_index(2) [OF j n]] join_index(1) [OF j n] lt by (auto simp: k add.assoc)
    then have "m' (kaddr m pd (va + i)) = m1 (kaddr m pd (va + i))" using c(2) by (simp add: copied_def)
    then show ?thesis using c(1) lt by (simp add: copied_def)
  next
    fix j assume j: "i = n + j" "unat j < unat (len - n)"
    then have "m' (kaddr m1 pd (va + n + j)) = m1 (p + n + j)" using c(2) by (simp add: copied_def)
    then show ?thesis using j src [OF i] by (simp add: k add.assoc)
  qed
  moreover have "m' b = m b" if "\<forall>i. unat i < unat len \<longrightarrow> b \<noteq> kaddr m pd (va + i)" for b
  proof -
    have "m' b = m1 b" using c(2) that join_index(2) [OF _ n] by (simp add: copied_def k add.assoc)
    also have "\<dots> = m b" using c(1) that n by (simp add: copied_def)
    finally show ?thesis .
  qed
  ultimately show ?thesis by (simp add: copied_def)
qed

lemma copyout_ok:
  assumes "uvm_ok s pd xs" "\<And>i. unat i < unat len \<Longrightarrow> user_ok (mem s) pd (va + i)"
    "unat p + unat len < 2 ^ 32" "kernel_src (mem s) pd p len"
  shows "\<exists>m'. copyout pd va p len s = Inr (0, s\<lparr>mem := m'\<rparr>) \<and> uvm_ok (s\<lparr>mem := m'\<rparr>) pd xs \<and>
    umap m' pd = umap (mem s) pd \<and> copied (mem s) m' pd va p len"
  using assms
proof (induction "unat len" arbitrary: len va p s rule: less_induct)
  case less
  show ?case
  proof (cases "len = 0")
    case True
    then show ?thesis using less.prems(1)
      by (subst copyout.simps) (auto simp: copied_def intro!: exI [of _ "mem s"])
  next
    case False
    then have l0: "0 < len" by (simp add: word_neq_0_conv)
    have v: "user_ok (mem s) pd va" using less.prems(2) [of 0] l0 by (simp add: word_less_nat_alt)
    obtain n m1 where
      n: "0 < unat n" "unat n \<le> unat len" "unat (va mod 4096) + unat n \<le> 4096" "n = len \<or> va + n = PGROUNDDOWN va + PGSIZE"
      and c: "copyout pd va p len s = copyout pd (PGROUNDDOWN va + PGSIZE) (p + n) (len - n) (s\<lparr>mem := m1\<rparr>)"
      and m1: "\<And>a. m1 a = (if unat (a - kaddr (mem s) pd va) < unat n then mem s (p + (a - kaddr (mem s) pd va)) else mem s a)"
        "\<And>a. 4096 \<le> unat (a - the (umap (mem s) pd va)) \<Longrightarrow> m1 a = mem s a"
      by (rule copyout_turn [OF less.prems(1) v l0 less.prems(3)]) blast
    let ?s1 = "s\<lparr>mem := m1\<rparr>"
    obtain q where q: "umap (mem s) pd va = Some q" "va < KERNBASE" using v user_ok_umap by (auto simp: user_ok_def)
    have u1: "uvm_ok ?s1 pd xs" "entry m1 pd = entry (mem s) pd" "umap m1 pd = umap (mem s) pd"
      using uvm_ok_data_write [OF less.prems(1) q(2,1), of m1] m1(2) q(1) by auto
    have ln: "unat (len - n) = unat len - unat n" using n(2) by (simp add: unat_sub word_le_nat_alt)
    have first: "kaddr (mem s) pd (va + i) = kaddr (mem s) pd va + i" if "unat i < unat n" for i
      using that n(3) by (intro kaddr_offset) linarith
    have "m1 b = mem s b" if "\<forall>i. unat i < unat n \<longrightarrow> b \<noteq> kaddr (mem s) pd (va + i)" for b
      using m1(1) [of b] that first [of "b - kaddr (mem s) pd va"] by auto
    then have c1: "copied (mem s) m1 pd va p n" by (simp add: copied_def first m1(1))
    show ?thesis
    proof (cases "n = len")
      case True
      have "copyout pd va p len s = Inr (0, ?s1)" unfolding c using True by (subst copyout.simps) simp
      then show ?thesis using u1 c1 True by blast
    next
      case False
      then have va: "PGROUNDDOWN va + PGSIZE = va + n" using n(4) by simp
      have "\<exists>m'. copyout pd (va + n) (p + n) (len - n) ?s1 = Inr (0, ?s1\<lparr>mem := m'\<rparr>) \<and> uvm_ok (?s1\<lparr>mem := m'\<rparr>) pd xs \<and>
        umap m' pd = umap (mem ?s1) pd \<and> copied (mem ?s1) m' pd (va + n) (p + n) (len - n)"
      proof (rule less.hyps [OF _ u1(1)])
        show "unat (len - n) < unat len" using ln n(1,2) by simp
        have "unat (p + n) = unat p + unat n" using less.prems(3) n(2) by (simp add: unat_word_ariths)
        then show "unat (p + n) + unat (len - n) < 2 ^ 32" using ln n(2) less.prems(3) by simp
        show "user_ok (mem ?s1) pd (va + n + i)" if "unat i < unat (len - n)" for i
          using less.prems(2) [OF join_index(2) [OF that n(2)]] u1(2) by (simp add: user_ok_def add.assoc)
        show "kernel_src (mem ?s1) pd (p + n) (len - n)"
          using less.prems(4) join_index(2) [OF _ n(2)] u1(3) by (simp add: kernel_src_def add.assoc)
      qed
      then obtain m' where m': "copyout pd va p len s = Inr (0, s\<lparr>mem := m'\<rparr>)" "uvm_ok (s\<lparr>mem := m'\<rparr>) pd xs"
        "umap m' pd = umap (mem s) pd" "copied m1 m' pd (va + n) (p + n) (len - n)"
        using c va u1(3) by auto
      have src: "m1 (p + i) = mem s (p + i)" if "unat i < unat len" for i
        using less.prems(4) that q m1(2) by (auto simp: kernel_src_def)
      have inj: "i = j" if "unat i < unat len" "unat j < unat len" "kaddr (mem s) pd (va + i) = kaddr (mem s) pd (va + j)" for i j
        using kaddr_inj [OF less.prems(1) less.prems(2) [OF that(1)] less.prems(2) [OF that(2)] that(3)] by simp
      have "copied (mem s) m' pd va p len" using copied_join [OF c1 m'(4) u1(3) n(2)] src inj by blast
      then show ?thesis using m'(1-3) by blast
    qed
  qed
qed

section \<open>Properties\<close>

definition vm_demo :: kmem_st where
  "vm_demo = \<lparr>held = [], mem = (\<lambda>_. 0)(0x80201002 := 0x20, 0x80201003 := 0x80), kend = 0x80100000,
     use_lock = True, freelist = 0x80201000\<rparr>"

lemma vm_demo_no_tab: "\<not> has_tab (mem vm_demo) 0x80300000 va"
proof -
  have "mem vm_demo a = 0" if "4096 \<le> unat (a - 0x80201000)" for a
    using that by (auto simp: vm_demo_def)
  then have "load32 (mem vm_demo) (0x80300000 + 4 * PDX va) = load32 (\<lambda>_. 0) (0x80300000 + 4 * PDX va)"
    by (intro load_page_write [of "0x80201000"]) (simp_all add: PGSIZE_def)
  then show ?thesis by (simp add: has_tab_def pde_at_def load32_def of_le32_def)
qed

lemma vm_demo_none: "umap (mem vm_demo) 0x80300000 va = None"
  by (simp add: umap_def entry_def vm_demo_no_tab)

lemma vm_demo_ok: "uvm_ok vm_demo 0x80300000 [0x80201000, 0x80200000]"
proof -
  have "kpool vm_demo [0x80201000, 0x80200000]" "page_ok vm_demo 0x80300000" "KERNBASE < kend vm_demo"
    by (simp_all add: kpool_def vm_demo_def page_ok_def load32_def of_le32_def PGSIZE_def V2P_def
        KERNBASE_def PHYSTOP_def)
  then show ?thesis by (simp add: uvm_ok_def pt_ok_def vm_demo_no_tab vm_demo_none)
qed

text \<open>
  C15: growing a process. From an address space that satisfies the invariant and has nothing mapped in
  the range, \<open>allocuvm\<close> either returns \<open>newsz\<close>, with every page of \<open>[PGROUNDUP(oldsz), newsz)\<close> mapped
  writable for the user to a zeroed page and every other entry unchanged, or returns 0 with no page
  of the range mapped; the latter only when the free pages run out. In both cases the contents of
  all pages mapped before and the invariant (no page is shared, free or part of the page table) are kept.
\<close>

theorem allocuvm_grows:
  assumes "uvm_ok s pd xs" "oldsz \<le> newsz" "newsz < KERNBASE"
    and "\<And>va. in_pages (PGROUNDUP oldsz) newsz va \<Longrightarrow> umap (mem s) pd va = None"
    and "unat newsz \<le> unat (PGROUNDUP oldsz) + 4096 * n"
  shows "\<exists>r s'. allocuvm pd oldsz newsz s = Inr (r, s') \<and>
    (r = newsz \<and> grown s s' pd (PGROUNDUP oldsz) newsz \<or>
     r = 0 \<and> gave_up s s' pd (PGROUNDUP oldsz) newsz \<and> length xs < 2 * n)"
  using assms by (rule allocuvm_ok)

theorem allocuvm_grows_witness:
  "uvm_ok vm_demo 0x80300000 [0x80201000, 0x80200000] \<and>
   (\<exists>s' x. allocuvm 0x80300000 0 4096 vm_demo = Inr (4096, s') \<and> umap (mem s') 0x80300000 42 = Some x \<and> mem s' (x + 42) = 0)"
proof -
  have g: "PGROUNDUP 0 = 0" by (simp add: PGROUNDUP_def PGSIZE_def)
  have "in_pages 0 4096 42" by (simp add: in_pages_def PGROUNDDOWN_mod)
  moreover obtain s' where s': "allocuvm 0x80300000 0 4096 vm_demo = Inr (4096, s')" "grown vm_demo s' 0x80300000 0 4096"
    using allocuvm_grows [OF vm_demo_ok, of 0 4096 1] vm_demo_none by (auto simp: g KERNBASE_def)
  ultimately obtain x where "umap (mem s') 0x80300000 42 = Some x" "\<forall>k. unat k < 4096 \<longrightarrow> mem s' (x + k) = 0"
    unfolding grown_def by (metis (no_types))
  then show ?thesis using s'(1) vm_demo_ok by (auto dest: spec [of _ 42])
qed

text \<open>
  C16: shrinking a process. \<open>deallocuvm\<close> unmaps exactly the pages of \<open>[PGROUNDUP(newsz), oldsz)\<close>, gives
  exactly those pages back to the allocator (none is freed twice and none is lost), skips missing
  page tables, and leaves every other mapping and the contents of every other page alone.
\<close>

theorem deallocuvm_shrinks:
  assumes "uvm_ok s pd xs" "oldsz \<le> KERNBASE" "newsz < oldsz"
  shows "\<exists>s' ys. deallocuvm pd oldsz newsz s = Inr (newsz, s') \<and> uvm_ok s' pd ys \<and>
    set ys = set xs \<union> mapped_in (mem s) pd (PGROUNDUP newsz) oldsz \<and>
    (\<forall>va. umap (mem s') pd va = (if in_pages (PGROUNDUP newsz) oldsz va then None else umap (mem s) pd va)) \<and>
    user_same (mem s) (mem s') pd (\<lambda>q. \<not> (PGROUNDUP newsz \<le> q \<and> q < oldsz))"
  using deallocuvm_ok [OF assms] unfolding shrunk_def by blast

lemma vm_demo_grown:
  obtains s1 ys x where "allocuvm 0x80300000 0 4096 vm_demo = Inr (4096, s1)" "uvm_ok s1 0x80300000 ys"
    "\<And>va. in_pages 0 4096 va \<Longrightarrow> bit (entry (mem s1) 0x80300000 va) 0 \<and> bit (entry (mem s1) 0x80300000 va) 2"
proof -
  have g: "PGROUNDUP 0 = 0" by (simp add: PGROUNDUP_def PGSIZE_def)
  obtain s1 where s1: "allocuvm 0x80300000 0 4096 vm_demo = Inr (4096, s1)" "grown vm_demo s1 0x80300000 0 4096"
    using allocuvm_ok [OF vm_demo_ok, of 0 4096 1] vm_demo_none by (auto simp: g KERNBASE_def)
  moreover have "bit (entry (mem s1) 0x80300000 va) 0 \<and> bit (entry (mem s1) 0x80300000 va) 2"
    if i: "in_pages 0 4096 va" for va
  proof -
    obtain x where "entry (mem s1) 0x80300000 va = V2P x OR 7"
      using s1(2) i unfolding grown_def by (metis (no_types))
    then show ?thesis by (simp add: bit_simps)
  qed
  moreover obtain ys where "uvm_ok s1 0x80300000 ys" using s1(2) unfolding grown_def by blast
  ultimately show thesis using that by blast
qed

theorem deallocuvm_shrinks_witness:
  "\<exists>s1 s2 ys. allocuvm 0x80300000 0 4096 vm_demo = Inr (4096, s1) \<and>
     deallocuvm 0x80300000 4096 0 s1 = Inr (0, s2) \<and> uvm_ok s2 0x80300000 ys \<and> ys \<noteq> [] \<and>
     umap (mem s2) 0x80300000 42 = None"
proof -
  have g: "PGROUNDUP 0 = 0" by (simp add: PGROUNDUP_def PGSIZE_def)
  have i: "in_pages 0 4096 42" by (simp add: in_pages_def PGROUNDDOWN_mod)
  obtain s1 zs where s1: "allocuvm 0x80300000 0 4096 vm_demo = Inr (4096, s1)" "uvm_ok s1 0x80300000 zs"
    "bit (entry (mem s1) 0x80300000 42) 0" using vm_demo_grown i by metis
  then have "mapped_in (mem s1) 0x80300000 0 4096 \<noteq> {}" using i by (auto simp: mapped_in_def umap_def)
  then show ?thesis
    using deallocuvm_shrinks [OF s1(2), of 4096 0] s1(1) i by (fastforce simp: g KERNBASE_def)
qed

text \<open>
  C17: \<open>copyout\<close> across pages. When every page of \<open>[va, va + len)\<close> is present and accessible to the
  user, and the source lies outside the user pages, \<open>copyout\<close> returns 0 having written byte \<open>i\<close> of the
  source to the page byte that \<open>va + i\<close> is mapped to, for every \<open>i < len\<close>, and nothing else; the
  mapping is unchanged. (A page without \<open>PTE_U\<close> is never written: \<open>uva2ka\<close> gives 0 for it.)
\<close>

theorem copyout_writes_user_bytes:
  assumes "uvm_ok s pd xs" "\<And>i. unat i < unat len \<Longrightarrow> user_ok (mem s) pd (va + i)"
    "unat p + unat len < 2 ^ 32" "kernel_src (mem s) pd p len"
  shows "\<exists>m'. copyout pd va p len s = Inr (0, s\<lparr>mem := m'\<rparr>) \<and> umap m' pd = umap (mem s) pd \<and>
    (\<forall>i. unat i < unat len \<longrightarrow> m' (kaddr (mem s) pd (va + i)) = mem s (p + i)) \<and>
    (\<forall>b. (\<forall>i. unat i < unat len \<longrightarrow> b \<noteq> kaddr (mem s) pd (va + i)) \<longrightarrow> m' b = mem s b)"
  using copyout_ok [OF assms] unfolding copied_def by blast

theorem copyout_writes_user_bytes_witness:
  "\<exists>s1 m'. allocuvm 0x80300000 0 4096 vm_demo = Inr (4096, s1) \<and>
     copyout 0x80300000 42 0xC0000000 2 s1 = Inr (0, s1\<lparr>mem := m'\<rparr>) \<and>
     m' (kaddr (mem s1) 0x80300000 43) = mem s1 0xC0000001"
proof -
  obtain s1 ys where s1: "allocuvm 0x80300000 0 4096 vm_demo = Inr (4096, s1)" "uvm_ok s1 0x80300000 ys"
    "\<And>va. in_pages 0 4096 va \<Longrightarrow> bit (entry (mem s1) 0x80300000 va) 0 \<and> bit (entry (mem s1) 0x80300000 va) 2"
    using vm_demo_grown by metis
  have two: "i = 0 \<or> i = 1" if "unat i < unat (2 :: u32)" for i :: u32
  proof -
    have "unat i < 2" using that by simp
    then have "unat i = 0 \<or> unat i = 1" by linarith
    then show ?thesis by (simp add: word_unat_eq_iff)
  qed
  have "in_pages 0 4096 42" "in_pages 0 4096 43" by (simp_all add: in_pages_def PGROUNDDOWN_mod)
  then have "user_ok (mem s1) 0x80300000 (42 + i)" if "unat i < unat (2 :: u32)" for i
    using two [OF that] s1(3) by (auto simp: user_ok_def KERNBASE_def)
  moreover have "kernel_src (mem s1) 0x80300000 0xC0000000 2"
    unfolding kernel_src_def
  proof (intro allI impI)
    fix i :: u32 and va q
    assume "unat i < unat (2 :: u32)" and v: "va < KERNBASE" "umap (mem s1) 0x80300000 va = Some q"
    have "page_ok s1 q" using uvm_okD(4) [OF s1(2) v] by blast
    then have "unat q < unat KERNBASE + unat PHYSTOP" using V2P_bound [of q] by (auto simp: page_ok_def)
    then show "4096 \<le> unat (0xC0000000 + i - q)"
      using two [OF \<open>unat i < unat 2\<close>] by (auto simp: KERNBASE_def PHYSTOP_def unat_sub_if_size word_le_nat_alt word_size)
  qed
  ultimately show ?thesis
    using copyout_writes_user_bytes [OF s1(2), of 2 42 "0xC0000000"] s1(1) by (fastforce dest: spec [of _ 1])
qed

end
