(* ===== verification/Inode.thy ===== *)
theory Inode
  imports Log_Tx
begin

text \<open>
  The lower half of \<open>xv6/fs.c\<close>: the free-block bitmap, the inode cache and the blocks of an inode,
  with the on-disk formats of \<open>xv6/fs.h\<close> and the in-memory inode of \<open>xv6/file.h\<close>.

  A \<open>struct inode *\<close> is an index into \<open>icache.inode\<close>, and a null pointer is \<open>None\<close> where the source
  tests for it. The 16-bit fields of an inode keep their width; a negative \<open>short\<close> is a word with its
  sign bit set. The text \<open>iinit\<close> prints is not modelled.
\<close>

definition NINODE :: nat where "NINODE = 50"
definition NDEV :: nat where "NDEV = 10"
definition ROOTDEV :: u32 where "ROOTDEV = 1"
definition ROOTINO :: u32 where "ROOTINO = 1"
definition NDIRECT :: nat where "NDIRECT = 12"
definition NINDIRECT :: nat where "NINDIRECT = BSIZE div 4"
definition MAXFILE :: nat where "MAXFILE = NDIRECT + NINDIRECT"
definition DINODE_SIZE :: nat where "DINODE_SIZE = 64"
definition IPB :: nat where "IPB = BSIZE div DINODE_SIZE"
definition BPB :: nat where "BPB = BSIZE * 8"

definition T_DIR :: u16 where "T_DIR = 1"
definition T_FILE :: u16 where "T_FILE = 2"
definition T_DEV :: u16 where "T_DEV = 3"

record inode =
  idev :: u32
  inum :: u32
  iref :: int
  ilk :: sleeplock
  ivalid :: bool
  itype :: u16
  imajor :: u16
  iminor :: u16
  inlink :: u16
  isize :: u32
  iaddrs :: "u32 list"

text \<open>The only device the kernel installs in \<open>devsw\<close> is the console.\<close>

datatype devops = Console_ops

record icache_st = log_st +
  sb :: superblock
  inodes :: "nat \<Rightarrow> inode"
  devsw :: "nat \<Rightarrow> devops option"

definition upd_inode :: "nat \<Rightarrow> (inode \<Rightarrow> inode) \<Rightarrow> 'a icache_st_scheme \<Rightarrow> 'a icache_st_scheme" where
  "upd_inode i f s = s\<lparr>inodes := (inodes s)(i := f (inodes s i))\<rparr>"

definition inode_lock :: "nat \<Rightarrow> 'a icache_st_scheme \<Rightarrow> sleeplock" where
  "inode_lock i s = ilk (inodes s i)"

definition upd_inode_lock :: "nat \<Rightarrow> (sleeplock \<Rightarrow> sleeplock) \<Rightarrow> 'a icache_st_scheme \<Rightarrow> 'a icache_st_scheme" where
  "upd_inode_lock i f s = upd_inode i (\<lambda>ip. ip\<lparr>ilk := f (ilk ip)\<rparr>) s"

definition IBLOCK :: "u32 \<Rightarrow> superblock \<Rightarrow> u32" where
  "IBLOCK i x = i div of_nat IPB + sb_inodestart x"

definition BBLOCK :: "u32 \<Rightarrow> superblock \<Rightarrow> u32" where
  "BBLOCK b x = b div of_nat BPB + sb_bmapstart x"

section \<open>Blocks\<close>

definition bzero :: "u32 \<Rightarrow> u32 \<Rightarrow> 'a log_st_scheme \<Rightarrow> 'a log_st_scheme res" where
  "bzero dev bno s =
     bind_r (bread dev bno s) (\<lambda>(bp, s).
     bind_r (log_write bp (set_data bp (replicate BSIZE 0) s)) (brelse bp))"

definition bit_mask :: "nat \<Rightarrow> u8" where
  "bit_mask bi = push_bit (bi mod 8) 1"

definition bit_used :: "u8 list \<Rightarrow> nat \<Rightarrow> bool" where
  "bit_used d bi \<longleftrightarrow> d ! (bi div 8) AND bit_mask bi \<noteq> 0"

definition set_used :: "nat \<Rightarrow> u8 list \<Rightarrow> u8 list" where
  "set_used bi d = d[bi div 8 := d ! (bi div 8) OR bit_mask bi]"

definition clear_used :: "nat \<Rightarrow> u8 list \<Rightarrow> u8 list" where
  "clear_used bi d = d[bi div 8 := d ! (bi div 8) AND NOT (bit_mask bi)]"

fun balloc_from :: "nat \<Rightarrow> u32 \<Rightarrow> nat \<Rightarrow> 'a icache_st_scheme \<Rightarrow> (u32 \<times> 'a icache_st_scheme) res" where
  "balloc_from 0 dev b s = Inl NoFuel"
| "balloc_from (Suc fuel) dev b s =
     (if \<not> b < unat (sb_size (sb s)) then Inl (Panic ''balloc: out of blocks'')
      else
        bind_r (bread dev (BBLOCK (of_nat b) (sb s)) s) (\<lambda>(bp, s).
        case find (\<lambda>bi. \<not> bit_used (bdata (bufs s bp)) bi) [0..<min BPB (unat (sb_size (sb s)) - b)] of
          Some bi \<Rightarrow>
            bind_r (log_write bp (set_data bp (set_used bi (bdata (bufs s bp))) s)) (\<lambda>s.
            bind_r (brelse bp s) (\<lambda>s.
            bind_r (bzero dev (of_nat (b + bi)) s) (\<lambda>s.
            Inr (of_nat (b + bi), s))))
        | None \<Rightarrow> bind_r (brelse bp s) (\<lambda>s. balloc_from fuel dev (b + BPB) s)))"

definition balloc :: "u32 \<Rightarrow> 'a icache_st_scheme \<Rightarrow> (u32 \<times> 'a icache_st_scheme) res" where
  "balloc dev s = balloc_from (unat (sb_size (sb s)) div BPB + 2) dev 0 s"

definition bfree :: "u32 \<Rightarrow> u32 \<Rightarrow> 'a icache_st_scheme \<Rightarrow> 'a icache_st_scheme res" where
  "bfree dev b s =
     bind_r (readsb dev s) (\<lambda>(x, s).
     let s = s\<lparr>sb := x\<rparr> in
     bind_r (bread dev (BBLOCK b (sb s)) s) (\<lambda>(bp, s).
     let bi = unat b mod BPB in
     if \<not> bit_used (bdata (bufs s bp)) bi then Inl (Panic ''freeing free block'')
     else bind_r (log_write bp (set_data bp (clear_used bi (bdata (bufs s bp))) s)) (brelse bp)))"

section \<open>Inodes on disk\<close>

definition dinode_off :: "u32 \<Rightarrow> nat" where
  "dinode_off i = DINODE_SIZE * (unat i mod IPB)"

definition encode_dinode :: "inode \<Rightarrow> u8 list" where
  "encode_dinode ip = le16 (itype ip) @ le16 (imajor ip) @ le16 (iminor ip) @ le16 (inlink ip) @
     le32 (isize ip) @ concat (map le32 (iaddrs ip))"

definition decode_dinode :: "u8 list \<Rightarrow> inode \<Rightarrow> inode" where
  "decode_dinode d ip = ip\<lparr>itype := u16_at d 0, imajor := u16_at d 2, iminor := u16_at d 4,
     inlink := u16_at d 6, isize := u32_at d 8,
     iaddrs := map (\<lambda>k. u32_at d (12 + 4 * k)) [0..<NDIRECT + 1]\<rparr>"

definition iinit :: "u32 \<Rightarrow> 'a icache_st_scheme \<Rightarrow> 'a icache_st_scheme res" where
  "iinit dev s =
     (let s = s\<lparr>inodes := (\<lambda>i. if i < NINODE
            then (inodes s i)\<lparr>ilk := initsleeplock ''inode'' (ilk (inodes s i))\<rparr> else inodes s i)\<rparr> in
      bind_r (readsb dev s) (\<lambda>(x, s). Inr (s\<lparr>sb := x\<rparr>)))"

section \<open>The inode cache\<close>

definition iget :: "u32 \<Rightarrow> u32 \<Rightarrow> 'a icache_st_scheme \<Rightarrow> (nat \<times> 'a icache_st_scheme) res" where
  "iget dev i s =
     bind_r (acq LK_icache s) (\<lambda>s.
     case find (\<lambda>k. iref (inodes s k) > 0 \<and> idev (inodes s k) = dev \<and> inum (inodes s k) = i) [0..<NINODE] of
       Some k \<Rightarrow>
         bind_r (rel LK_icache (upd_inode k (\<lambda>ip. ip\<lparr>iref := iref ip + 1\<rparr>) s)) (\<lambda>s. Inr (k, s))
     | None \<Rightarrow>
         (case find (\<lambda>k. iref (inodes s k) = 0) [0..<NINODE] of
            None \<Rightarrow> Inl (Panic ''iget: no inodes'')
          | Some k \<Rightarrow>
              bind_r (rel LK_icache (upd_inode k (\<lambda>ip. ip\<lparr>idev := dev, inum := i, iref := 1, ivalid := False\<rparr>) s))
                (\<lambda>s. Inr (k, s))))"

fun ialloc_from :: "nat \<Rightarrow> u32 \<Rightarrow> u16 \<Rightarrow> nat \<Rightarrow> 'a icache_st_scheme \<Rightarrow> (nat \<times> 'a icache_st_scheme) res" where
  "ialloc_from 0 dev ty i s = Inl NoFuel"
| "ialloc_from (Suc fuel) dev ty i s =
     (if \<not> i < unat (sb_ninodes (sb s)) then Inl (Panic ''ialloc: no inodes'')
      else
        bind_r (bread dev (IBLOCK (of_nat i) (sb s)) s) (\<lambda>(bp, s).
        let off = dinode_off (of_nat i) in
        if u16_at (bdata (bufs s bp)) off = 0 then
          bind_r (log_write bp (set_data bp
              (put_bytes off (le16 ty @ replicate (DINODE_SIZE - 2) 0) (bdata (bufs s bp))) s)) (\<lambda>s.
          bind_r (brelse bp s) (iget dev (of_nat i)))
        else bind_r (brelse bp s) (ialloc_from fuel dev ty (Suc i))))"

definition ialloc :: "u32 \<Rightarrow> u16 \<Rightarrow> 'a icache_st_scheme \<Rightarrow> (nat \<times> 'a icache_st_scheme) res" where
  "ialloc dev ty s = ialloc_from (unat (sb_ninodes (sb s)) + 1) dev ty 1 s"

definition iupdate :: "nat \<Rightarrow> 'a icache_st_scheme \<Rightarrow> 'a icache_st_scheme res" where
  "iupdate k s =
     bind_r (bread (idev (inodes s k)) (IBLOCK (inum (inodes s k)) (sb s)) s) (\<lambda>(bp, s).
     let ip = inodes s k in
     bind_r (log_write bp (set_data bp
         (put_bytes (dinode_off (inum ip)) (encode_dinode ip) (bdata (bufs s bp))) s)) (brelse bp))"

definition idup :: "nat \<Rightarrow> 'a icache_st_scheme \<Rightarrow> (nat \<times> 'a icache_st_scheme) res" where
  "idup k s =
     bind_r (acq LK_icache s) (\<lambda>s.
     bind_r (rel LK_icache (upd_inode k (\<lambda>ip. ip\<lparr>iref := iref ip + 1\<rparr>) s)) (\<lambda>s. Inr (k, s)))"

definition ilock :: "nat option \<Rightarrow> 'a icache_st_scheme \<Rightarrow> 'a icache_st_scheme res" where
  "ilock ipo s =
     (case ipo of None \<Rightarrow> Inl (Panic ''ilock'') | Some k \<Rightarrow>
      if iref (inodes s k) < 1 then Inl (Panic ''ilock'')
      else
        bind_r (acquiresleep (Chan_inode k) (inode_lock k) (upd_inode_lock k) s) (\<lambda>s.
        if \<not> ivalid (inodes s k) then
          bind_r (bread (idev (inodes s k)) (IBLOCK (inum (inodes s k)) (sb s)) s) (\<lambda>(bp, s).
          let d = drop (dinode_off (inum (inodes s k))) (bdata (bufs s bp));
              s = upd_inode k (decode_dinode d) s in
          bind_r (brelse bp s) (\<lambda>s.
          let s = upd_inode k (\<lambda>ip. ip\<lparr>ivalid := True\<rparr>) s in
          if itype (inodes s k) = 0 then Inl (Panic ''ilock: no type'') else Inr s))
        else Inr s))"

definition iunlock :: "nat option \<Rightarrow> 'a icache_st_scheme \<Rightarrow> 'a icache_st_scheme res" where
  "iunlock ipo s =
     (case ipo of None \<Rightarrow> Inl (Panic ''iunlock'') | Some k \<Rightarrow>
      bind_r (holdingsleep (Chan_inode k) (inode_lock k) s) (\<lambda>(h, s).
      if \<not> h \<or> iref (inodes s k) < 1 then Inl (Panic ''iunlock'')
      else releasesleep (Chan_inode k) (upd_inode_lock k) s))"

section \<open>The blocks of an inode\<close>

definition bmap :: "nat \<Rightarrow> u32 \<Rightarrow> 'a icache_st_scheme \<Rightarrow> (u32 \<times> 'a icache_st_scheme) res" where
  "bmap k bn s =
     (if unat bn < NDIRECT then
        let addr = iaddrs (inodes s k) ! unat bn in
        if addr = 0 then
          bind_r (balloc (idev (inodes s k)) s) (\<lambda>(addr, s).
          Inr (addr, upd_inode k (\<lambda>ip. ip\<lparr>iaddrs := (iaddrs ip)[unat bn := addr]\<rparr>) s))
        else Inr (addr, s)
      else if unat bn - NDIRECT < NINDIRECT then
        let j = unat bn - NDIRECT in
        bind_r (let addr = iaddrs (inodes s k) ! NDIRECT in
                if addr = 0 then
                  bind_r (balloc (idev (inodes s k)) s) (\<lambda>(addr, s).
                  Inr (addr, upd_inode k (\<lambda>ip. ip\<lparr>iaddrs := (iaddrs ip)[NDIRECT := addr]\<rparr>) s))
                else Inr (addr, s)) (\<lambda>(addr, s).
        bind_r (bread (idev (inodes s k)) addr s) (\<lambda>(bp, s).
        bind_r (let addr = u32_at (bdata (bufs s bp)) (4 * j) in
                if addr = 0 then
                  bind_r (balloc (idev (inodes s k)) s) (\<lambda>(addr, s).
                  bind_r (log_write bp (set_data bp (put_bytes (4 * j) (le32 addr) (bdata (bufs s bp))) s)) (\<lambda>s.
                  Inr (addr, s)))
                else Inr (addr, s)) (\<lambda>(addr, s).
        bind_r (brelse bp s) (\<lambda>s. Inr (addr, s)))))
      else Inl (Panic ''bmap: out of range''))"

fun itrunc_direct :: "nat \<Rightarrow> nat list \<Rightarrow> 'a icache_st_scheme \<Rightarrow> 'a icache_st_scheme res" where
  "itrunc_direct k [] s = Inr s"
| "itrunc_direct k (i # is) s =
     (let addr = iaddrs (inodes s k) ! i in
      if addr \<noteq> 0 then
        bind_r (bfree (idev (inodes s k)) addr s) (\<lambda>s.
        itrunc_direct k is (upd_inode k (\<lambda>ip. ip\<lparr>iaddrs := (iaddrs ip)[i := 0]\<rparr>) s))
      else itrunc_direct k is s)"

fun itrunc_indirect :: "nat \<Rightarrow> nat \<Rightarrow> nat list \<Rightarrow> 'a icache_st_scheme \<Rightarrow> 'a icache_st_scheme res" where
  "itrunc_indirect k bp [] s = Inr s"
| "itrunc_indirect k bp (j # js) s =
     (let addr = u32_at (bdata (bufs s bp)) (4 * j) in
      if addr \<noteq> 0 then bind_r (bfree (idev (inodes s k)) addr s) (itrunc_indirect k bp js)
      else itrunc_indirect k bp js s)"

definition itrunc :: "nat \<Rightarrow> 'a icache_st_scheme \<Rightarrow> 'a icache_st_scheme res" where
  "itrunc k s =
     bind_r (itrunc_direct k [0..<NDIRECT] s) (\<lambda>s.
     bind_r (let addr = iaddrs (inodes s k) ! NDIRECT in
             if addr \<noteq> 0 then
               bind_r (bread (idev (inodes s k)) addr s) (\<lambda>(bp, s).
               bind_r (itrunc_indirect k bp [0..<NINDIRECT] s) (\<lambda>s.
               bind_r (brelse bp s) (\<lambda>s.
               bind_r (bfree (idev (inodes s k)) (iaddrs (inodes s k) ! NDIRECT) s) (\<lambda>s.
               Inr (upd_inode k (\<lambda>ip. ip\<lparr>iaddrs := (iaddrs ip)[NDIRECT := 0]\<rparr>) s)))))
             else Inr s) (\<lambda>s.
     iupdate k (upd_inode k (\<lambda>ip. ip\<lparr>isize := 0\<rparr>) s)))"

definition iput :: "nat \<Rightarrow> 'a icache_st_scheme \<Rightarrow> 'a icache_st_scheme res" where
  "iput k s =
     bind_r (acquiresleep (Chan_inode k) (inode_lock k) (upd_inode_lock k) s) (\<lambda>s.
     bind_r (if ivalid (inodes s k) \<and> inlink (inodes s k) = 0 then
               bind_r (acq LK_icache s) (\<lambda>s.
               let r = iref (inodes s k) in
               bind_r (rel LK_icache s) (\<lambda>s.
               if r = 1 then
                 bind_r (itrunc k s) (\<lambda>s.
                 bind_r (iupdate k (upd_inode k (\<lambda>ip. ip\<lparr>itype := 0\<rparr>) s)) (\<lambda>s.
                 Inr (upd_inode k (\<lambda>ip. ip\<lparr>ivalid := False\<rparr>) s)))
               else Inr s))
             else Inr s) (\<lambda>s.
     bind_r (releasesleep (Chan_inode k) (upd_inode_lock k) s) (\<lambda>s.
     bind_r (acq LK_icache s) (\<lambda>s.
     rel LK_icache (upd_inode k (\<lambda>ip. ip\<lparr>iref := iref ip - 1\<rparr>) s)))))"

definition iunlockput :: "nat \<Rightarrow> 'a icache_st_scheme \<Rightarrow> 'a icache_st_scheme res" where
  "iunlockput k s = bind_r (iunlock (Some k) s) (iput k)"

end
