(* ===== verification/Inode_Props.thy ===== *)
theory Inode_Props
  imports Inode Storage_Props
begin

text \<open>
  The properties of the lower half of \<open>xv6/fs.c\<close>: inodes on disk keep their fields and do not disturb
  each other, and the bitmap hands out the lowest free block.
\<close>

section \<open>The layout of an on-disk inode\<close>

lemma get_bytes_append:
  "off + n \<le> length xs \<Longrightarrow> get_bytes off n (xs @ ys) = get_bytes off n xs"
  "length xs \<le> off \<Longrightarrow> get_bytes off n (xs @ ys) = get_bytes (off - length xs) n ys"
  by (simp_all add: get_bytes_def)

lemma get_bytes_all: "length xs = n \<Longrightarrow> get_bytes 0 n xs = xs"
  by (simp add: get_bytes_def)

lemma length_concat_le32 [simp]: "length (concat (map le32 as)) = 4 * length as"
  by (induction as) simp_all

lemma get_concat_le32: "k < length as \<Longrightarrow> get_bytes (4 * k) 4 (concat (map le32 as) @ r) = le32 (as ! k)"
proof (induction as arbitrary: k)
  case (Cons a as)
  show ?case
  proof (cases k)
    case 0
    then show ?thesis by (simp add: get_bytes_append get_bytes_all)
  next
    case (Suc j)
    then show ?thesis using Cons by (simp add: get_bytes_append)
  qed
qed simp

lemma length_encode_dinode [simp]:
  "length (iaddrs ip) = NDIRECT + 1 \<Longrightarrow> length (encode_dinode ip) = DINODE_SIZE"
  by (simp add: encode_dinode_def NDIRECT_def DINODE_SIZE_def)

lemma decode_encode_dinode:
  assumes "length (iaddrs ip) = NDIRECT + 1"
  shows "decode_dinode (encode_dinode ip @ r) jp = jp\<lparr>itype := itype ip, imajor := imajor ip,
    iminor := iminor ip, inlink := inlink ip, isize := isize ip, iaddrs := iaddrs ip\<rparr>"
proof -
  let ?e = "encode_dinode ip @ r"
  have f: "u16_at ?e 0 = itype ip" "u16_at ?e 2 = imajor ip" "u16_at ?e 4 = iminor ip" "u16_at ?e 6 = inlink ip"
    "u32_at ?e 8 = isize ip"
    by (simp_all add: encode_dinode_def u16_at_def u32_at_def get_bytes_append get_bytes_all)
  have "u32_at ?e (12 + 4 * k) = iaddrs ip ! k" if "k < NDIRECT + 1" for k
    using that assms 
    by (simp add: encode_dinode_def u32_at_def get_bytes_append get_concat_le32 get_concat_le32 [where r = "[]", simplified])
  then have "map (\<lambda>k. u32_at ?e (12 + 4 * k)) [0..<NDIRECT + 1] = iaddrs ip"
    using assms by (intro nth_equalityI) (simp_all del: upt_Suc)
  then show ?thesis using f by (simp only: decode_dinode_def)
qed

lemma dinode_off_room: "dinode_off i + DINODE_SIZE \<le> BSIZE"
proof -
  have "unat i mod IPB < IPB" by (simp add: IPB_def BSIZE_def DINODE_SIZE_def)
  then have "DINODE_SIZE * Suc (unat i mod IPB) \<le> DINODE_SIZE * IPB" by (intro mult_le_mono2) simp
  then show ?thesis by (simp add: dinode_off_def IPB_def BSIZE_def DINODE_SIZE_def)
qed

lemma dinode_off_disjoint:
  "dinode_off i \<noteq> dinode_off j \<Longrightarrow>
     dinode_off j + DINODE_SIZE \<le> dinode_off i \<or> dinode_off i + DINODE_SIZE \<le> dinode_off j"
proof -
  assume "dinode_off i \<noteq> dinode_off j"
  then have "unat i mod IPB < unat j mod IPB \<or> unat j mod IPB < unat i mod IPB"
    by (auto simp: dinode_off_def)
  moreover have "DINODE_SIZE * a + DINODE_SIZE \<le> DINODE_SIZE * b" if "a < b" for a b
    using mult_le_mono2 [of "Suc a" b DINODE_SIZE] that by simp
  ultimately show ?thesis unfolding dinode_off_def by blast
qed

lemma put_dinode:
  fixes i j :: u32
  assumes "length (iaddrs ip) = NDIRECT + 1" "length d = BSIZE"
  defines "d' \<equiv> put_bytes (dinode_off i) (encode_dinode ip) d"
  shows "length d' = BSIZE"
    "decode_dinode (drop (dinode_off i) d') jp = jp\<lparr>itype := itype ip, imajor := imajor ip,
       iminor := iminor ip, inlink := inlink ip, isize := isize ip, iaddrs := iaddrs ip\<rparr>"
    "dinode_off j \<noteq> dinode_off i \<Longrightarrow>
       get_bytes (dinode_off j) DINODE_SIZE d' = get_bytes (dinode_off j) DINODE_SIZE d"
proof -
  note room = dinode_off_room [of i] dinode_off_room [of j]
  show "length d' = BSIZE" using assms room by simp
  have "drop (dinode_off i) d' = encode_dinode ip @ drop (dinode_off i + DINODE_SIZE) d"
    using assms room by (simp add: put_bytes_def)
  then show "decode_dinode (drop (dinode_off i) d') jp = jp\<lparr>itype := itype ip, imajor := imajor ip,
       iminor := iminor ip, inlink := inlink ip, isize := isize ip, iaddrs := iaddrs ip\<rparr>"
    using decode_encode_dinode [OF assms(1)] by simp
  show "get_bytes (dinode_off j) DINODE_SIZE d' = get_bytes (dinode_off j) DINODE_SIZE d"
    if "dinode_off j \<noteq> dinode_off i"
    unfolding d'_def using assms room dinode_off_disjoint [of i j] that by (intro get_put_disjoint) auto
qed

section \<open>The bitmap\<close>

lemma bit_mask_bit: "bit (bit_mask bi) n \<longleftrightarrow> n = bi mod 8"
  by (auto simp: bit_mask_def bit_simps)

lemma bit_used_iff: "bit_used d bi \<longleftrightarrow> bit (d ! (bi div 8)) (bi mod 8)"
proof -
  have "bit_mask bi = 2 ^ (bi mod 8)" by (simp add: bit_mask_def push_bit_eq_mult)
  then show ?thesis using and_pow2_eq_0_iff [of "bi mod 8" "d ! (bi div 8)"] by (simp add: bit_used_def)
qed

lemma same_bit: "bi div 8 = bj div 8 \<Longrightarrow> bi mod 8 = bj mod 8 \<Longrightarrow> bi = bj" for bi bj :: nat
  by (metis div_mult_mod_eq)

lemma bit_used_set: "bi div 8 < length d \<Longrightarrow> bit_used (set_used bi d) bj \<longleftrightarrow> bj = bi \<or> bit_used d bj"
  by (auto simp: bit_used_iff set_used_def nth_list_update bit_or_iff bit_mask_bit dest: same_bit)

lemma bit_used_clear: "bi div 8 < length d \<Longrightarrow> bit_used (clear_used bi d) bj \<longleftrightarrow> bj \<noteq> bi \<and> bit_used d bj"
  by (auto simp: bit_used_iff clear_used_def nth_list_update bit_and_iff bit_not_iff bit_mask_bit dest: same_bit)

lemma length_bitmap [simp]: "length (set_used bi d) = length d" "length (clear_used bi d) = length d"
  by (simp_all add: set_used_def clear_used_def)

section \<open>Storing an inode\<close>

lemma lframe_icache:
  "lframe s s' \<Longrightarrow> inodes s' = inodes s \<and> sb s' = sb s \<and> devsw s' = devsw s \<and> memdisk s' = memdisk s \<and>
     log_start s' = log_start s \<and> log_size s' = log_size s \<and> disksize s' = disksize s \<and>
     outstanding s' = outstanding s \<and> held s' = held s" for s :: "'a icache_st_scheme"
  by (auto simp: lframe_def)

lemma iupdate_ok:
  fixes s :: "'a icache_st_scheme"
  assumes inv: "tx_inv {} s" and t: "lh_n s < log_size s - 1" "1 \<le> outstanding s"
    and ip: "idev (inodes s k) = ROOTDEV" "length (iaddrs (inodes s k)) = NDIRECT + 1"
    and b: "IBLOCK (inum (inodes s k)) (sb s) < disksize s" "IBLOCK (inum (inodes s k)) (sb s) \<notin> log_region (log_start s) (log_size s)"
  defines "f \<equiv> put_bytes (dinode_off (inum (inodes s k))) (encode_dinode (inodes s k))"
  shows "\<exists>s'. iupdate k s = Inr s' \<and> tx_inv {} s' \<and> lframe s s' \<and>
    view s' = (view s)(IBLOCK (inum (inodes s k)) (sb s) := f (view s (IBLOCK (inum (inodes s k)) (sb s)))) \<and>
    set (logged s') = insert (IBLOCK (inum (inodes s k)) (sb s)) (set (logged s))"
proof -
  let ?b = "IBLOCK (inum (inodes s k)) (sb s)"
  let ?g = "\<lambda>s' :: 'a icache_st_scheme. put_bytes (dinode_off (inum (inodes s' k))) (encode_dinode (inodes s' k))"
  have "length (view s ?b) = BSIZE" using tx.t_len [OF inv, of ?b] by simp
  then have len: "length (f (view s ?b)) = BSIZE" unfolding f_def by (rule put_dinode(1) [OF ip(2)])
  have g: "?g s' = f" if "lframe s s'" for s' using lframe_icache [OF that] by (simp add: f_def)
  obtain s' where s': "bind_r (bread 1 ?b s) (\<lambda>(i, s). bind_r (log_write i (set_data i (?g s (bdata (bufs s i))) s)) (brelse i)) = Inr s'"
    "tx_inv {} s'" "lframe s s'"
    "tx_obs_of s' = (tx_obs_of s)\<lparr>t_view := (view s)(?b := f (view s ?b)), t_logged := insert ?b (set (logged s)),
      t_slots := (if ?b \<in> set (logged s) then log_size s - 1 - lh_n s else log_size s - 1 - lh_n s - 1)\<rparr>"
    using tx.read_modify_write [OF inv, of ?b ?g f] b t len g by auto
  have "iupdate k s = Inr s'" using s'(1) ip(1) by (simp add: iupdate_def ROOTDEV_def Let_def)
  moreover have "view s' = (view s)(?b := f (view s ?b))" "set (logged s') = insert ?b (set (logged s))"
    using arg_cong [OF s'(4), of t_view] arg_cong [OF s'(4), of t_logged] by simp_all
  ultimately show ?thesis using s'(2,3) by blast
qed

text \<open>
  C9: inside a transaction with room for a block, \<open>iupdate\<close> stores the inode in its slot of the inode
  block, which lies inside the disk and outside the log: reading the slot back gives every field of
  the in-memory inode, the other inodes of that block and all other blocks keep their contents, and
  the block is recorded in the log.
\<close>
theorem iupdate_round_trip:
  fixes s :: "'a icache_st_scheme"
  assumes "tx_inv {} s" "lh_n s < log_size s - 1" "1 \<le> outstanding s"
    and "idev (inodes s k) = ROOTDEV" "length (iaddrs (inodes s k)) = NDIRECT + 1"
    and "IBLOCK (inum (inodes s k)) (sb s) < disksize s" "IBLOCK (inum (inodes s k)) (sb s) \<notin> log_region (log_start s) (log_size s)"
  shows "\<exists>s'. iupdate k s = Inr s' \<and> tx_inv {} s' \<and> inodes s' = inodes s \<and>
    (let ip = inodes s k; b = IBLOCK (inum ip) (sb s); off = dinode_off (inum ip) in
     b \<in> set (logged s') \<and>
     (\<forall>jp. decode_dinode (drop off (view s' b)) jp = jp\<lparr>itype := itype ip, imajor := imajor ip,
        iminor := iminor ip, inlink := inlink ip, isize := isize ip, iaddrs := iaddrs ip\<rparr>) \<and>
     (\<forall>j. dinode_off j \<noteq> off \<longrightarrow>
        get_bytes (dinode_off j) DINODE_SIZE (view s' b) = get_bytes (dinode_off j) DINODE_SIZE (view s b)) \<and>
     (\<forall>c. c \<noteq> b \<longrightarrow> view s' c = view s c))"
proof -
  let ?b = "IBLOCK (inum (inodes s k)) (sb s)"
  have len: "length (view s ?b) = BSIZE" using tx.t_len [OF assms(1), of ?b] by simp
  obtain s' where "iupdate k s = Inr s'" "tx_inv {} s'" "lframe s s'"
    "view s' = (view s)(?b := put_bytes (dinode_off (inum (inodes s k))) (encode_dinode (inodes s k)) (view s ?b))"
    "set (logged s') = insert ?b (set (logged s))"
    using iupdate_ok [OF assms] by blast
  then show ?thesis
    using put_dinode(2,3) [OF assms(5) len, where i = "inum (inodes s k)"] lframe_icache [of s s'] by (simp add: Let_def)
qed

section \<open>Allocating and freeing blocks\<close>

text \<open>
  The blocks the bitmap marks free. In a well-formed file system the bitmap blocks are inside the disk and
  outside the log, and neither they nor the blocks of the log are free.
\<close>

definition free_blocks :: "'a icache_st_scheme \<Rightarrow> nat set" where
  "free_blocks s = {b. b < unat (sb_size (sb s)) \<and> \<not> bit_used (view s (BBLOCK (of_nat b) (sb s))) (b mod BPB)}"

definition bitmap_wf :: "'a icache_st_scheme \<Rightarrow> bool" where
  "bitmap_wf s \<longleftrightarrow> sb_size (sb s) \<le> disksize s \<and>
     (\<forall>c < unat (sb_size (sb s)). BBLOCK (of_nat c) (sb s) < disksize s \<and>
        BBLOCK (of_nat c) (sb s) \<notin> log_region (log_start s) (log_size s) \<and> unat (BBLOCK (of_nat c) (sb s)) \<notin> free_blocks s) \<and>
     (\<forall>c \<in> log_region (log_start s) (log_size s). unat c \<notin> free_blocks s)"

lemma find_upt_Some: "i < m \<Longrightarrow> P i \<Longrightarrow> \<forall>j<i. \<not> P j \<Longrightarrow> find P [0..<m] = Some i"
  by (auto simp: find_Some_iff intro!: exI [of _ i])

lemma find_upt_None: "\<forall>j<m. \<not> P j \<Longrightarrow> find P [0..<m] = None"
  by (auto simp: find_None_iff)

lemma unat_BPB [simp]: "unat (of_nat BPB :: u32) = BPB"
  by (simp add: BPB_def BSIZE_def)

lemma BBLOCK_of_nat: "b < 2 ^ 32 \<Longrightarrow> BBLOCK (of_nat b) x = of_nat (b div BPB) + sb_bmapstart x"
proof -
  assume b: "b < 2 ^ 32"
  have "unat ((of_nat b :: u32) div of_nat BPB) = b div BPB"
    using b by (simp only: unat_div unat_BPB) (simp add: unat_of_nat take_bit_eq_mod)
  moreover have "unat (of_nat (b div BPB) :: u32) = b div BPB"
    using le_less_trans [OF div_le_dividend b, of BPB] by (simp add: unat_of_nat take_bit_eq_mod)
  ultimately have "(of_nat b :: u32) div of_nat BPB = of_nat (b div BPB)" by (simp only: word_unat_eq_iff)
  then show ?thesis by (simp add: BBLOCK_def)
qed

lemma BBLOCK_group:
  assumes "b0 mod BPB = 0" "bi < BPB" "b0 + bi < 2 ^ 32"
  shows "BBLOCK (of_nat (b0 + bi)) x = BBLOCK (of_nat b0) x" "(b0 + bi) mod BPB = bi"
proof -
  obtain q where q: "b0 = q * BPB" using assms(1) by (metis add_0_right div_mult_mod_eq)
  then have "(b0 + bi) div BPB = b0 div BPB" using assms(2) by simp
  then show "BBLOCK (of_nat (b0 + bi)) x = BBLOCK (of_nat b0) x"
    using BBLOCK_of_nat [of "b0 + bi" x] BBLOCK_of_nat [of b0 x] assms(3) by simp
  show "(b0 + bi) mod BPB = bi" using q assms(2) by simp
qed

lemma bzero_ok:
  assumes inv: "tx_inv {} s" and t: "lh_n s < log_size s - 1" "1 \<le> outstanding s"
    and c: "c < disksize s" "c \<notin> log_region (log_start s) (log_size s)"
  shows "\<exists>s'. bzero ROOTDEV c s = Inr s' \<and> tx_inv {} s' \<and> lframe s s' \<and>
    view s' = (view s)(c := replicate BSIZE 0) \<and> set (logged s') = insert c (set (logged s))"
proof -
  obtain s' where s': "bind_r (bread 1 c s) (\<lambda>(i, s). bind_r (log_write i (set_data i (replicate BSIZE 0) s)) (brelse i)) = Inr s'"
    "tx_inv {} s'" "lframe s s'"
    "tx_obs_of s' = (tx_obs_of s)\<lparr>t_view := (view s)(c := replicate BSIZE 0), t_logged := insert c (set (logged s)),
      t_slots := (if c \<in> set (logged s) then log_size s - 1 - lh_n s else log_size s - 1 - lh_n s - 1)\<rparr>"
    using tx.read_modify_write [OF inv, of c "\<lambda>_ _. replicate BSIZE 0" "\<lambda>_. replicate BSIZE 0"] c t by auto
  have "view s' = (view s)(c := replicate BSIZE 0)" "set (logged s') = insert c (set (logged s))"
    using arg_cong [OF s'(4), of t_view] arg_cong [OF s'(4), of t_logged] by simp_all
  then show ?thesis using s' by (auto simp: bzero_def ROOTDEV_def)
qed

lemma set_log_release_view:
  assumes inv: "tx_inv {i} s" and t: "lh_n s < log_size s - 1" "1 \<le> outstanding s"
    and b: "blockno (bufs s i) \<notin> log_region (log_start s) (log_size s)" and d: "length d = BSIZE"
  shows "\<exists>s'. bind_r (log_write i (set_data i d s)) (brelse i) = Inr s' \<and> tx_inv {} s' \<and> lframe s s' \<and>
    view s' = (view s)(blockno (bufs s i) := d) \<and> set (logged s') = insert (blockno (bufs s i)) (set (logged s)) \<and>
    log_size s' - lh_n s' \<ge> log_size s - lh_n s - 1"
proof -
  obtain s' where s': "bind_r (log_write i (set_data i d s)) (brelse i) = Inr s'" "tx_inv {} s'" "lframe s s'"
    "tx_obs_of s' = (tx_obs_of s)\<lparr>t_view := (view s)(blockno (bufs s i) := d),
      t_logged := insert (blockno (bufs s i)) (set (logged s)),
      t_slots := (if blockno (bufs s i) \<in> set (logged s) then log_size s - 1 - lh_n s else log_size s - 1 - lh_n s - 1)\<rparr>"
    using tx.set_log_release [of i "{}" s d] inv t b d by auto
  have "view s' = (view s)(blockno (bufs s i) := d)" "set (logged s') = insert (blockno (bufs s i)) (set (logged s))"
    "log_size s' - lh_n s' \<ge> log_size s - lh_n s - 1"
    using arg_cong [OF s'(4), of t_view] arg_cong [OF s'(4), of t_logged] arg_cong [OF s'(4), of t_slots]
    by (simp_all split: if_splits)
  then show ?thesis using s'(1-3) by blast
qed

text \<open>Marking a block in the bitmap and clearing it.\<close>

lemma balloc_take:
  fixes s :: "'a icache_st_scheme"
  assumes inv: "tx_inv {} s" and t: "lh_n s < log_size s - 2" "1 \<le> outstanding s"
    and bb: "bb < disksize s" "bb \<notin> log_region (log_start s) (log_size s)" "length (f (view s bb)) = BSIZE"
    and c: "c < disksize s" "c \<notin> log_region (log_start s) (log_size s)"
  shows "\<exists>i s1 s'. bread ROOTDEV bb s = Inr (i, s1) \<and> bdata (bufs s1 i) = view s bb \<and> sb s1 = sb s \<and>
    bind_r (log_write i (set_data i (f (view s bb)) s1)) (\<lambda>s. bind_r (brelse i s) (\<lambda>s.
      bind_r (bzero ROOTDEV c s) (\<lambda>s. Inr (c, s)))) = Inr (c, s') \<and>
    tx_inv {} s' \<and> lframe s s' \<and> view s' = (view s)(bb := f (view s bb), c := replicate BSIZE 0) \<and>
    set (logged s') = {c, bb} \<union> set (logged s)"
proof -
  obtain i s1 where s1: "bread 1 bb s = Inr (i, s1)" "tx_inv {i} s1" "blockno (bufs s1 i) = bb"
    "tx_obs_of s1 = tx_obs_of s" "lframe s s1"
    using tx.t_rd [OF inv, of bb] bb(1) by auto
  note o1 = arg_cong [OF s1(4), of t_view] arg_cong [OF s1(4), of t_slots] arg_cong [OF s1(4), of t_active]
    arg_cong [OF s1(4), of t_resv] arg_cong [OF s1(4), of t_logged]
  have d: "bdata (bufs s1 i) = view s bb" using tx.t_held [OF s1(2), of i] s1(3) o1(1) by simp
  have l1: "lh_n s1 < log_size s1 - 1" using o1(2) t(1) by simp
  obtain s2 where s2: "bind_r (log_write i (set_data i (f (view s bb)) s1)) (brelse i) = Inr s2" "tx_inv {} s2" "lframe s1 s2"
    "view s2 = (view s1)(bb := f (view s bb))" "set (logged s2) = insert bb (set (logged s1))"
    "log_size s2 - lh_n s2 \<ge> log_size s1 - lh_n s1 - 1"
    using set_log_release_view [OF s1(2) l1, of "f (view s bb)"] s1(3) o1 bb(2,3) t(2) by auto
  have fr: "lframe s s2" using lframe_trans [OF s1(5) s2(3)] .
  have "lh_n s2 < log_size s2 - 1" using s2(6) o1(2) t(1) by simp
  then obtain s' where s': "bzero ROOTDEV c s2 = Inr s'" "tx_inv {} s'" "lframe s2 s'"
    "view s' = (view s2)(c := replicate BSIZE 0)" "set (logged s') = insert c (set (logged s2))"
    using bzero_ok [OF s2(2), of c] c t(2) lframe_icache [OF fr] by auto
  have "bind_r (log_write i (set_data i (f (view s bb)) s1)) (\<lambda>s. bind_r (brelse i s) (\<lambda>s.
      bind_r (bzero ROOTDEV c s) (\<lambda>s. Inr (c, s)))) = Inr (c, s')"
    using s2(1) s'(1) by (simp add: bind_r_assoc [symmetric])
  moreover have "view s' = (view s)(bb := f (view s bb), c := replicate BSIZE 0)"
    "set (logged s') = {c, bb} \<union> set (logged s)"
    using s'(4,5) s2(4,5) o1 by auto
  ultimately show ?thesis
    using s1(1) d s'(2) lframe_trans [OF fr s'(3)] lframe_icache [OF s1(5)] by (auto simp: ROOTDEV_def)
qed

lemma free_block_word:
  fixes s :: "'a icache_st_scheme"
  assumes "bitmap_wf s" "b \<in> free_blocks s"
  shows "b < 2 ^ 32" "unat (of_nat b :: u32) = b" "of_nat b < disksize s" "of_nat b \<notin> log_region (log_start s) (log_size s)"
    "BBLOCK (of_nat b) (sb s) < disksize s" "BBLOCK (of_nat b) (sb s) \<notin> log_region (log_start s) (log_size s)"
    "of_nat b \<noteq> BBLOCK (of_nat c) (sb s) \<or> c \<ge> unat (sb_size (sb s))"
proof -
  have lt: "b < unat (sb_size (sb s))" using assms(2) by (simp add: free_blocks_def)
  show b: "b < 2 ^ 32" using lt unat32_lt [of "sb_size (sb s)"] by linarith
  show u: "unat (of_nat b :: u32) = b" using b by (simp add: unat_of_nat take_bit_eq_mod)
  have "unat (of_nat b :: u32) < unat (disksize s)"
    using lt u assms(1) by (simp add: bitmap_wf_def word_le_nat_alt)
  then show "of_nat b < disksize s" by (simp add: word_less_nat_alt)
  show "of_nat b \<notin> log_region (log_start s) (log_size s)" using assms u unfolding bitmap_wf_def by metis
  show "BBLOCK (of_nat b) (sb s) < disksize s" "BBLOCK (of_nat b) (sb s) \<notin> log_region (log_start s) (log_size s)"
    using assms(1) lt by (auto simp: bitmap_wf_def)
  show "of_nat b \<noteq> BBLOCK (of_nat c) (sb s) \<or> c \<ge> unat (sb_size (sb s))"
    using assms u unfolding bitmap_wf_def by (metis not_le)
qed

lemma free_blocks_cong: "view s' = view s \<Longrightarrow> sb s' = sb s \<Longrightarrow> free_blocks s' = free_blocks s"
  by (simp add: free_blocks_def)

lemma free_in_group:
  assumes "b0 mod BPB = 0" "j < min BPB (unat (sb_size (sb s)) - b0)"
  shows "\<not> bit_used (view s (BBLOCK (of_nat b0) (sb s))) j \<longleftrightarrow> b0 + j \<in> free_blocks s"
proof -
  have j: "j < BPB" "b0 + j < unat (sb_size (sb s))" using assms(2) by linarith+
  then have "b0 + j < 2 ^ 32" using unat32_lt [of "sb_size (sb s)"] by linarith
  then show ?thesis using BBLOCK_group [OF assms(1) j(1)] j(2) by (simp add: free_blocks_def)
qed

text \<open>A bitmap block with no free bit is read and released, and the scan goes on.\<close>

lemma balloc_from_skip:
  fixes s :: "'a icache_st_scheme"
  assumes inv: "tx_inv {} s" and wf: "bitmap_wf s" and lt: "b0 < unat (sb_size (sb s))"
    and none: "find (\<lambda>bi. \<not> bit_used (view s (BBLOCK (of_nat b0) (sb s))) bi) [0..<min BPB (unat (sb_size (sb s)) - b0)] = None"
  shows "\<exists>s'. balloc_from (Suc fuel) ROOTDEV b0 s = balloc_from fuel ROOTDEV (b0 + BPB) s' \<and> tx_inv {} s' \<and>
    lframe s s' \<and> tx_obs_of s' = tx_obs_of s \<and> free_blocks s' = free_blocks s \<and> bitmap_wf s'"
proof -
  let ?B = "BBLOCK (of_nat b0) (sb s)"
  have B: "?B < disksize s" using wf lt by (auto simp: bitmap_wf_def)
  obtain i s1 s2 where s2: "bread 1 ?B s = Inr (i, s1)" "bdata (bufs s1 i) = view s ?B" "lframe s s1"
    "brelse i s1 = Inr s2" "tx_inv {} s2" "lframe s s2" "tx_obs_of s2 = tx_obs_of s"
    using tx.read_only [OF inv, of ?B] B by auto
  note fi = lframe_icache [OF s2(6)]
  have fb: "free_blocks s2 = free_blocks s"
    using fi arg_cong [OF s2(7), of t_view] by (intro free_blocks_cong) simp_all
  moreover have "bitmap_wf s2" using wf fb fi by (simp add: bitmap_wf_def)
  moreover have "balloc_from (Suc fuel) ROOTDEV b0 s = balloc_from fuel ROOTDEV (b0 + BPB) s2"
    using lt s2(1,2,4) none lframe_icache [OF s2(3)] by (simp add: ROOTDEV_def)
  ultimately show ?thesis using s2(5-7) by blast
qed

lemma balloc_from_finds:
  fixes s :: "'a icache_st_scheme"
  assumes "tx_inv {} s" "lh_n s < log_size s - 2" "1 \<le> outstanding s" "bitmap_wf s"
    and "b0 mod BPB = 0" "b0 \<le> b" "b \<in> free_blocks s" "\<forall>c \<in> free_blocks s. b0 \<le> c \<longrightarrow> b \<le> c"
    and "b < b0 + fuel * BPB"
  defines "bb \<equiv> BBLOCK (of_nat b) (sb s)"
  shows "\<exists>s'. balloc_from fuel ROOTDEV b0 s = Inr (of_nat b, s') \<and> tx_inv {} s' \<and> lframe s s' \<and>
    view s' = (view s)(bb := set_used (b mod BPB) (view s bb), of_nat b := replicate BSIZE 0) \<and>
    set (logged s') = {of_nat b, bb} \<union> set (logged s)"
  using assms(1-9) unfolding bb_def
proof (induction fuel arbitrary: b0 s)
  case (Suc fuel)
  note w = free_block_word [OF Suc.prems(4,7)]
  let ?N = "unat (sb_size (sb s))" and ?B = "BBLOCK (of_nat b0) (sb s)"
  have bN: "b < ?N" using Suc.prems(7) by (simp add: free_blocks_def)
  have lt: "b0 < ?N" "?N < 2 ^ 32" using bN Suc.prems(6) unat32_lt [of "sb_size (sb s)"] by linarith+
  have B: "?B < disksize s" "?B \<notin> log_region (log_start s) (log_size s)" using Suc.prems(4) lt(1) by (auto simp: bitmap_wf_def)
  have fr: "\<not> bit_used (view s ?B) j \<longleftrightarrow> b0 + j \<in> free_blocks s" if "j < min BPB (?N - b0)" for j
    using free_in_group [OF Suc.prems(5) that] .
  show ?case
  proof (cases "b < b0 + BPB")
    case True
    let ?f = "set_used (b - b0)"
    have g: "BBLOCK (of_nat b) (sb s) = ?B" "b mod BPB = b - b0"
      using BBLOCK_group [OF Suc.prems(5), where bi = "b - b0"] True Suc.prems(6) w(1) by simp_all
    have len: "length (?f (view s ?B)) = BSIZE" using tx.t_len [OF Suc.prems(1)] by simp
    have "find (\<lambda>bi. \<not> bit_used (view s ?B) bi) [0..<min BPB (?N - b0)] = Some (b - b0)"
      using fr Suc.prems(6-8) True bN by (intro find_upt_Some) force+
    moreover obtain i s1 s' where r: "bread ROOTDEV ?B s = Inr (i, s1)" "bdata (bufs s1 i) = view s ?B" "sb s1 = sb s"
      "bind_r (log_write i (set_data i (?f (view s ?B)) s1)) (\<lambda>s. bind_r (brelse i s) (\<lambda>s.
         bind_r (bzero ROOTDEV (of_nat b) s) (\<lambda>s. Inr (of_nat b, s)))) = Inr (of_nat b :: u32, s')"
      "tx_inv {} s'" "lframe s s'" "view s' = (view s)(?B := ?f (view s ?B), of_nat b := replicate BSIZE 0)"
      "set (logged s') = {of_nat b, ?B} \<union> set (logged s)"
      using balloc_take [OF Suc.prems(1-3) B, of ?f "of_nat b"] len w(3,4) by blast
    moreover have "b0 + (b - b0) = b" using Suc.prems(6) by simp
    ultimately have "balloc_from (Suc fuel) ROOTDEV b0 s = Inr (of_nat b, s')"
      using lt(1) by (simp del: of_nat_add)
    then show ?thesis unfolding g using r(5-8) by blast
  next
    case False
    have none: "find (\<lambda>bi. \<not> bit_used (view s ?B) bi) [0..<min BPB (?N - b0)] = None"
      using fr Suc.prems(8) False by (intro find_upt_None) force
    obtain s2 where st: "balloc_from (Suc fuel) ROOTDEV b0 s = balloc_from fuel ROOTDEV (b0 + BPB) s2"
      and s2: "tx_inv {} s2" "lframe s s2" "tx_obs_of s2 = tx_obs_of s" "free_blocks s2 = free_blocks s" "bitmap_wf s2"
      using balloc_from_skip [OF Suc.prems(1,4) lt(1) none] by blast
    note fi = lframe_icache [OF s2(2)] and o2 = arg_cong [OF s2(3), of t_view] arg_cong [OF s2(3), of t_slots]
      arg_cong [OF s2(3), of t_logged]
    have pre: "lh_n s2 < log_size s2 - 2" "1 \<le> outstanding s2" "(b0 + BPB) mod BPB = 0" "b0 + BPB \<le> b"
      "b \<in> free_blocks s2" "\<forall>c \<in> free_blocks s2. b0 + BPB \<le> c \<longrightarrow> b \<le> c" "b < b0 + BPB + fuel * BPB"
      using Suc.prems fi o2(2) s2(4) False by auto
    obtain s' where s': "balloc_from fuel ROOTDEV (b0 + BPB) s2 = Inr (of_nat b, s')" "tx_inv {} s'" "lframe s2 s'"
      "view s' = (view s2)(BBLOCK (of_nat b) (sb s2) := set_used (b mod BPB) (view s2 (BBLOCK (of_nat b) (sb s2))),
         of_nat b := replicate BSIZE 0)"
      "set (logged s') = {of_nat b, BBLOCK (of_nat b) (sb s2)} \<union> set (logged s2)"
      using Suc.IH [OF s2(1) pre(1,2) s2(5) pre(3-7)] by blast
    have v: "view s2 = view s" "set (logged s2) = set (logged s)" "sb s2 = sb s" using o2 fi by simp_all
    have "balloc_from (Suc fuel) ROOTDEV b0 s = Inr (of_nat b, s')" using st s'(1) by (simp only:)
    then show ?thesis using s'(2,4,5) lframe_trans [OF s2(2) s'(3)] unfolding v by blast
  qed
qed simp

lemma balloc_from_full:
  fixes s :: "'a icache_st_scheme"
  assumes "tx_inv {} s" "bitmap_wf s" "b0 mod BPB = 0" "\<forall>c \<in> free_blocks s. c < b0"
    and "b0 < unat (sb_size (sb s)) + BPB" "unat (sb_size (sb s)) + BPB \<le> b0 + fuel * BPB"
  shows "balloc_from fuel ROOTDEV b0 s = Inl (Panic ''balloc: out of blocks'')"
  using assms
proof (induction fuel arbitrary: b0 s)
  case (Suc fuel)
  show ?case
  proof (cases "b0 < unat (sb_size (sb s))")
    case True
    have none: "find (\<lambda>bi. \<not> bit_used (view s (BBLOCK (of_nat b0) (sb s))) bi)
        [0..<min BPB (unat (sb_size (sb s)) - b0)] = None"
      using free_in_group [OF Suc.prems(3)] Suc.prems(4) by (intro find_upt_None) force
    obtain s2 where st: "balloc_from (Suc fuel) ROOTDEV b0 s = balloc_from fuel ROOTDEV (b0 + BPB) s2"
      and s2: "tx_inv {} s2" "lframe s s2" "free_blocks s2 = free_blocks s" "bitmap_wf s2"
      using balloc_from_skip [OF Suc.prems(1,2) True none] by blast
    have "(b0 + BPB) mod BPB = 0" "\<forall>c \<in> free_blocks s2. c < b0 + BPB"
      "b0 + BPB < unat (sb_size (sb s2)) + BPB" "unat (sb_size (sb s2)) + BPB \<le> b0 + BPB + fuel * BPB"
      using Suc.prems s2(3) lframe_icache [OF s2(2)] True by auto
    from Suc.IH [OF s2(1,4) this] show ?thesis using st by (simp only:)
  qed simp
qed simp

lemma free_blocks_set:
  fixes s s' :: "'a icache_st_scheme"
  assumes "sb s' = sb s" "\<And>c. length (view s c) = BSIZE" "b < unat (sb_size (sb s))"
    and "\<And>c. c < unat (sb_size (sb s)) \<Longrightarrow> view s' (BBLOCK (of_nat c) (sb s)) =
      (if BBLOCK (of_nat c) (sb s) = BBLOCK (of_nat b) (sb s) then f (b mod BPB) (view s (BBLOCK (of_nat b) (sb s)))
       else view s (BBLOCK (of_nat c) (sb s)))"
    and f: "\<And>i d j. i div 8 < length d \<Longrightarrow> bit_used (f i d) j \<longleftrightarrow> (if j = i then u else bit_used d j)"
  shows "free_blocks s' = (if u then free_blocks s - {b} else insert b (free_blocks s))"
proof -
  have lt: "c < 2 ^ 32" if "c < unat (sb_size (sb s))" for c using that unat32_lt [of "sb_size (sb s)"] by linarith
  have room: "(b mod BPB) div 8 < BSIZE" by (simp add: BPB_def BSIZE_def less_mult_imp_div_less)
  have small: "c div BPB < 2 ^ 32" if "c < unat (sb_size (sb s))" for c
    using le_less_trans [OF div_le_dividend lt [OF that]] .
  have same: "c = b" if c: "c < unat (sb_size (sb s))" "BBLOCK (of_nat c) (sb s) = BBLOCK (of_nat b) (sb s)"
      "c mod BPB = b mod BPB" for c
  proof -
    have "(of_nat (c div BPB) :: u32) = of_nat (b div BPB)"
      using c(2) BBLOCK_of_nat [OF lt [OF c(1)]] BBLOCK_of_nat [OF lt [OF assms(3)]] by simp
    then have "unat (of_nat (c div BPB) :: u32) = unat (of_nat (b div BPB) :: u32)" by (simp only:)
    then have "c div BPB = b div BPB"
      using small [OF c(1)] small [OF assms(3)] by (simp add: unat_of_nat take_bit_eq_mod)
    then show ?thesis using c(3) by (metis div_mult_mod_eq)
  qed
  have "c \<in> free_blocks s' \<longleftrightarrow> (if c = b then \<not> u else c \<in> free_blocks s)" if c: "c < unat (sb_size (sb s))" for c
    using c assms(1) assms(4) [OF c] f [of "b mod BPB" "view s (BBLOCK (of_nat b) (sb s))" "c mod BPB"] assms(2) room
      same [OF c] by (auto simp: free_blocks_def)
  moreover have "c \<notin> free_blocks s'" "c \<notin> free_blocks s" "c \<noteq> b" if "\<not> c < unat (sb_size (sb s))" for c
    using that assms(1,3) by (auto simp: free_blocks_def)
  ultimately have "c \<in> free_blocks s' \<longleftrightarrow> (if c = b then \<not> u else c \<in> free_blocks s)" for c by metis
  then show ?thesis by (intro set_eqI) simp
qed

lemma finite_free_blocks [simp]: "finite (free_blocks s)"
  by (rule finite_subset [of _ "{..<unat (sb_size (sb s))}"]) (auto simp: free_blocks_def)

lemma bitmap_wf_shrink:
  fixes s s' :: "'a icache_st_scheme"
  assumes "bitmap_wf s" "lframe s s'" "free_blocks s' \<subseteq> free_blocks s"
  shows "bitmap_wf s'"
  using assms(1,3) lframe_icache [OF assms(2)] unfolding bitmap_wf_def by auto

text \<open>
  C6: inside a transaction with two free log slots, \<open>balloc\<close> panics exactly when the bitmap has no free
  block. Otherwise it returns the lowest free block, marks only that block as used, and the block
  returned reads as zeroes; every block but this one and its bitmap block keeps its contents.
\<close>
theorem balloc_lowest_free:
  fixes s :: "'a icache_st_scheme"
  assumes inv: "tx_inv {} s" and t: "lh_n s < log_size s - 2" "1 \<le> outstanding s" and wf: "bitmap_wf s"
  shows "if free_blocks s = {} then balloc ROOTDEV s = Inl (Panic ''balloc: out of blocks'')
    else (let b = Min (free_blocks s) in \<exists>s'. balloc ROOTDEV s = Inr (of_nat b, s') \<and> tx_inv {} s' \<and> bitmap_wf s' \<and>
      free_blocks s' = free_blocks s - {b} \<and> view s' (of_nat b) = replicate BSIZE 0 \<and>
      (\<forall>c. c \<noteq> of_nat b \<and> c \<noteq> BBLOCK (of_nat b) (sb s) \<longrightarrow> view s' c = view s c))"
proof (cases "free_blocks s = {}")
  case True
  have "unat (sb_size (sb s)) + BPB \<le> 0 + (unat (sb_size (sb s)) div BPB + 2) * BPB"
    using mod_less_divisor [of BPB "unat (sb_size (sb s))"] div_mult_mod_eq [of "unat (sb_size (sb s))" BPB]
    by (simp add: BPB_def BSIZE_def)
  then show ?thesis
    using balloc_from_full [OF inv wf, of 0 "unat (sb_size (sb s)) div BPB + 2"] True
    by (simp add: balloc_def BPB_def BSIZE_def)
next
  case False
  let ?b = "Min (free_blocks s)" and ?N = "unat (sb_size (sb s))"
  let ?B = "BBLOCK (of_nat ?b) (sb s)"
  have b: "?b \<in> free_blocks s" "\<forall>c \<in> free_blocks s. 0 \<le> c \<longrightarrow> ?b \<le> c" using False by simp_all
  then have bN: "?b < ?N" by (simp add: free_blocks_def)
  have "?b < 0 + (?N div BPB + 2) * BPB"
    using bN mod_less_divisor [of BPB ?N] div_mult_mod_eq [of ?N BPB] by (simp add: BPB_def BSIZE_def)
  then obtain s' where s': "balloc ROOTDEV s = Inr (of_nat ?b, s')" "tx_inv {} s'" "lframe s s'"
    "view s' = (view s)(?B := set_used (?b mod BPB) (view s ?B), of_nat ?b := replicate BSIZE 0)"
    using balloc_from_finds [OF inv t wf _ _ b(1,2)] unfolding balloc_def by (metis le0 mod_0)
  note w = free_block_word(7) [OF wf b(1)]
  have "free_blocks s' = (if True then free_blocks s - {?b} else insert ?b (free_blocks s))"
  proof (rule free_blocks_set [where f = set_used])
    show "sb s' = sb s" using lframe_icache [OF s'(3)] by simp
    show "length (view s c) = BSIZE" for c using tx.t_len [OF inv, of c] by simp
    show "view s' (BBLOCK (of_nat c) (sb s)) = (if BBLOCK (of_nat c) (sb s) = ?B then set_used (?b mod BPB) (view s ?B)
       else view s (BBLOCK (of_nat c) (sb s)))" if "c < ?N" for c using w [of c] that by (auto simp: s'(4))
  qed (use bN bit_used_set in auto)
  then have fb: "free_blocks s' = free_blocks s - {?b}" by simp
  moreover have "bitmap_wf s'" using bitmap_wf_shrink [OF wf s'(3)] fb by auto
  ultimately show ?thesis using False s'(1,2,4) by (auto simp: Let_def)
qed

text \<open>
  C28: \<open>bfree\<close> of a block inside the file system panics exactly when the bitmap already has the block
  free; otherwise the block joins the free blocks and only its bitmap block changes.
\<close>
theorem bfree_frees:
  fixes s :: "'a icache_st_scheme"
  assumes inv: "tx_inv {} s" and t: "lh_n s < log_size s - 1" "1 \<le> outstanding s" and wf: "bitmap_wf s"
    and sb: "decode_superblock (view s 1) = sb s" "1 < disksize s" and b: "b < sb_size (sb s)"
  shows "if unat b \<in> free_blocks s then bfree ROOTDEV b s = Inl (Panic ''freeing free block'')
    else \<exists>s'. bfree ROOTDEV b s = Inr s' \<and> tx_inv {} s' \<and> free_blocks s' = insert (unat b) (free_blocks s) \<and>
      (\<forall>c. c \<noteq> BBLOCK b (sb s) \<longrightarrow> view s' c = view s c)"
proof -
  let ?B = "BBLOCK b (sb s)" and ?bi = "unat b mod BPB"
  have bN: "unat b < unat (sb_size (sb s))" using b by (simp add: word_less_nat_alt)
  have ob: "(of_nat (unat b) :: u32) = b" by simp
  have B: "?B < disksize s" "?B \<notin> log_region (log_start s) (log_size s)" using wf bN ob unfolding bitmap_wf_def by metis+
  obtain i0 s0 s1 where r0: "bread 1 1 s = Inr (i0, s0)" "bdata (bufs s0 i0) = view s 1" "brelse i0 s0 = Inr s1"
    "tx_inv {} s1" "lframe s s1" "tx_obs_of s1 = tx_obs_of s"
    using tx.read_only [OF inv, of 1] sb(2) by auto
  have rs: "readsb ROOTDEV s = Inr (sb s, s1)" using r0(1-3) sb(1) by (simp add: readsb_def ROOTDEV_def Let_def)
  have self: "s1\<lparr>sb := sb s\<rparr> = s1" using lframe_icache [OF r0(5)] by (simp add: icache_st.equality)
  have e: "bfree ROOTDEV b s = bind_r (bread 1 ?B s1) (\<lambda>(bp, s).
     if \<not> bit_used (bdata (bufs s bp)) ?bi then Inl (Panic ''freeing free block'')
     else bind_r (log_write bp (set_data bp (clear_used ?bi (bdata (bufs s bp))) s)) (brelse bp))"
    unfolding bfree_def rs Let_def bind_r_Inr prod.case self by (simp add: ROOTDEV_def lframe_icache [OF r0(5)])
  note o1 = arg_cong [OF r0(6), of t_view] arg_cong [OF r0(6), of t_slots] and f1 = lframe_icache [OF r0(5)]
  obtain i s2 where s2: "bread 1 ?B s1 = Inr (i, s2)" "tx_inv {i} s2" "blockno (bufs s2 i) = ?B"
    "tx_obs_of s2 = tx_obs_of s1" "lframe s1 s2"
    using tx.t_rd [OF r0(4), of ?B] B(1) f1 by auto
  note o2 = arg_cong [OF s2(4), of t_view] arg_cong [OF s2(4), of t_slots] and f2 = lframe_icache [OF s2(5)]
  have d: "bdata (bufs s2 i) = view s ?B" using tx.t_held [OF s2(2), of i] s2(3) o1(1) o2(1) by simp
  have fr: "unat b \<in> free_blocks s \<longleftrightarrow> \<not> bit_used (view s ?B) ?bi" using bN by (simp add: free_blocks_def)
  have len: "length (clear_used ?bi (view s ?B)) = BSIZE" using tx.t_len [OF inv, of ?B] by simp
  have l2: "lh_n s2 < log_size s2 - 1" using o1(2) o2(2) t(1) by simp
  obtain s' where s': "bind_r (log_write i (set_data i (clear_used ?bi (view s ?B)) s2)) (brelse i) = Inr s'"
    "tx_inv {} s'" "lframe s2 s'" "view s' = (view s2)(?B := clear_used ?bi (view s ?B))"
    using set_log_release_view [OF s2(2) l2, of "clear_used ?bi (view s ?B)"] s2(3) len B(2) t(2) f1 f2 by auto
  have v: "view s' = (view s)(?B := clear_used ?bi (view s ?B))" using s'(4) o1(1) o2(1) by simp
  have "free_blocks s' = (if False then free_blocks s - {unat b} else insert (unat b) (free_blocks s))"
  proof (rule free_blocks_set [where f = clear_used])
    show "sb s' = sb s" using lframe_icache [OF s'(3)] f1 f2 by simp
    show "length (view s c) = BSIZE" for c using tx.t_len [OF inv, of c] by simp
  qed (use bN bit_used_clear v in auto)
  then show ?thesis using e s2(1) d fr s'(1,2) v by auto
qed

section \<open>A small file system\<close>

text \<open>
  A disk with the layout \<open>mkfs\<close> writes: 1000 blocks, the log in blocks 2 to 31, the inodes from block 32
  on, the bitmap in block 58. Blocks 0 to 103 are in use, and the
  root inode in slot 0 of the inode cache.
\<close>

definition sb_demo :: superblock where
  "sb_demo = \<lparr>sb_size = 1000, sb_nblocks = 941, sb_ninodes = 200, sb_nlog = 30, sb_logstart = 2,
     sb_inodestart = 32, sb_bmapstart = 58\<rparr>"

definition fs_img :: "u32 \<Rightarrow> u8 list" where
  "fs_img b = (if b = 1 then concat (map le32 [1000, 941, 200, 30, 2, 32, 58]) @ replicate (BSIZE - 28) 0
     else if b = 58 then replicate 13 0xFF @ replicate (BSIZE - 13) 0 else replicate BSIZE 0)"

definition root_inode :: inode where
  "root_inode = \<lparr>idev = 1, inum = 1, iref = 1, ilk = \<lparr>sl_locked = 1, sl_name = ''inode'', sl_pid = 1\<rparr>,
     ivalid = True, itype = T_DIR, imajor = 0, iminor = 0, inlink = 1, isize = 512, iaddrs = 60 # replicate 12 0\<rparr>"

definition fs_demo :: "'a \<Rightarrow> 'a icache_st_scheme" where
  "fs_demo x = log_demo fs_img \<lparr>sb = sb_demo, inodes = (\<lambda>_. root_inode), devsw = (\<lambda>_. None), \<dots> = x\<rparr>"

lemma fs_img_facts:
  "length (fs_img b) = BSIZE" "hdr_n (fs_img 2) = 0" "decode_superblock (fs_img 1) = sb_demo"
proof -
  show "length (fs_img b) = BSIZE" by (simp add: fs_img_def BSIZE_def)
  have "fs_img 2 = zero_img 2" by (simp add: fs_img_def zero_img_def)
  then show "hdr_n (fs_img 2) = 0" by simp
  have "u32_at (fs_img 1) (4 * k) = [1000, 941, 200, 30, 2, 32, 58] ! k" if "k < 7" for k
    using get_concat_le32 [of k "[1000, 941, 200, 30, 2, 32, 58]"] that by (simp add: fs_img_def u32_at_def)
  from this [of 0] this [of 1] this [of 2] this [of 3] this [of 4] this [of 5] this [of 6]
  show "decode_superblock (fs_img 1) = sb_demo" by (simp add: decode_superblock_def sb_demo_def)
qed

lemma fs_demo_sel [simp]:
  "sb (fs_demo x) = sb_demo" "inodes (fs_demo x) k = root_inode" "disksize (fs_demo x) = 1000"
  "log_start (fs_demo x) = 2" "log_size (fs_demo x) = 30" "lh_n (fs_demo x) = 0" "outstanding (fs_demo x) = 1"
  by (simp_all add: fs_demo_def log_demo_def log_demo0_def binit_def)

lemma fs_demo_tx: "tx_inv {} (fs_demo x)" "view (fs_demo x) = fs_img"
proof -
  show inv: "tx_inv {} (fs_demo x)" unfolding fs_demo_def using fs_img_facts by (intro log_demo_boot(2)) simp_all
  have "logged (fs_demo x) = []" "memdisk (fs_demo x) = fs_img" by (simp_all add: logged_def) (simp add: fs_demo_def)
  then show "view (fs_demo x) = fs_img" using tx.t_clean [OF inv] by auto
qed

lemma sb_demo_bblock: "b < 1000 \<Longrightarrow> BBLOCK (of_nat b) sb_demo = 58"
  using BBLOCK_of_nat [of b sb_demo] by (simp add: sb_demo_def BPB_def BSIZE_def)

lemma fs_demo_free: "free_blocks (fs_demo x) = {104..<1000}"
proof -
  have key: "bit_used (fs_img 58) b \<longleftrightarrow> b < 104" if b: "b < 1000" for b
  proof -
    have "fs_img 58 ! (b div 8) = (if b < 104 then 0xFF else 0)"
      using b by (auto simp: fs_img_def nth_append BSIZE_def)
    moreover have "bit (mask 8 :: u8) (b mod 8)" by (simp add: bit_mask_iff)
    then have "bit (0xFF :: u8) (b mod 8)" by (simp add: mask_eq_exp_minus_1)
    ultimately show ?thesis by (auto simp: bit_used_iff)
  qed
  have "unat (sb_size sb_demo) = 1000" "b < 1000 \<Longrightarrow> b mod BPB = b" for b
    by (simp_all add: sb_demo_def BPB_def BSIZE_def)
  then show ?thesis
    unfolding free_blocks_def fs_demo_tx(2) fs_demo_sel by (auto simp: sb_demo_bblock key)
qed

lemma fs_demo_wf: "bitmap_wf (fs_demo x)"
proof -
  have "BBLOCK (of_nat c) sb_demo = 58" if "c < unat (sb_size sb_demo)" for c
    using that by (intro sb_demo_bblock) (simp add: sb_demo_def)
  moreover have "unat c \<notin> {104..<1000}" if "c \<in> log_region 2 30" for c
  proof -
    obtain i where "i < 30" "c = 2 + of_nat i" using \<open>c \<in> log_region 2 30\<close> by (auto simp: log_region_2)
    then have "unat c = 2 + i" by (simp add: unat_word_ariths unat_of_nat)
    then show ?thesis using \<open>i < 30\<close> by simp
  qed
  moreover have "sb_size sb_demo \<le> 1000" "(58 :: u32) \<notin> log_region 2 30"
    by (simp_all add: sb_demo_def not_in_log_region_2)
  ultimately show ?thesis by (simp add: bitmap_wf_def fs_demo_free)
qed

theorem iupdate_round_trip_witness:
  "\<exists>s'. iupdate 0 (fs_demo ()) = Inr s' \<and> decode_dinode (drop 64 (view s' 32)) root_inode = root_inode"
proof -
  let ?s = "fs_demo ()"
  have ip: "inum root_inode = 1" "idev root_inode = ROOTDEV" "length (iaddrs root_inode) = NDIRECT + 1"
    by (simp_all add: root_inode_def ROOTDEV_def NDIRECT_def)
  have b: "IBLOCK 1 sb_demo = 32" "dinode_off 1 = 64"
    by (simp_all add: IBLOCK_def dinode_off_def sb_demo_def IPB_def BSIZE_def DINODE_SIZE_def)
  have h: "IBLOCK (inum (inodes ?s 0)) (sb ?s) < disksize ?s" "IBLOCK (inum (inodes ?s 0)) (sb ?s) \<notin> log_region (log_start ?s) (log_size ?s)"
    "lh_n ?s < log_size ?s - 1" "1 \<le> outstanding ?s" "idev (inodes ?s 0) = ROOTDEV" "length (iaddrs (inodes ?s 0)) = NDIRECT + 1"
    using ip b by (simp_all add: not_in_log_region_2)
  show ?thesis
    using iupdate_round_trip [OF fs_demo_tx(1) h(3-6,1,2)] unfolding Let_def fs_demo_sel ip b by auto
qed

theorem balloc_lowest_free_witness:
  "\<exists>s'. balloc ROOTDEV (fs_demo ()) = Inr (104, s') \<and> free_blocks s' = {105..<1000} \<and> view s' 104 = replicate BSIZE 0"
proof -
  have "Min {104..<1000 :: nat} = 104" by (rule Min_eqI) auto
  moreover have "{104..<1000 :: nat} - {104} = {105..<1000}" by auto
  ultimately show ?thesis
    using balloc_lowest_free [OF fs_demo_tx(1) [of "()"] _ _ fs_demo_wf] by (auto simp: fs_demo_free Let_def)
qed

theorem bfree_frees_witness:
  "(\<exists>s'. bfree ROOTDEV 100 (fs_demo ()) = Inr s' \<and> free_blocks s' = insert 100 {104..<1000}) \<and>
   bfree ROOTDEV 150 (fs_demo ()) = Inl (Panic ''freeing free block'')"
proof -
  let ?s = "fs_demo ()"
  have h: "decode_superblock (view ?s 1) = sb ?s" "1 < disksize ?s" "lh_n ?s < log_size ?s - 1" "1 \<le> outstanding ?s"
    using fs_img_facts(3) by (simp_all add: fs_demo_tx(2))
  have "sb_size (sb ?s) = 1000" by (simp add: sb_demo_def)
  then show ?thesis
    using bfree_frees [OF fs_demo_tx(1) h(3,4) fs_demo_wf h(1,2), of 100]
      bfree_frees [OF fs_demo_tx(1) h(3,4) fs_demo_wf h(1,2), of 150] by (auto simp: fs_demo_free)
qed

end
