(* ===== verification/Console.thy ===== *)
theory Console
  imports Inode
begin

text \<open>
  \<open>xv6/console.c\<close> with the frame-buffer text output of \<open>xv6/graphic.c\<close> and \<open>xv6/font.c\<close> and the serial
  port output of \<open>xv6/uart.c\<close>.

  The frame buffer is memory; what goes out of the serial port is the list \<open>uart_out\<close>. The glyph
  table \<open>font_bin\<close> is a field of the state, 95 glyphs of 30 rows. \<open>consoleintr\<close> gets the values its
  \<open>getc\<close> argument returns before the first negative one. \<open>consoleread\<close> returns the bytes it stores
  through \<open>dst\<close>; when the line buffer is empty it sleeps, and \<open>consoleread_loop\<close> says how far it came.
\<close>

definition BACKSPACE :: int where "BACKSPACE = 256"
definition INPUT_BUF :: nat where "INPUT_BUF = 128"
definition CONSOLE_HORIZONTAL_MAX :: int where "CONSOLE_HORIZONTAL_MAX = 53"
definition CONSOLE_VERTICAL_MAX :: int where "CONSOLE_VERTICAL_MAX = 20"
definition FONT_WIDTH :: int where "FONT_WIDTH = 15"
definition FONT_HEIGHT :: int where "FONT_HEIGHT = 30"
definition CONSOLE :: nat where "CONSOLE = 1"

text \<open>The control characters the line editor knows: newline, ^D, ^H, ^P, ^U, carriage return, delete.\<close>

definition ch_nl :: int where "ch_nl = 10"
definition C_D :: int where "C_D = 4"
definition C_H :: int where "C_H = 8"
definition C_P :: int where "C_P = 16"
definition C_U :: int where "C_U = 21"
definition ch_cr :: int where "ch_cr = 13"
definition ch_del :: int where "ch_del = 127"

record cons_st = icache_st +
  panicked :: bool
  cons_locking :: bool
  console_pos :: int
  inbuf :: "u8 list"
  in_r :: u32
  in_w :: u32
  in_e :: u32
  uart :: bool
  uart_out :: "u8 list"
  font_bin :: "u16 list list"

section \<open>Drawing\<close>

definition graphic_draw_pixel :: "int \<Rightarrow> int \<Rightarrow> u8 \<Rightarrow> u8 \<Rightarrow> u8 \<Rightarrow> 'a vm_st_scheme \<Rightarrow> 'a vm_st_scheme" where
  "graphic_draw_pixel x y blue green red s =
     (let a = vvram_addr (vgpu s) + 4 * (of_int y * pixels_per_line (vgpu s) + of_int x) in
      s\<lparr>mem := (mem s)(a := blue, a + 1 := green, a + 2 := red)\<rparr>)"

definition graphic_scroll_up :: "int \<Rightarrow> 'a vm_st_scheme \<Rightarrow> 'a vm_st_scheme" where
  "graphic_scroll_up height s =
     (let g = vgpu s; addr_diff = 4 * pixels_per_line g * of_int height;
          m = memmove (mem s) (vvram_addr g) (vvram_addr g + addr_diff) (vram_size g - addr_diff) in
      s\<lparr>mem := memset m (vvram_addr g + vram_size g - addr_diff) 0 addr_diff\<rparr>)"

fun font_row :: "int \<Rightarrow> int \<Rightarrow> u16 \<Rightarrow> nat list \<Rightarrow> 'a cons_st_scheme \<Rightarrow> 'a cons_st_scheme" where
  "font_row x y row [] s = s"
| "font_row x y row (j # js) s =
     (let c = (if row AND push_bit j 1 = push_bit j 1 then 0xFF else 0) in
      font_row x y row js (graphic_draw_pixel (x + (14 - int j)) y c c c s))"

fun font_rows :: "int \<Rightarrow> int \<Rightarrow> u16 list \<Rightarrow> nat list \<Rightarrow> 'a cons_st_scheme \<Rightarrow> 'a cons_st_scheme" where
  "font_rows x y glyph [] s = s"
| "font_rows x y glyph (i # is) s =
     font_rows x y glyph is (font_row x (y + int i) (glyph ! i) (rev [0..<15]) s)"

definition font_render :: "int \<Rightarrow> int \<Rightarrow> int \<Rightarrow> 'a cons_st_scheme \<Rightarrow> 'a cons_st_scheme res" where
  "font_render x y index s =
     (if index - 0x20 < 0 \<or> int (length (font_bin s)) \<le> index - 0x20 then Inl (Faults ''font_bin'')
      else Inr (font_rows x y (font_bin s ! nat (index - 0x20)) [0..<30] s))"

definition graphic_putc :: "int \<Rightarrow> 'a cons_st_scheme \<Rightarrow> 'a cons_st_scheme res" where
  "graphic_putc c s =
     (if c = ch_nl then
        let s = s\<lparr>console_pos := console_pos s +
              (CONSOLE_HORIZONTAL_MAX - console_pos s mod CONSOLE_HORIZONTAL_MAX)\<rparr> in
        Inr (if console_pos s \<ge> CONSOLE_VERTICAL_MAX * CONSOLE_HORIZONTAL_MAX
             then graphic_scroll_up 30 (s\<lparr>console_pos := console_pos s - CONSOLE_HORIZONTAL_MAX\<rparr>) else s)
      else if c = BACKSPACE then
        Inr (if console_pos s > 0 then s\<lparr>console_pos := console_pos s - 1\<rparr> else s)
      else
        let s = (if console_pos s \<ge> CONSOLE_VERTICAL_MAX * CONSOLE_HORIZONTAL_MAX
                 then graphic_scroll_up 30 (s\<lparr>console_pos := console_pos s - CONSOLE_HORIZONTAL_MAX\<rparr>) else s);
            x = (console_pos s mod CONSOLE_HORIZONTAL_MAX) * FONT_WIDTH + 2;
            y = (console_pos s div CONSOLE_HORIZONTAL_MAX) * FONT_HEIGHT in
        bind_r (font_render x y c s) (\<lambda>s. Inr (s\<lparr>console_pos := console_pos s + 1\<rparr>)))"

definition uartputc :: "int \<Rightarrow> 'a cons_st_scheme \<Rightarrow> 'a cons_st_scheme" where
  "uartputc c s = (if \<not> uart s then s else s\<lparr>uart_out := uart_out s @ [of_int c]\<rparr>)"

definition consputc :: "int \<Rightarrow> 'a cons_st_scheme \<Rightarrow> 'a cons_st_scheme res" where
  "consputc c s =
     (if panicked s then Inl Spins
      else
        let s = (if c = BACKSPACE then uartputc 8 (uartputc 32 (uartputc 8 s)) else uartputc c s) in
        graphic_putc c s)"

fun consputs :: "int list \<Rightarrow> 'a cons_st_scheme \<Rightarrow> 'a cons_st_scheme res" where
  "consputs [] s = Inr s"
| "consputs (c # cs) s = bind_r (consputc c s) (consputs cs)"

section \<open>Formatted output\<close>

text \<open>The digits \<open>printint\<close> produces, least significant first, as it stores them in \<open>buf\<close>.\<close>

definition digit_char :: "nat \<Rightarrow> int" where
  "digit_char d = (if d < 10 then 48 + int d else 87 + int d)"

function digits_of :: "nat \<Rightarrow> nat \<Rightarrow> int list" where
  "digits_of base x =
     digit_char (x mod base) # (if x div base \<noteq> 0 \<and> 1 < base then digits_of base (x div base) else [])"
  by pat_completeness auto
termination
proof (relation "measure (\<lambda>(b, x). x)")
  fix base x :: nat
  assume *: "x div base \<noteq> 0 \<and> 1 < base"
  then have "0 < x" by (metis div_0 gr0I)
  then show "((base, x div base), base, x) \<in> measure (\<lambda>(b, x). x)" using * by simp
qed simp

declare digits_of.simps [simp del]

definition printint_chars :: "u32 \<Rightarrow> nat \<Rightarrow> bool \<Rightarrow> int list" where
  "printint_chars xx base sign =
     (let neg = (sign \<and> sint xx < 0);
          x = (if neg then - xx else xx) in
      rev (digits_of base (unat x) @ (if neg then [45] else [])))"

definition printint :: "u32 \<Rightarrow> nat \<Rightarrow> bool \<Rightarrow> 'a cons_st_scheme \<Rightarrow> 'a cons_st_scheme res" where
  "printint xx base sign s = consputs (printint_chars xx base sign) s"

text \<open>An argument of \<open>cprintf\<close>: a word, or a string pointer (\<open>None\<close> is the null pointer).\<close>

datatype parg = Word u32 | Str "u8 list option"

fun arg_word :: "parg \<Rightarrow> u32 res" where
  "arg_word (Word w) = Inr w"
| "arg_word (Str x) = Inl (Faults ''cprintf argument'')"

fun arg_str :: "parg \<Rightarrow> u8 list res" where
  "arg_str (Str (Some x)) = Inr x"
| "arg_str (Str None) = Inr [40, 110, 117, 108, 108, 41]"
| "arg_str (Word w) = Inl (Faults ''cprintf argument'')"

text \<open>The characters \<open>cprintf\<close> emits for a format and its arguments.\<close>

fun cprintf_chars :: "u8 list \<Rightarrow> parg list \<Rightarrow> int list res" where
  "cprintf_chars [] args = Inr []"
| "cprintf_chars [c] args = (if c \<noteq> 37 then Inr [uint c] else Inr [])"
| "cprintf_chars (c # d # fmt) args =
     (if c \<noteq> 37 then bind_r (cprintf_chars (d # fmt) args) (\<lambda>cs. Inr (uint c # cs))
      else if d = 100 then
        (case args of [] \<Rightarrow> Inl (Faults ''cprintf argument'') | a # args \<Rightarrow>
         bind_r (arg_word a) (\<lambda>w. bind_r (cprintf_chars fmt args) (\<lambda>cs. Inr (printint_chars w 10 True @ cs))))
      else if d = 120 \<or> d = 112 then
        (case args of [] \<Rightarrow> Inl (Faults ''cprintf argument'') | a # args \<Rightarrow>
         bind_r (arg_word a) (\<lambda>w. bind_r (cprintf_chars fmt args) (\<lambda>cs. Inr (printint_chars w 16 False @ cs))))
      else if d = 115 then
        (case args of [] \<Rightarrow> Inl (Faults ''cprintf argument'') | a # args \<Rightarrow>
         bind_r (arg_str a) (\<lambda>x. bind_r (cprintf_chars fmt args) (\<lambda>cs. Inr (map uint x @ cs))))
      else if d = 37 then bind_r (cprintf_chars fmt args) (\<lambda>cs. Inr (37 # cs))
      else bind_r (cprintf_chars fmt args) (\<lambda>cs. Inr (37 # uint d # cs)))"

definition cprintf :: "u8 list option \<Rightarrow> parg list \<Rightarrow> 'a cons_st_scheme \<Rightarrow> 'a cons_st_scheme res" where
  "cprintf fmt args s =
     (let locking = cons_locking s in
      bind_r (if locking then acq LK_cons s else Inr s) (\<lambda>s.
      case fmt of None \<Rightarrow> Inl (Panic ''null fmt'')
      | Some f \<Rightarrow>
          bind_r (cprintf_chars f args) (\<lambda>cs.
          bind_r (consputs cs s) (\<lambda>s.
          if locking then rel LK_cons s else Inr s))))"

section \<open>Input\<close>

definition inbuf_at :: "u32 \<Rightarrow> 'a cons_st_scheme \<Rightarrow> u8" where
  "inbuf_at i s = inbuf s ! (unat i mod INPUT_BUF)"

text \<open>^U: the loop runs at most \<open>e - w\<close> times.\<close>

fun kill_line :: "nat \<Rightarrow> 'a cons_st_scheme \<Rightarrow> 'a cons_st_scheme res" where
  "kill_line 0 s = Inr s"
| "kill_line (Suc n) s =
     (if in_e s \<noteq> in_w s \<and> inbuf_at (in_e s - 1) s \<noteq> of_int ch_nl
      then bind_r (consputc BACKSPACE (s\<lparr>in_e := in_e s - 1\<rparr>)) (kill_line n)
      else Inr s)"

definition consoleintr_char :: "int \<Rightarrow> 'a cons_st_scheme \<Rightarrow> 'a cons_st_scheme res" where
  "consoleintr_char c s =
     (if c = C_P then Inr s
      else if c = C_U then kill_line (unat (in_e s - in_w s)) s
      else if c = C_H \<or> c = ch_del then
        (if in_e s \<noteq> in_w s then consputc BACKSPACE (s\<lparr>in_e := in_e s - 1\<rparr>) else Inr s)
      else if c \<noteq> 0 \<and> unat (in_e s - in_r s) < INPUT_BUF then
        let c = (if c = ch_cr then ch_nl else c);
            s = s\<lparr>inbuf := (inbuf s)[unat (in_e s) mod INPUT_BUF := of_int c], in_e := in_e s + 1\<rparr> in
        bind_r (consputc c s) (\<lambda>s.
        if c = ch_nl \<or> c = C_D \<or> in_e s = in_r s + of_nat INPUT_BUF
        then wakeup Chan_input (s\<lparr>in_w := in_e s\<rparr>) else Inr s)
      else Inr s)"

fun consoleintr_loop :: "int list \<Rightarrow> 'a cons_st_scheme \<Rightarrow> 'a cons_st_scheme res" where
  "consoleintr_loop [] s = Inr s"
| "consoleintr_loop (c # cs) s = bind_r (consoleintr_char c s) (consoleintr_loop cs)"

text \<open>
  The process listing that ^P asks for (\<open>procdump\<close>) is printed on the console after the lock is
  released; what it prints is not modelled.
\<close>

definition consoleintr :: "int list \<Rightarrow> 'a cons_st_scheme \<Rightarrow> 'a cons_st_scheme res" where
  "consoleintr cs s =
     bind_r (acq LK_cons s) (\<lambda>s.
     bind_r (consoleintr_loop cs s) (rel LK_cons))"

text \<open>How the reading loop ends: with its bytes, killed, or asleep with the bytes read so far.\<close>

datatype read_end = Read_done | Read_killed | Read_sleeps

fun consoleread_loop :: "nat \<Rightarrow> nat \<Rightarrow> u8 list \<Rightarrow> 'a cons_st_scheme \<Rightarrow> (read_end \<times> u8 list \<times> 'a cons_st_scheme) res" where
  "consoleread_loop target 0 acc s = Inr (Read_done, acc, s)"
| "consoleread_loop target (Suc n) acc s =
     (if in_r s = in_w s then
        (case myproc s of None \<Rightarrow> Inl (Faults ''consoleread'')
         | Some p \<Rightarrow> Inr (if killed (ptable s p) then Read_killed else Read_sleeps, acc, s))
      else
        let c = inbuf_at (in_r s) s; s = s\<lparr>in_r := in_r s + 1\<rparr> in
        if c = of_int C_D then
          Inr (Read_done, acc, if Suc n < target then s\<lparr>in_r := in_r s - 1\<rparr> else s)
        else if c = of_int ch_nl then Inr (Read_done, acc @ [c], s)
        else consoleread_loop target n (acc @ [c]) s)"

definition consoleread :: "nat \<Rightarrow> int \<Rightarrow> 'a cons_st_scheme \<Rightarrow> (int \<times> u8 list \<times> 'a cons_st_scheme) res" where
  "consoleread ip n s =
     bind_r (iunlock (Some ip) s) (\<lambda>s.
     bind_r (acq LK_cons s) (\<lambda>s.
     bind_r (consoleread_loop (nat n) (nat n) [] s) (\<lambda>(e, bs, s).
     if e = Read_sleeps then Inl (Sleeps Chan_input)
     else
       bind_r (rel LK_cons s) (\<lambda>s.
       bind_r (ilock (Some ip) s) (\<lambda>s.
       Inr (if e = Read_killed then - 1 else int (length bs), bs, s))))))"

definition consolewrite :: "nat \<Rightarrow> u8 list \<Rightarrow> 'a cons_st_scheme \<Rightarrow> (int \<times> 'a cons_st_scheme) res" where
  "consolewrite ip bs s =
     bind_r (iunlock (Some ip) s) (\<lambda>s.
     bind_r (acq LK_cons s) (\<lambda>s.
     bind_r (consputs (map uint bs) s) (\<lambda>s.
     bind_r (rel LK_cons s) (\<lambda>s.
     bind_r (ilock (Some ip) s) (\<lambda>s.
     Inr (int (length bs), s))))))"

fun graphic_puts :: "int list \<Rightarrow> 'a cons_st_scheme \<Rightarrow> 'a cons_st_scheme res" where
  "graphic_puts [] s = Inr s"
| "graphic_puts (c # cs) s = bind_r (graphic_putc c s) (graphic_puts cs)"

definition consoleinit :: "'a cons_st_scheme \<Rightarrow> 'a cons_st_scheme res" where
  "consoleinit s =
     (let s = s\<lparr>panicked := False, devsw := (devsw s)(CONSOLE := Some Console_ops)\<rparr> in
      bind_r (graphic_puts (map (\<lambda>c. int (of_char c)) ''Starting XV6_UEFI...'' @ [ch_nl]) s) (\<lambda>s.
      Inr (s\<lparr>cons_locking := True\<rparr>)))"

section \<open>Numbers\<close>

text \<open>Reading back what \<open>printint\<close> prints.\<close>

definition char_digit :: "int \<Rightarrow> int" where
  "char_digit c = (if c \<le> 57 then c - 48 else c - 87)"

fun read_digits :: "int \<Rightarrow> int list \<Rightarrow> int" where
  "read_digits base [] = 0"
| "read_digits base (c # cs) = char_digit c + base * read_digits base cs"

definition read_int :: "int \<Rightarrow> int list \<Rightarrow> int" where
  "read_int base cs = (case cs of c # ds \<Rightarrow> if c = 45 then - read_digits base (rev ds) else read_digits base (rev cs)
     | [] \<Rightarrow> 0)"

lemma char_digit_char: "d < 16 \<Longrightarrow> char_digit (digit_char d) = int d"
  by (simp add: char_digit_def digit_char_def)

lemma read_digits_of: "1 < base \<Longrightarrow> base \<le> 16 \<Longrightarrow> read_digits (int base) (digits_of base x) = int x"
proof (induction base x rule: digits_of.induct)
  case (1 base x)
  have "x mod base < base" using "1.prems" by (intro mod_less_divisor) simp
  then have "x mod base < 16" using "1.prems" by linarith
  then have "char_digit (digit_char (x mod base)) = int (x mod base)" by (rule char_digit_char)
  moreover have "int (x mod base) + int base * int (x div base) = int x"
    by (metis add.commute of_nat_add of_nat_mult mult_div_mod_eq)
  moreover have "read_digits (int base) (digits_of base (x div base)) = int (x div base)" if "x div base \<noteq> 0"
    using 1 that by blast
  ultimately show ?case using "1.prems"(1) by (subst digits_of.simps) auto
qed

lemma digits_of_range: "1 < base \<Longrightarrow> base \<le> 16 \<Longrightarrow> \<forall>c\<in>set (digits_of base x). 48 \<le> c \<and> c \<le> 102"
proof (induction base x rule: digits_of.induct)
  case (1 base x)
  have "x mod base < base" using "1.prems" by (intro mod_less_divisor) simp
  then have "x mod base < 16" using "1.prems" by linarith
  then show ?case using 1 by (subst digits_of.simps) (auto simp: digit_char_def)
qed

lemma digits_of_nonempty: "digits_of base x \<noteq> []"
  by (subst digits_of.simps) simp

lemma printint_read:
  assumes "base = 10 \<or> base = 16"
  shows "read_int (int base) (printint_chars w base sign) = (if sign then sint w else uint w)"
proof -
  have b: "1 < base" "base \<le> 16" using assms by auto
  let ?d = "\<lambda>x. digits_of base (unat x)"
  have hd: "hd (rev (?d x)) \<noteq> 45" for x
  proof -
    have "hd (rev (?d x)) \<in> set (?d x)" using digits_of_nonempty [of base "unat x"] by (metis list.set_sel(1) rev_is_Nil_conv set_rev)
    then show ?thesis using digits_of_range [OF b, of "unat x"] by fastforce
  qed
  have pos: "read_int (int base) (rev (?d x)) = uint x" for x
    using hd [of x] digits_of_nonempty [of base "unat x"] read_digits_of [OF b, of "unat x"]
    by (cases "rev (?d x)") (auto simp: read_int_def rev_swap)
  have neg: "read_int (int base) (45 # rev (?d x)) = - uint x" for x
    using read_digits_of [OF b, of "unat x"] by (simp add: read_int_def)
  have "uint w = sint w" if "\<not> sint w < 0" using that uint_lt2p [of w] by (simp add: sint32 split: if_splits)
  then show ?thesis using pos [of w] neg [of "- w"] uint_neg32 [of w] by (auto simp: printint_chars_def Let_def)
qed

section \<open>The line editor\<close>

text \<open>
  Abstractly the input buffer is a pair of lists: the bytes of committed lines, which \<open>consoleread\<close>
  may take, and the line being edited. \<open>cons_abs\<close> relates the ring buffer with its three free-running
  indices to them.
\<close>

definition cons_abs :: "'a cons_st_scheme \<Rightarrow> u8 list \<Rightarrow> u8 list \<Rightarrow> bool" where
  "cons_abs s cm ed \<longleftrightarrow> length (inbuf s) = INPUT_BUF \<and> in_w s = in_r s + of_nat (length cm) \<and>
     in_e s = in_w s + of_nat (length ed) \<and> length cm + length ed \<le> INPUT_BUF \<and>
     (\<forall>k<length cm + length ed. inbuf s ! ((unat (in_r s) + k) mod INPUT_BUF) = (cm @ ed) ! k) \<and>
     10 \<notin> set ed"

definition cons_ready :: "'a cons_st_scheme \<Rightarrow> bool" where
  "cons_ready s \<longleftrightarrow> \<not> panicked s \<and> length (font_bin s) = 95 \<and> LK_ptable \<notin> set (held s)"

fun edit_char :: "int \<Rightarrow> u8 list \<times> u8 list \<Rightarrow> u8 list \<times> u8 list" where
  "edit_char c (cm, ed) =
     (if c = C_P then (cm, ed)
      else if c = C_U then (cm, [])
      else if c = C_H \<or> c = ch_del then (cm, butlast ed)
      else if c \<noteq> 0 \<and> length cm + length ed < INPUT_BUF then
        let b = (if c = ch_cr then 10 else of_int c); l = ed @ [b] in
        if b = 10 \<or> length cm + length l = INPUT_BUF then (cm @ l, []) else (cm, l)
      else (cm, ed))"

text \<open>The keys whose echo the font can draw, and the editing keys.\<close>

definition typeable :: "int \<Rightarrow> bool" where
  "typeable c \<longleftrightarrow> 0x20 \<le> c \<and> c \<le> 0x7F \<or> c \<in> {0, ch_nl, ch_cr, C_P, C_U, C_H}"

definition cframe :: "'a cons_st_scheme \<Rightarrow> 'a cons_st_scheme \<Rightarrow> bool" where
  "cframe s s' \<longleftrightarrow> (\<exists>m p u. s' = s\<lparr>mem := m, console_pos := p, uart_out := u\<rparr>)"

lemma font_row_mem: "\<exists>m. font_row x y row js s = s\<lparr>mem := m\<rparr>"
proof (induction js arbitrary: s)
  case Nil
  have "s = s\<lparr>mem := mem s\<rparr>" by simp
  then show ?case unfolding font_row.simps by blast
next
  case (Cons j js)
  define c :: u8 where "c = (if row AND push_bit j 1 = push_bit j 1 then 0xFF else 0)"
  define m0 where "m0 = mem (graphic_draw_pixel (x + (14 - int j)) y c c c s)"
  have "graphic_draw_pixel (x + (14 - int j)) y c c c s = s\<lparr>mem := m0\<rparr>"
    by (simp add: graphic_draw_pixel_def Let_def m0_def)
  then have "font_row x y row (j # js) s = font_row x y row js (s\<lparr>mem := m0\<rparr>)" by (simp add: Let_def c_def)
  moreover obtain m where "font_row x y row js (s\<lparr>mem := m0\<rparr>) = s\<lparr>mem := m\<rparr>" using Cons.IH [of "s\<lparr>mem := m0\<rparr>"] by auto
  ultimately show ?case by metis
qed

lemma font_rows_mem: "\<exists>m. font_rows x y g is s = s\<lparr>mem := m\<rparr>"
proof (induction "is" arbitrary: s)
  case Nil
  have "s = s\<lparr>mem := mem s\<rparr>" by simp
  then show ?case unfolding font_rows.simps by blast
next
  case (Cons i "is")
  obtain m where "font_row x (y + int i) (g ! i) (rev [0..<15]) s = s\<lparr>mem := m\<rparr>"
    using font_row_mem by blast
  then show ?case using Cons.IH [of "s\<lparr>mem := m\<rparr>"] by auto
qed

lemma cframe_refl: "cframe s s"
proof -
  have "s = s\<lparr>mem := mem s, console_pos := console_pos s, uart_out := uart_out s\<rparr>" by simp
  then show ?thesis unfolding cframe_def by blast
qed

lemma cframe_trans: "cframe s s1 \<Longrightarrow> cframe s1 s2 \<Longrightarrow> cframe s s2"
  unfolding cframe_def by force

lemma cframe_scroll: "cframe s (graphic_scroll_up h (s\<lparr>console_pos := p\<rparr>))"
proof -
  let ?s = "graphic_scroll_up h (s\<lparr>console_pos := p\<rparr>)"
  have "?s = s\<lparr>mem := mem ?s, console_pos := p, uart_out := uart_out s\<rparr>"
    by (simp add: graphic_scroll_up_def Let_def)
  then show ?thesis unfolding cframe_def by blast
qed

lemma cframe_pos: "cframe s (s\<lparr>console_pos := p\<rparr>)"
proof -
  have "s\<lparr>console_pos := p\<rparr> = s\<lparr>mem := mem s, console_pos := p, uart_out := uart_out s\<rparr>" by simp
  then show ?thesis unfolding cframe_def by blast
qed

lemma font_render_ok:
  assumes "length (font_bin s) = 95" "0x20 \<le> c" "c \<le> 0x7E"
  shows "\<exists>s'. font_render x y c s = Inr s' \<and> cframe s s'"
proof -
  obtain m where m: "font_rows x y (font_bin s ! nat (c - 0x20)) [0..<30] s = s\<lparr>mem := m\<rparr>" using font_rows_mem by blast
  have "cframe s (s\<lparr>mem := m\<rparr>)"
  proof -
    have "s\<lparr>mem := m\<rparr> = s\<lparr>mem := m, console_pos := console_pos s, uart_out := uart_out s\<rparr>" by simp
    then show ?thesis unfolding cframe_def by blast
  qed
  then show ?thesis using assms m by (simp add: font_render_def)
qed

lemma cframe_fields:
  assumes "cframe s s'"
  shows "font_bin s' = font_bin s" "panicked s' = panicked s" "held s' = held s" "inbuf s' = inbuf s"
    "in_r s' = in_r s" "in_w s' = in_w s" "in_e s' = in_e s" "ptable s' = ptable s" "cur s' = cur s" "me s' = me s"
  using assms by (auto simp: cframe_def)

lemma cons_abs_frame: "cframe s s' \<Longrightarrow> cons_abs s' cm ed \<longleftrightarrow> cons_abs s cm ed"
  "cframe s s' \<Longrightarrow> cons_ready s' \<longleftrightarrow> cons_ready s"
  by (simp_all add: cons_abs_def cons_ready_def cframe_fields)

lemma graphic_putc_ok:
  assumes "length (font_bin s) = 95" "c = ch_nl \<or> c = BACKSPACE \<or> 0x20 \<le> c \<and> c \<le> 0x7E"
  shows "\<exists>s'. graphic_putc c s = Inr s' \<and> cframe s s'"
proof (cases "c = ch_nl \<or> c = BACKSPACE")
  case True
  then show ?thesis
    using cframe_pos [of s] cframe_scroll [of s 30] cframe_refl [of s]
    by (auto simp: graphic_putc_def Let_def ch_nl_def BACKSPACE_def)
next
  case False
  define s1 where "s1 = (if console_pos s \<ge> CONSOLE_VERTICAL_MAX * CONSOLE_HORIZONTAL_MAX
     then graphic_scroll_up 30 (s\<lparr>console_pos := console_pos s - CONSOLE_HORIZONTAL_MAX\<rparr>) else s)"
  have f1: "cframe s s1" using cframe_scroll cframe_refl by (auto simp: s1_def)
  obtain s2 where s2: "font_render ((console_pos s1 mod CONSOLE_HORIZONTAL_MAX) * FONT_WIDTH + 2)
      ((console_pos s1 div CONSOLE_HORIZONTAL_MAX) * FONT_HEIGHT) c s1 = Inr s2" "cframe s1 s2"
    using font_render_ok [of s1 c] cframe_fields(1) [OF f1] False assms by auto
  have "graphic_putc c s = Inr (s2\<lparr>console_pos := console_pos s2 + 1\<rparr>)"
    using False s2(1) by (simp add: graphic_putc_def Let_def s1_def)
  then show ?thesis using cframe_trans [OF cframe_trans [OF f1 s2(2)] cframe_pos] by blast
qed

lemma cframe_uart: "cframe s (uartputc c s)"
proof -
  let ?s = "uartputc c s"
  have "?s = s\<lparr>mem := mem s, console_pos := console_pos s, uart_out := uart_out ?s\<rparr>" by (simp add: uartputc_def)
  then show ?thesis unfolding cframe_def by blast
qed

lemma consputc_ok:
  assumes "cons_ready s" "c = ch_nl \<or> c = BACKSPACE \<or> 0x20 \<le> c \<and> c \<le> 0x7E"
  shows "\<exists>s'. consputc c s = Inr s' \<and> cframe s s'"
proof -
  define s1 where "s1 = (if c = BACKSPACE then uartputc 8 (uartputc 32 (uartputc 8 s)) else uartputc c s)"
  have "cframe s (uartputc 8 (uartputc 32 (uartputc 8 s)))"
    by (rule cframe_trans [OF cframe_trans [OF cframe_uart cframe_uart] cframe_uart])
  then have f: "cframe s s1" by (simp add: s1_def cframe_uart)
  obtain s2 where s2: "graphic_putc c s1 = Inr s2" "cframe s1 s2"
    using graphic_putc_ok [of s1 c] cframe_fields(1) [OF f] assms by (auto simp: cons_ready_def)
  then have "consputc c s = Inr s2" using assms(1) by (simp add: consputc_def Let_def s1_def cons_ready_def)
  then show ?thesis using cframe_trans [OF f s2(2)] by blast
qed

lemma ring_index:
  "unat (r + of_nat k :: u32) mod INPUT_BUF = (unat r + k) mod INPUT_BUF"
proof -
  have "unat (r + of_nat k) = (unat r + k) mod 2 ^ 32"
    by (simp add: unat_word_ariths unat_of_nat take_bit_eq_mod mod_add_right_eq)
  then show ?thesis by (simp add: INPUT_BUF_def mod_mod_cancel)
qed

lemma ring_distinct:
  assumes "k < n" "n < INPUT_BUF + k"
  shows "(r + k) mod INPUT_BUF \<noteq> (r + n) mod (INPUT_BUF :: nat)"
proof
  assume "(r + k) mod INPUT_BUF = (r + n) mod INPUT_BUF"
  then have "INPUT_BUF dvd (r + n) - (r + k)" using assms(1) by (metis mod_eq_dvd_iff_nat add_left_mono less_imp_le)
  then show False using assms by (auto dest: dvd_imp_le)
qed

lemma cons_abs_distance:
  assumes "cons_abs s cm ed"
  shows "unat (in_e s - in_r s) = length cm + length ed" "unat (in_e s - in_w s) = length ed"
    "in_e s = in_w s \<longleftrightarrow> ed = []" "in_r s = in_w s \<longleftrightarrow> cm = []"
proof -
  have l: "length cm \<le> 128" "length ed \<le> 128" "length cm + length ed \<le> 128" using assms by (auto simp: cons_abs_def INPUT_BUF_def)
  have o: "unat (of_nat n :: u32) = n" if "n \<le> 128" for n using that by (simp add: unat_of_nat take_bit_eq_mod)
  have e: "in_e s - in_r s = of_nat (length cm + length ed)" "in_e s - in_w s = of_nat (length ed)"
    "in_w s - in_r s = of_nat (length cm)" using assms by (simp_all add: cons_abs_def)
  show "unat (in_e s - in_r s) = length cm + length ed" "unat (in_e s - in_w s) = length ed"
    unfolding e by (rule o [OF l(3)], rule o [OF l(2)])
  have z: "(of_nat n :: u32) = 0 \<longleftrightarrow> n = 0" if "n \<le> 128" for n
    using o [OF that] unat_eq_zero [of "of_nat n :: u32"] by simp
  have "in_e s = in_w s \<longleftrightarrow> in_e s - in_w s = 0" "in_r s = in_w s \<longleftrightarrow> in_w s - in_r s = 0" by auto
  then show "in_e s = in_w s \<longleftrightarrow> ed = []" "in_r s = in_w s \<longleftrightarrow> cm = []"
    unfolding e z [OF l(1)] z [OF l(2)] by simp_all
qed

lemma cons_abs_drop_last:
  assumes "cons_abs s cm (ed @ [b])"
  shows "cons_abs (s\<lparr>in_e := in_e s - 1\<rparr>) cm ed"
proof -
  have "(cm @ ed @ [b]) ! k = (cm @ ed) ! k" if "k < length cm + length ed" for k
    using that by (auto simp: nth_append)
  then show ?thesis using assms by (simp add: cons_abs_def)
qed

lemma kill_line_ok:
  assumes "cons_ready s" "cons_abs s cm ed"
  shows "\<exists>s'. kill_line (length ed) s = Inr s' \<and> cons_abs s' cm [] \<and> cons_ready s' \<and> held s' = held s"
  using assms
proof (induction ed arbitrary: s rule: rev_induct)
  case Nil
  then show ?case by simp
next
  case (snoc b ed)
  let ?s = "s\<lparr>in_e := in_e s - 1\<rparr>"
  have ab: "cons_abs ?s cm ed" using cons_abs_drop_last [OF snoc.prems(2)] by simp
  have "b \<noteq> 10" using snoc.prems(2) by (simp add: cons_abs_def)
  have "in_e s - 1 = in_r s + of_nat (length cm + length ed)" using snoc.prems(2) by (simp add: cons_abs_def)
  then have "inbuf_at (in_e s - 1) s = b"
    using snoc.prems(2) ring_index [of "in_r s" "length cm + length ed"]
    by (simp add: inbuf_at_def cons_abs_def nth_append)
  then have c: "in_e s \<noteq> in_w s \<and> inbuf_at (in_e s - 1) s \<noteq> of_int ch_nl"
    using cons_abs_distance(3) [OF snoc.prems(2)] \<open>b \<noteq> 10\<close> by (simp add: ch_nl_def)
  have rd: "cons_ready ?s" using snoc.prems(1) by (simp add: cons_ready_def)
  obtain s1 where s1: "consputc BACKSPACE ?s = Inr s1" "cframe ?s s1" using consputc_ok [OF rd] by blast
  then have "cons_abs s1 cm ed" "cons_ready s1" using ab rd cons_abs_frame by blast+
  from snoc.IH [OF this(2,1)] obtain s' where s': "kill_line (length ed) s1 = Inr s'" "cons_abs s' cm []" "cons_ready s'"
    "held s' = held s1" by blast
  then show ?case using c s1(1) cframe_fields(3) [OF s1(2)] by auto
qed

lemma cons_abs_append:
  fixes b :: u8
  assumes a: "cons_abs s cm ed" and l: "length cm + length ed < INPUT_BUF"
  defines "s' \<equiv> s\<lparr>inbuf := (inbuf s)[unat (in_e s) mod INPUT_BUF := b], in_e := in_e s + 1\<rparr>"
  shows "b \<noteq> 10 \<Longrightarrow> cons_abs s' cm (ed @ [b])" "cons_abs (s'\<lparr>in_w := in_e s'\<rparr>) (cm @ ed @ [b]) []"
proof -
  have e: "unat (in_e s) mod INPUT_BUF = (unat (in_r s) + (length cm + length ed)) mod INPUT_BUF"
    using a ring_index [of "in_r s" "length cm + length ed"] by (simp add: cons_abs_def add.assoc)
  have ib: "inbuf s' = (inbuf s)[(unat (in_r s) + (length cm + length ed)) mod INPUT_BUF := b]"
    unfolding s'_def e [symmetric] by simp
  have len: "length (inbuf s) = INPUT_BUF" using a by (simp add: cons_abs_def)
  have n: "inbuf s' ! ((unat (in_r s) + k) mod INPUT_BUF) = (cm @ ed @ [b]) ! k"
    if "k < Suc (length cm + length ed)" for k
  proof (cases "k = length cm + length ed")
    case True
    then show ?thesis by (simp add: ib len nth_append INPUT_BUF_def)
  next
    case False
    then have k: "k < length cm + length ed" using that by simp
    then have "(unat (in_r s) + k) mod INPUT_BUF \<noteq> (unat (in_r s) + (length cm + length ed)) mod INPUT_BUF"
      using l by (intro ring_distinct) auto
    then have "inbuf s' ! ((unat (in_r s) + k) mod INPUT_BUF) = (cm @ ed) ! k" using a k by (simp add: ib cons_abs_def)
    then show ?thesis using k by (auto simp: nth_append)
  qed
  have m: "in_w s = in_r s + of_nat (length cm)" "in_e s = in_w s + of_nat (length ed)" "length (inbuf s) = INPUT_BUF" "10 \<notin> set ed"
    using a by (simp_all add: cons_abs_def)
  show "b \<noteq> 10 \<Longrightarrow> cons_abs s' cm (ed @ [b])"
    using m l n unfolding cons_abs_def by (simp add: s'_def)
  show "cons_abs (s'\<lparr>in_w := in_e s'\<rparr>) (cm @ ed @ [b]) []"
    using m l n unfolding cons_abs_def by (simp add: s'_def)
qed

lemma cons_abs_full:
  assumes a: "cons_abs s cm ed" and l: "length cm + length ed < INPUT_BUF"
  shows "in_e s + 1 = in_r s + of_nat INPUT_BUF \<longleftrightarrow> Suc (length cm + length ed) = INPUT_BUF"
proof -
  let ?n = "Suc (length cm + length ed)"
  have "in_e s + 1 = in_r s + of_nat ?n" using a by (simp add: cons_abs_def)
  moreover have "(of_nat ?n :: u32) = of_nat INPUT_BUF \<longleftrightarrow> ?n = INPUT_BUF"
    using l word_of_nat_eq_iff [of ?n INPUT_BUF, where ?'a = 32] by (simp add: take_bit_eq_mod INPUT_BUF_def)
  ultimately show ?thesis by (simp only: add_left_cancel)
qed

lemma cframe_in_w: "cframe s s' \<Longrightarrow> cframe (s\<lparr>in_w := x\<rparr>) (s'\<lparr>in_w := x\<rparr>)"
proof -
  assume "cframe s s'"
  then obtain m p u where "s' = s\<lparr>mem := m, console_pos := p, uart_out := u\<rparr>" by (auto simp: cframe_def)
  then have "s'\<lparr>in_w := x\<rparr> = s\<lparr>in_w := x\<rparr>\<lparr>mem := m, console_pos := p, uart_out := u\<rparr>" by simp
  then show ?thesis unfolding cframe_def by blast
qed

lemma cons_abs_wakeup1: "cons_abs (wakeup1 c s) cm ed \<longleftrightarrow> cons_abs s cm ed" "cons_ready (wakeup1 c s) \<longleftrightarrow> cons_ready s"
  by (simp_all add: cons_abs_def cons_ready_def wakeup1_def)

lemma consoleintr_char_ok:
  assumes r: "cons_ready s" and a: "cons_abs s cm ed" and t: "typeable c"
  shows "\<exists>s' cm' ed'. consoleintr_char c s = Inr s' \<and> edit_char c (cm, ed) = (cm', ed') \<and>
    cons_abs s' cm' ed' \<and> cons_ready s' \<and> held s' = held s"
proof -
  note d = cons_abs_distance [OF a]
  consider (P) "c = C_P" | (U) "c = C_U" | (bksp) "c = C_H \<or> c = ch_del" "c \<noteq> C_P" "c \<noteq> C_U"
    | (add) "c \<notin> {C_P, C_U, C_H, ch_del}" "c \<noteq> 0" "length cm + length ed < INPUT_BUF"
    | (full) "c \<notin> {C_P, C_U, C_H, ch_del}" "c = 0 \<or> \<not> length cm + length ed < INPUT_BUF" by blast
  then show ?thesis
  proof cases
    case P
    then show ?thesis using r a by (simp add: consoleintr_char_def)
  next
    case U
    then show ?thesis using kill_line_ok [OF r a] d(2) by (auto simp: consoleintr_char_def C_U_def C_P_def)
  next
    case bksp
    show ?thesis
    proof (cases ed rule: rev_cases)
      case Nil
      then show ?thesis using bksp r a d(3) by (auto simp: consoleintr_char_def)
    next
      case (snoc es b)
      have "cons_abs (s\<lparr>in_e := in_e s - 1\<rparr>) cm es" using cons_abs_drop_last a snoc by blast
      moreover have "cons_ready (s\<lparr>in_e := in_e s - 1\<rparr>)" using r by (simp add: cons_ready_def)
      moreover from this obtain s1 where "consputc BACKSPACE (s\<lparr>in_e := in_e s - 1\<rparr>) = Inr s1"
        "cframe (s\<lparr>in_e := in_e s - 1\<rparr>) s1" using consputc_ok by blast
      ultimately show ?thesis
        using bksp d(3) snoc cons_abs_frame cframe_fields(3) by (fastforce simp: consoleintr_char_def)
    qed
  next
    case full
    then show ?thesis using r a d(1) by (auto simp: consoleintr_char_def)
  next
    case add
    define b :: u8 where "b = (if c = ch_cr then 10 else of_int c)"
    define c' where "c' = (if c = ch_cr then ch_nl else c)"
    have rng: "32 \<le> c \<and> c \<le> 126 \<or> c = 10 \<or> c = 13"
      using t add(1,2) by (auto simp: typeable_def C_P_def C_U_def C_H_def ch_del_def ch_nl_def ch_cr_def)
    have "(of_int c :: u8) = 10 \<longleftrightarrow> c = 10"
      using rng word_of_int_eq_iff [of c 10, where ?'a = 8] by (auto simp: take_bit_eq_mod)
    then have cb: "of_int c' = b" "c' = ch_nl \<longleftrightarrow> b = 10" "c' \<noteq> C_D" "c' = ch_nl \<or> c' = BACKSPACE \<or> 0x20 \<le> c' \<and> c' \<le> 0x7E"
      using rng by (auto simp: c'_def b_def ch_nl_def ch_cr_def C_D_def)
    let ?s1 = "s\<lparr>inbuf := (inbuf s)[unat (in_e s) mod INPUT_BUF := b], in_e := in_e s + 1\<rparr>"
    have r1: "cons_ready ?s1" using r by (simp add: cons_ready_def)
    obtain s2 where s2: "consputc c' ?s1 = Inr s2" "cframe ?s1 s2" using consputc_ok [OF r1 cb(4)] by blast
    note f = cframe_fields [OF s2(2)]
    have e: "in_e s2 = in_r s2 + of_nat INPUT_BUF \<longleftrightarrow> length cm + length (ed @ [b]) = INPUT_BUF"
      using cons_abs_full [OF a add(3)] f by simp
    have c: "consoleintr_char c s = (if b = 10 \<or> length cm + length (ed @ [b]) = INPUT_BUF
        then wakeup Chan_input (s2\<lparr>in_w := in_e s2\<rparr>) else Inr s2)"
      using add d(1) cb s2(1) e by (simp add: consoleintr_char_def Let_def c'_def)
    have ec: "edit_char c (cm, ed) = (if b = 10 \<or> length cm + length (ed @ [b]) = INPUT_BUF
        then (cm @ ed @ [b], []) else (cm, ed @ [b]))"
      using add by (simp add: Let_def b_def)
    have r2: "cons_ready s2" using r1 s2(2) cons_abs_frame(2) by blast
    show ?thesis
    proof (cases "b = 10 \<or> length cm + length (ed @ [b]) = INPUT_BUF")
      case True
      have "cframe (?s1\<lparr>in_w := in_e ?s1\<rparr>) (s2\<lparr>in_w := in_e s2\<rparr>)"
        using s2(2) f(7) cframe_in_w by simp
      then have "cons_abs (s2\<lparr>in_w := in_e s2\<rparr>) (cm @ ed @ [b]) []"
        using cons_abs_append(2) [OF a add(3), of b] cons_abs_frame(1) by blast
      moreover have "cons_ready (s2\<lparr>in_w := in_e s2\<rparr>)" using r2 by (simp add: cons_ready_def)
      moreover from this have "wakeup Chan_input (s2\<lparr>in_w := in_e s2\<rparr>) = Inr (wakeup1 Chan_input (s2\<lparr>in_w := in_e s2\<rparr>))"
        by (intro wakeup_Inr) (simp add: cons_ready_def)
      moreover have "held (wakeup1 Chan_input (s2\<lparr>in_w := in_e s2\<rparr>)) = held s" using f(3) by (simp add: wakeup1_def)
      ultimately show ?thesis using True c ec by (auto simp: cons_abs_wakeup1 simp del: edit_char.simps)
    next
      case False
      then have "cons_abs s2 cm (ed @ [b])"
        using cons_abs_append(1) [OF a add(3), of b] cons_abs_frame(1) [OF s2(2)] by simp
      then show ?thesis using False c ec r2 f(3) by (auto simp del: edit_char.simps)
    qed
  qed
qed

lemma consoleintr_loop_ok:
  assumes "cons_ready s" "cons_abs s cm ed" "\<forall>c\<in>set cs. typeable c"
  shows "\<exists>s' cm' ed'. consoleintr_loop cs s = Inr s' \<and> fold edit_char cs (cm, ed) = (cm', ed') \<and>
    cons_abs s' cm' ed' \<and> cons_ready s' \<and> held s' = held s"
  using assms
proof (induction cs arbitrary: s cm ed)
  case (Cons c cs)
  then obtain s1 cm1 ed1 where s1: "consoleintr_char c s = Inr s1" "edit_char c (cm, ed) = (cm1, ed1)"
    "cons_abs s1 cm1 ed1" "cons_ready s1" "held s1 = held s"
    using consoleintr_char_ok [of s cm ed c] by auto
  from Cons.IH [OF this(4,3)] Cons.prems(3) s1 show ?case by (auto simp del: edit_char.simps)
qed simp

lemma cons_abs_pop:
  assumes "cons_abs s (b # cm) ed"
  shows "inbuf_at (in_r s) s = b" "cons_abs (s\<lparr>in_r := in_r s + 1\<rparr>) cm ed" "in_r s \<noteq> in_w s"
proof -
  have n: "inbuf s ! ((unat (in_r s) + k) mod INPUT_BUF) = (b # cm @ ed) ! k" if "k < Suc (length cm + length ed)" for k
    using assms that by (simp add: cons_abs_def)
  from n [of 0] show "inbuf_at (in_r s) s = b" by (simp add: inbuf_at_def)
  have "inbuf s ! ((unat (in_r s + 1) + k) mod INPUT_BUF) = (cm @ ed) ! k" if "k < length cm + length ed" for k
  proof -
    have "(unat (in_r s + 1) + k) mod INPUT_BUF = (unat (in_r s) + Suc k) mod INPUT_BUF"
      using ring_index [of "in_r s + 1" k] ring_index [of "in_r s" "Suc k"] by (simp add: add.assoc)
    then show ?thesis using n [of "Suc k"] that by simp
  qed
  then show "cons_abs (s\<lparr>in_r := in_r s + 1\<rparr>) cm ed" using assms by (simp add: cons_abs_def add.assoc)
  show "in_r s \<noteq> in_w s" using cons_abs_distance(4) [OF assms] by simp
qed

lemma consoleread_loop_line:
  assumes "cons_abs s (l @ 10 # cm) ed" "10 \<notin> set l" "4 \<notin> set l" "length l < n"
  shows "consoleread_loop t n acc s =
      Inr (Read_done, acc @ l @ [10], s\<lparr>in_r := in_r s + of_nat (Suc (length l))\<rparr>) \<and>
    cons_abs (s\<lparr>in_r := in_r s + of_nat (Suc (length l))\<rparr>) cm ed"
  using assms
proof (induction l arbitrary: s n acc)
  case Nil
  then obtain k where "n = Suc k" by (cases n) auto
  then show ?case using cons_abs_pop [of s 10 cm ed] Nil.prems(1) by (simp add: C_D_def ch_nl_def Let_def)
next
  case (Cons b l)
  then obtain k where n: "n = Suc k" by (cases n) auto
  have "cons_abs s (b # l @ 10 # cm) ed" using Cons.prems(1) by simp
  note p = cons_abs_pop [OF this]
  have "consoleread_loop t n acc s = consoleread_loop t k (acc @ [b]) (s\<lparr>in_r := in_r s + 1\<rparr>)"
    using n p(1,3) Cons.prems(2,3) by (simp add: C_D_def ch_nl_def Let_def)
  then show ?case using Cons.IH [OF p(2), of k "acc @ [b]"] Cons.prems n by (simp add: add.assoc)
qed

section \<open>Properties\<close>

definition cons_demo :: cons_st where
  "cons_demo = \<lparr>held = [], mem = (\<lambda>_. 0), kend = 0x80100000, use_lock = True, freelist = 0,
     data_addr = 0x80108000, vgpu = gpu_demo, ptable = (\<lambda>_. bss_proc), cur = (\<lambda>_. Some 0), me = 0, nextpid = 2,
     initproc = Some 0, kpgdir = 0, cr3 = (\<lambda>_. 0), esp0 = (\<lambda>_. 0), forkret_addr = 0, trapret_addr = 0,
     bufs = (\<lambda>_. \<lparr>bflags = 0, bdev = 0, blockno = 0, block = \<lparr>sl_locked = 0, sl_name = [], sl_pid = 0\<rparr>,
       refcnt = 0, bprev = 0, bnext = 0, bdata = []\<rparr>), memdisk = (\<lambda>_. []), disksize = 0, dwrites = [],
     log_start = 2, log_size = 30, outstanding = 0, committing = False, log_dev = 1, lh_n = 0, lh_block = [],
     sb = \<lparr>sb_size = 0, sb_nblocks = 0, sb_ninodes = 0, sb_nlog = 0, sb_logstart = 0, sb_inodestart = 0, sb_bmapstart = 0\<rparr>,
     inodes = (\<lambda>_. \<lparr>idev = 0, inum = 0, iref = 0, ilk = \<lparr>sl_locked = 0, sl_name = [], sl_pid = 0\<rparr>, ivalid = False,
       itype = 0, imajor = 0, iminor = 0, inlink = 0, isize = 0, iaddrs = []\<rparr>), devsw = (\<lambda>_. None),
     panicked = False, cons_locking = True, console_pos = 0, inbuf = replicate INPUT_BUF 0, in_r = - 2, in_w = - 2,
     in_e = - 2, uart = True, uart_out = [], font_bin = replicate 95 (replicate 30 0)\<rparr>"

lemma cons_demo_abs: "cons_ready cons_demo" "cons_abs cons_demo [] []" "LK_cons \<notin> set (held cons_demo)"
  by (simp_all add: cons_demo_def cons_ready_def cons_abs_def)

text \<open>
  C21: the console input buffer refines a line editor. With its three free-running 32-bit indices into
  128 bytes (also where they wrap around), the interrupt handler turns any sequence of printable keys,
  returns, back-spaces and kill-lines into exactly what the editor on lists makes of them: characters
  are appended while there is room, ^H drops the last uncommitted one, ^U the uncommitted line, and a
  return, or a full buffer, commits the line for readers.
\<close>

theorem consoleintr_refines_editor:
  assumes "cons_ready s" "LK_cons \<notin> set (held s)" "cons_abs s cm ed" "\<forall>c\<in>set cs. typeable c"
  shows "\<exists>s'. consoleintr cs s = Inr s' \<and> held s' = held s \<and>
    (case fold edit_char cs (cm, ed) of (cm', ed') \<Rightarrow> cons_abs s' cm' ed')"
proof -
  let ?s = "s\<lparr>held := LK_cons # held s\<rparr>"
  have "cons_ready ?s" "cons_abs ?s cm ed" using assms(1,3) by (simp_all add: cons_ready_def cons_abs_def)
  from consoleintr_loop_ok [OF this assms(4)] obtain s' cm' ed' where s': "consoleintr_loop cs ?s = Inr s'"
    "fold edit_char cs (cm, ed) = (cm', ed')" "cons_abs s' cm' ed'" "held s' = LK_cons # held s" by auto
  have "cons_abs (s'\<lparr>held := held s\<rparr>) cm' ed'" using s'(3) by (simp add: cons_abs_def)
  then show ?thesis using assms(2) s' by (simp add: consoleintr_def)
qed

theorem consoleintr_refines_editor_witness:
  "\<exists>s'. consoleintr [108, 120, 8, 115, 13] cons_demo = Inr s' \<and> cons_abs s' [108, 115, 10] []"
proof -
  have "\<forall>c\<in>set [108, 120, 8, 115, 13]. typeable c" by (simp add: typeable_def ch_cr_def C_H_def)
  then show ?thesis
    using consoleintr_refines_editor [OF cons_demo_abs(1,3,2)]
    by (fastforce simp: C_P_def C_U_def C_H_def ch_del_def ch_cr_def INPUT_BUF_def)
qed

text \<open>
  A read from the console returns one line. If the committed input starts with a line (no ^D in it)
  that fits the request, the loop of \<open>consoleread\<close> returns exactly that line with its newline, without
  sleeping, and leaves the rest of the committed input and the line being edited as they were.
\<close>

lemma consoleread_takes_line:
  assumes "cons_abs s (l @ 10 # cm) ed" "10 \<notin> set l" "4 \<notin> set l" "length l < n"
  shows "\<exists>s'. consoleread_loop n n [] s = Inr (Read_done, l @ [10], s') \<and> cons_abs s' cm ed"
  using consoleread_loop_line [OF assms, of n "[]"] by auto

text \<open>
  \<open>printint\<close> round trip. For base 10 or 16, reading back the characters printed for a word gives its
  signed value when the sign is asked for (also for the most negative integer, whose negation
  overflows) and its unsigned value otherwise.
\<close>

lemma printint_round_trip:
  "read_int 10 (printint_chars w 10 sign) = (if sign then sint w else uint w) \<and>
   read_int 16 (printint_chars w 16 sign) = (if sign then sint w else uint w)"
  using printint_read [of 10 w sign] printint_read [of 16 w sign] by simp

text \<open>
  C27: the text output has no glyph for control characters. Writing any byte below 0x20 other than a
  newline, or any above 0x7E, makes \<open>font_render\<close> index the glyph table outside its 95 entries; in
  particular the echo of ^D, which \<open>consoleintr\<close> treats as end of file, does.
\<close>

theorem control_character_overruns_font:
  assumes "cons_ready s" "0 \<le> c" "c < 256" "c \<noteq> ch_nl" "c < 0x20 \<or> 0x7E < c"
  shows "consputc c s = Inl (Faults ''font_bin'') \<and>
    (unat (in_e s - in_r s) < INPUT_BUF \<longrightarrow> consoleintr_char C_D s = Inl (Faults ''font_bin''))"
proof -
  have f: "consputc c s = Inl (Faults ''font_bin'')"
    if "cons_ready s" "0 \<le> c" "c < 256" "c \<noteq> ch_nl" "c < 0x20 \<or> 0x7E < c" for c and s :: "'a cons_st_scheme"
  proof -
    have "length (font_bin (uartputc c s)) = 95" "c \<noteq> BACKSPACE"
      using that by (auto simp: cons_ready_def uartputc_def BACKSPACE_def)
    moreover have "font_bin (graphic_scroll_up h t) = font_bin t" for h and t :: "'a cons_st_scheme"
      by (simp add: graphic_scroll_up_def Let_def)
    ultimately show ?thesis
      using that by (auto simp: consputc_def Let_def cons_ready_def graphic_putc_def font_render_def)
  qed
  have "consoleintr_char C_D s = Inl (Faults ''font_bin'')" if "unat (in_e s - in_r s) < INPUT_BUF"
  proof -
    have "cons_ready (s\<lparr>inbuf := i, in_e := e\<rparr>)" for i e using assms(1) by (simp add: cons_ready_def)
    then show ?thesis
      using that f [of _ 4] by (simp add: consoleintr_char_def C_D_def C_P_def C_U_def C_H_def ch_del_def ch_cr_def
          ch_nl_def Let_def)
  qed
  then show ?thesis using f [OF assms] by blast
qed

theorem control_character_overruns_font_witness:
  "consputc 9 cons_demo = Inl (Faults ''font_bin'') \<and> consoleintr_char C_D cons_demo = Inl (Faults ''font_bin'')"
  using control_character_overruns_font [OF cons_demo_abs(1), of 9]
  by (simp add: ch_nl_def cons_demo_def INPUT_BUF_def)

end
