(* ===== verification/Fs.thy ===== *)
theory Fs
  imports Console
begin

text \<open>
  The upper half of \<open>xv6/fs.c\<close>: file contents, directories and path names.

  A buffer argument (\<open>dst\<close>, \<open>src\<close>) is the list of bytes that is stored through it or loaded from it;
  the callers put the bytes where they belong, a local structure, a page, or user memory. The loops
  of \<open>readi\<close> and \<open>writei\<close> carry the number of bytes still to move, \<open>n - tot\<close>. A path is a list of
  bytes without its terminating zero, so \<open>*path == 0\<close> is the empty list. \<open>namex\<close> walks at most as
  many elements as the path has bytes.
\<close>

definition DIRSIZ :: nat where "DIRSIZ = 14"
definition DIRENT_SIZE :: nat where "DIRENT_SIZE = 16"
definition ch_slash :: u8 where "ch_slash = 47"

record stat =
  st_type :: u16
  st_dev :: u32
  st_ino :: u32
  st_nlink :: u16
  st_size :: u32

definition stati :: "nat \<Rightarrow> 'a icache_st_scheme \<Rightarrow> stat" where
  "stati k s = (let ip = inodes s k in
     \<lparr>st_type = itype ip, st_dev = idev ip, st_ino = inum ip, st_nlink = inlink ip, st_size = isize ip\<rparr>)"

section \<open>File contents\<close>

definition dev_of :: "u16 \<Rightarrow> 'a icache_st_scheme \<Rightarrow> devops option" where
  "dev_of major s = (if sint major < 0 \<or> sint major \<ge> int NDEV then None else devsw s (unat major))"

function readi_loop :: "nat \<Rightarrow> nat \<Rightarrow> nat \<Rightarrow> 'a icache_st_scheme \<Rightarrow> (u8 list \<times> 'a icache_st_scheme) res" where
  "readi_loop k off r s =
     (if r = 0 then Inr ([], s)
      else
        bind_r (bmap k (of_nat (off div BSIZE)) s) (\<lambda>(addr, s).
        bind_r (bread (idev (inodes s k)) addr s) (\<lambda>(bp, s).
        let m = min r (BSIZE - off mod BSIZE);
            bs = get_bytes (off mod BSIZE) m (bdata (bufs s bp)) in
        bind_r (brelse bp s) (\<lambda>s.
        bind_r (readi_loop k (off + m) (r - m) s) (\<lambda>(bs', s). Inr (bs @ bs', s))))))"
  by pat_completeness auto
termination
  by (relation "measure (\<lambda>(k, off, r, s). r)") (auto simp: BSIZE_def)

declare readi_loop.simps [simp del]

definition readi :: "nat \<Rightarrow> u32 \<Rightarrow> u32 \<Rightarrow> 'a cons_st_scheme \<Rightarrow> (int \<times> u8 list \<times> 'a cons_st_scheme) res" where
  "readi k off n s =
     (if itype (inodes s k) = T_DEV then
        (case dev_of (imajor (inodes s k)) s of None \<Rightarrow> Inr (- 1, [], s)
         | Some Console_ops \<Rightarrow> consoleread k (sint n) s)
      else if off > isize (inodes s k) \<or> off + n < off then Inr (- 1, [], s)
      else
        let n = (if off + n > isize (inodes s k) then isize (inodes s k) - off else n) in
        bind_r (readi_loop k (unat off) (unat n) s) (\<lambda>(bs, s). Inr (sint n, bs, s)))"

function writei_loop :: "nat \<Rightarrow> nat \<Rightarrow> u8 list \<Rightarrow> 'a icache_st_scheme \<Rightarrow> 'a icache_st_scheme res" where
  "writei_loop k off src s =
     (if src = [] then Inr s
      else
        bind_r (bmap k (of_nat (off div BSIZE)) s) (\<lambda>(addr, s).
        bind_r (bread (idev (inodes s k)) addr s) (\<lambda>(bp, s).
        let m = min (length src) (BSIZE - off mod BSIZE) in
        bind_r (log_write bp (set_data bp (put_bytes (off mod BSIZE) (take m src) (bdata (bufs s bp))) s)) (\<lambda>s.
        bind_r (brelse bp s) (\<lambda>s.
        writei_loop k (off + m) (drop m src) s)))))"
  by pat_completeness auto
termination
  by (relation "measure (\<lambda>(k, off, src, s). length src)") (auto simp: BSIZE_def)

declare writei_loop.simps [simp del]

definition writei :: "nat \<Rightarrow> u8 list \<Rightarrow> u32 \<Rightarrow> u32 \<Rightarrow> 'a cons_st_scheme \<Rightarrow> (int \<times> 'a cons_st_scheme) res" where
  "writei k src off n s =
     (if itype (inodes s k) = T_DEV then
        (case dev_of (imajor (inodes s k)) s of None \<Rightarrow> Inr (- 1, s)
         | Some Console_ops \<Rightarrow> consolewrite k (take (unat n) src) s)
      else if off > isize (inodes s k) \<or> off + n < off then Inr (- 1, s)
      else if off + n > of_nat (MAXFILE * BSIZE) then Inr (- 1, s)
      else
        bind_r (writei_loop k (unat off) (take (unat n) src) s) (\<lambda>s.
        let off = off + n in
        if n > 0 \<and> off > isize (inodes s k)
        then bind_r (iupdate k (upd_inode k (\<lambda>ip. ip\<lparr>isize := off\<rparr>) s)) (\<lambda>s. Inr (sint n, s))
        else Inr (sint n, s)))"

section \<open>Directories\<close>

definition de_inum :: "u8 list \<Rightarrow> u16" where "de_inum de = u16_at de 0"
definition de_name :: "u8 list \<Rightarrow> u8 list" where "de_name de = get_bytes 2 DIRSIZ de"

definition bytes_reader :: "u8 list \<Rightarrow> reader" where
  "bytes_reader bs k = (if k < length bs then bs ! k else 0)"

definition namecmp :: "u8 list \<Rightarrow> u8 list \<Rightarrow> int" where
  "namecmp s t = strncmp (bytes_reader s) (bytes_reader t) (of_nat DIRSIZ)"

fun dirlookup_from :: "nat \<Rightarrow> nat \<Rightarrow> u8 list \<Rightarrow> u32 \<Rightarrow> 'a cons_st_scheme \<Rightarrow>
    ((nat \<times> u32) option \<times> 'a cons_st_scheme) res" where
  "dirlookup_from 0 dp name off s = Inl NoFuel"
| "dirlookup_from (Suc fuel) dp name off s =
     (if \<not> off < isize (inodes s dp) then Inr (None, s)
      else
        bind_r (readi dp off (of_nat DIRENT_SIZE) s) (\<lambda>(r, de, s).
        if r \<noteq> int DIRENT_SIZE then Inl (Panic ''dirlookup read'')
        else if de_inum de = 0 then dirlookup_from fuel dp name (off + of_nat DIRENT_SIZE) s
        else if namecmp name (de_name de) = 0 then
          bind_r (iget (idev (inodes s dp)) (ucast (de_inum de)) s) (\<lambda>(ip, s). Inr (Some (ip, off), s))
        else dirlookup_from fuel dp name (off + of_nat DIRENT_SIZE) s))"

text \<open>The result carries the offset that the source stores through \<open>poff\<close>.\<close>

definition dirlookup :: "nat \<Rightarrow> u8 list \<Rightarrow> 'a cons_st_scheme \<Rightarrow> ((nat \<times> u32) option \<times> 'a cons_st_scheme) res" where
  "dirlookup dp name s =
     (if itype (inodes s dp) \<noteq> T_DIR then Inl (Panic ''dirlookup not DIR'')
      else dirlookup_from (unat (isize (inodes s dp)) div DIRENT_SIZE + 2) dp name 0 s)"

fun find_empty :: "nat \<Rightarrow> nat \<Rightarrow> u32 \<Rightarrow> 'a cons_st_scheme \<Rightarrow> (u32 \<times> 'a cons_st_scheme) res" where
  "find_empty 0 dp off s = Inl NoFuel"
| "find_empty (Suc fuel) dp off s =
     (if \<not> off < isize (inodes s dp) then Inr (off, s)
      else
        bind_r (readi dp off (of_nat DIRENT_SIZE) s) (\<lambda>(r, de, s).
        if r \<noteq> int DIRENT_SIZE then Inl (Panic ''dirlink read'')
        else if de_inum de = 0 then Inr (off, s)
        else find_empty fuel dp (off + of_nat DIRENT_SIZE) s))"

definition encode_dirent :: "u16 \<Rightarrow> u8 list \<Rightarrow> u8 list" where
  "encode_dirent i name = le16 i @ strncpy_bytes (bytes_reader name) DIRSIZ"

definition dirlink :: "nat \<Rightarrow> u8 list \<Rightarrow> u32 \<Rightarrow> 'a cons_st_scheme \<Rightarrow> (int \<times> 'a cons_st_scheme) res" where
  "dirlink dp name i s =
     bind_r (dirlookup dp name s) (\<lambda>(r, s).
     case r of
       Some (ip, _) \<Rightarrow> bind_r (iput ip s) (\<lambda>s. Inr (- 1, s))
     | None \<Rightarrow>
         bind_r (find_empty (unat (isize (inodes s dp)) div DIRENT_SIZE + 2) dp 0 s) (\<lambda>(off, s).
         bind_r (writei dp (encode_dirent (ucast i) name) off (of_nat DIRENT_SIZE) s) (\<lambda>(w, s).
         if w \<noteq> int DIRENT_SIZE then Inl (Panic ''dirlink'') else Inr (0, s))))"

section \<open>Paths\<close>

definition skipelem :: "u8 list \<Rightarrow> (u8 list \<times> u8 list) option" where
  "skipelem path =
     (let p = dropWhile (\<lambda>c. c = ch_slash) path in
      if p = [] then None
      else
        let e = takeWhile (\<lambda>c. c \<noteq> ch_slash) p; rest = dropWhile (\<lambda>c. c \<noteq> ch_slash) p;
            name = (if length e \<ge> DIRSIZ then take DIRSIZ e else e) in
        Some (dropWhile (\<lambda>c. c = ch_slash) rest, name))"

fun namex_loop :: "nat \<Rightarrow> nat \<Rightarrow> u8 list \<Rightarrow> bool \<Rightarrow> u8 list \<Rightarrow> 'a cons_st_scheme \<Rightarrow>
    ((nat \<times> u8 list) option \<times> 'a cons_st_scheme) res" where
  "namex_loop 0 ip path par name s = Inl NoFuel"
| "namex_loop (Suc fuel) ip path par name s =
     (case skipelem path of
        None \<Rightarrow>
          if par then bind_r (iput ip s) (\<lambda>s. Inr (None, s)) else Inr (Some (ip, name), s)
      | Some (path, name) \<Rightarrow>
          bind_r (ilock (Some ip) s) (\<lambda>s.
          if itype (inodes s ip) \<noteq> T_DIR then bind_r (iunlockput ip s) (\<lambda>s. Inr (None, s))
          else if par \<and> path = [] then bind_r (iunlock (Some ip) s) (\<lambda>s. Inr (Some (ip, name), s))
          else
            bind_r (dirlookup ip name s) (\<lambda>(r, s).
            case r of
              None \<Rightarrow> bind_r (iunlockput ip s) (\<lambda>s. Inr (None, s))
            | Some (nxt, _) \<Rightarrow> bind_r (iunlockput ip s) (namex_loop fuel nxt path par name))))"

definition namex :: "u8 list \<Rightarrow> bool \<Rightarrow> 'a cons_st_scheme \<Rightarrow> ((nat \<times> u8 list) option \<times> 'a cons_st_scheme) res" where
  "namex path par s =
     bind_r (if path \<noteq> [] \<and> hd path = ch_slash then iget ROOTDEV ROOTINO s
             else case myproc s of None \<Rightarrow> Inl (Faults ''namex'')
               | Some p \<Rightarrow> (case cwd (ptable s p) of None \<Rightarrow> Inl (Faults ''namex'') | Some d \<Rightarrow> idup d s)) (\<lambda>(ip, s).
     namex_loop (length path + 1) ip path par [] s)"

definition namei :: "u8 list \<Rightarrow> 'a cons_st_scheme \<Rightarrow> (nat option \<times> 'a cons_st_scheme) res" where
  "namei path s = bind_r (namex path False s) (\<lambda>(r, s). Inr (map_option fst r, s))"

definition nameiparent :: "u8 list \<Rightarrow> 'a cons_st_scheme \<Rightarrow> ((nat \<times> u8 list) option \<times> 'a cons_st_scheme) res" where
  "nameiparent path s = namex path True s"

end
