(* ===== verification/File_Pipe.thy ===== *)
theory File_Pipe
  imports Fs
begin

text \<open>
  Open files and pipes: \<open>xv6/file.c\<close>, \<open>xv6/file.h\<close> and \<open>xv6/pipe.c\<close>.

  A \<open>struct file *\<close> is an index into \<open>ftable.file\<close>. A \<open>struct pipe\<close> lives in a page of its own, so a
  \<open>struct pipe *\<close> is the address of that page and \<open>pipes\<close> holds the structures by address; \<open>kalloc\<close>
  and \<open>kfree\<close> manage the page. A buffer argument is the list of bytes moved through it. A writer that
  finds the pipe full has woken the readers and sleeps in the middle of its loop: \<open>pipewrite_loop\<close>
  returns the bytes it still has to write.
\<close>

definition NFILE :: nat where "NFILE = 100"
definition PIPESIZE :: nat where "PIPESIZE = 512"

datatype ftype = FD_NONE | FD_PIPE | FD_INODE

record ofile_t =
  ftyp :: ftype
  fref :: int
  freadable :: bool
  fwritable :: bool
  fpipe :: u32
  fip :: nat
  foff :: u32

record pipe =
  pdata :: "u8 list"
  nread :: u32
  nwrite :: u32
  readopen :: bool
  writeopen :: bool

record file_st = cons_st +
  files :: "nat \<Rightarrow> ofile_t"
  pipes :: "u32 \<Rightarrow> pipe"

definition upd_file :: "nat \<Rightarrow> (ofile_t \<Rightarrow> ofile_t) \<Rightarrow> 'a file_st_scheme \<Rightarrow> 'a file_st_scheme" where
  "upd_file f g s = s\<lparr>files := (files s)(f := g (files s f))\<rparr>"

definition upd_pipe :: "u32 \<Rightarrow> (pipe \<Rightarrow> pipe) \<Rightarrow> 'a file_st_scheme \<Rightarrow> 'a file_st_scheme" where
  "upd_pipe p g s = s\<lparr>pipes := (pipes s)(p := g (pipes s p))\<rparr>"

section \<open>The file table\<close>

definition filealloc :: "'a file_st_scheme \<Rightarrow> (nat option \<times> 'a file_st_scheme) res" where
  "filealloc s =
     bind_r (acq LK_ftable s) (\<lambda>s.
     case find (\<lambda>f. fref (files s f) = 0) [0..<NFILE] of
       Some f \<Rightarrow> bind_r (rel LK_ftable (upd_file f (\<lambda>x. x\<lparr>fref := 1\<rparr>) s)) (\<lambda>s. Inr (Some f, s))
     | None \<Rightarrow> bind_r (rel LK_ftable s) (\<lambda>s. Inr (None, s)))"

definition filedup :: "nat \<Rightarrow> 'a file_st_scheme \<Rightarrow> (nat \<times> 'a file_st_scheme) res" where
  "filedup f s =
     bind_r (acq LK_ftable s) (\<lambda>s.
     if fref (files s f) < 1 then Inl (Panic ''filedup'')
     else bind_r (rel LK_ftable (upd_file f (\<lambda>x. x\<lparr>fref := fref x + 1\<rparr>) s)) (\<lambda>s. Inr (f, s)))"

definition pipeclose :: "u32 \<Rightarrow> bool \<Rightarrow> 'a file_st_scheme \<Rightarrow> 'a file_st_scheme res" where
  "pipeclose p writable s =
     bind_r (acq (LK_pipe p) s) (\<lambda>s.
     bind_r (if writable then wakeup (Chan_nread p) (upd_pipe p (\<lambda>x. x\<lparr>writeopen := False\<rparr>) s)
             else wakeup (Chan_nwrite p) (upd_pipe p (\<lambda>x. x\<lparr>readopen := False\<rparr>) s)) (\<lambda>s.
     if \<not> readopen (pipes s p) \<and> \<not> writeopen (pipes s p)
     then bind_r (rel (LK_pipe p) s) (kfree p)
     else rel (LK_pipe p) s))"

definition fileclose :: "nat \<Rightarrow> 'a file_st_scheme \<Rightarrow> 'a file_st_scheme res" where
  "fileclose f s =
     bind_r (acq LK_ftable s) (\<lambda>s.
     if fref (files s f) < 1 then Inl (Panic ''fileclose'')
     else
       let s = upd_file f (\<lambda>x. x\<lparr>fref := fref x - 1\<rparr>) s in
       if fref (files s f) > 0 then rel LK_ftable s
       else
         let ff = files s f; s = upd_file f (\<lambda>x. x\<lparr>fref := 0, ftyp := FD_NONE\<rparr>) s in
         bind_r (rel LK_ftable s) (\<lambda>s.
         if ftyp ff = FD_PIPE then pipeclose (fpipe ff) (fwritable ff) s
         else if ftyp ff = FD_INODE then
           bind_r (begin_op s) (\<lambda>s. bind_r (iput (fip ff) s) end_op)
         else Inr s))"

definition filestat :: "nat \<Rightarrow> 'a file_st_scheme \<Rightarrow> (stat option \<times> 'a file_st_scheme) res" where
  "filestat f s =
     (if ftyp (files s f) = FD_INODE then
        bind_r (ilock (Some (fip (files s f))) s) (\<lambda>s.
        let st = stati (fip (files s f)) s in
        bind_r (iunlock (Some (fip (files s f))) s) (\<lambda>s. Inr (Some st, s)))
      else Inr (None, s))"

section \<open>Pipes\<close>

definition pipealloc :: "'a file_st_scheme \<Rightarrow> ((nat \<times> nat) option \<times> 'a file_st_scheme) res" where
  "pipealloc s =
     bind_r (filealloc s) (\<lambda>(f0, s).
     case f0 of None \<Rightarrow> Inr (None, s) | Some f0 \<Rightarrow>
     bind_r (filealloc s) (\<lambda>(f1, s).
     case f1 of None \<Rightarrow> bind_r (fileclose f0 s) (\<lambda>s. Inr (None, s)) | Some f1 \<Rightarrow>
     bind_r (kalloc s) (\<lambda>(p, s).
     if p = 0 then
       bind_r (fileclose f0 s) (\<lambda>s. bind_r (fileclose f1 s) (\<lambda>s. Inr (None, s)))
     else
       let s = upd_pipe p (\<lambda>x. x\<lparr>readopen := True, writeopen := True, nwrite := 0, nread := 0\<rparr>) s;
           s = upd_file f0 (\<lambda>x. x\<lparr>ftyp := FD_PIPE, freadable := True, fwritable := False, fpipe := p\<rparr>) s;
           s = upd_file f1 (\<lambda>x. x\<lparr>ftyp := FD_PIPE, freadable := False, fwritable := True, fpipe := p\<rparr>) s in
       Inr (Some (f0, f1), s))))"

definition pipe_slot :: "u32 \<Rightarrow> nat" where
  "pipe_slot k = unat k mod PIPESIZE"

datatype write_end = Write_done | Write_broken | Write_sleeps "u8 list"

fun pipewrite_loop :: "u32 \<Rightarrow> u8 list \<Rightarrow> 'a file_st_scheme \<Rightarrow> (write_end \<times> 'a file_st_scheme) res" where
  "pipewrite_loop p [] s = Inr (Write_done, s)"
| "pipewrite_loop p (c # cs) s =
     (if nwrite (pipes s p) = nread (pipes s p) + of_nat PIPESIZE then
        if \<not> readopen (pipes s p) then Inr (Write_broken, s)
        else
          (case myproc s of None \<Rightarrow> Inl (Faults ''pipewrite'')
           | Some q \<Rightarrow>
               if killed (ptable s q) then Inr (Write_broken, s)
               else bind_r (wakeup (Chan_nread p) s) (\<lambda>s. Inr (Write_sleeps (c # cs), s)))
      else
        pipewrite_loop p cs (upd_pipe p (\<lambda>x. x\<lparr>pdata := (pdata x)[pipe_slot (nwrite x) := c],
          nwrite := nwrite x + 1\<rparr>) s))"

definition pipewrite :: "u32 \<Rightarrow> u8 list \<Rightarrow> int \<Rightarrow> 'a file_st_scheme \<Rightarrow> (int \<times> 'a file_st_scheme) res" where
  "pipewrite p bs n s =
     bind_r (acq (LK_pipe p) s) (\<lambda>s.
     bind_r (pipewrite_loop p (take (nat n) bs) s) (\<lambda>(e, s).
     case e of
       Write_sleeps _ \<Rightarrow> Inl (Sleeps (Chan_nwrite p))
     | Write_broken \<Rightarrow> bind_r (rel (LK_pipe p) s) (\<lambda>s. Inr (- 1, s))
     | Write_done \<Rightarrow>
         bind_r (wakeup (Chan_nread p) s) (\<lambda>s.
         bind_r (rel (LK_pipe p) s) (\<lambda>s. Inr (n, s)))))"

fun piperead_loop :: "u32 \<Rightarrow> nat \<Rightarrow> 'a file_st_scheme \<Rightarrow> u8 list \<times> 'a file_st_scheme" where
  "piperead_loop p 0 s = ([], s)"
| "piperead_loop p (Suc n) s =
     (if nread (pipes s p) = nwrite (pipes s p) then ([], s)
      else
        let c = pdata (pipes s p) ! pipe_slot (nread (pipes s p));
            (cs, s) = piperead_loop p n (upd_pipe p (\<lambda>x. x\<lparr>nread := nread x + 1\<rparr>) s) in
        (c # cs, s))"

definition piperead :: "u32 \<Rightarrow> int \<Rightarrow> 'a file_st_scheme \<Rightarrow> (int \<times> u8 list \<times> 'a file_st_scheme) res" where
  "piperead p n s =
     bind_r (acq (LK_pipe p) s) (\<lambda>s.
     if nread (pipes s p) = nwrite (pipes s p) \<and> writeopen (pipes s p) then
       (case myproc s of None \<Rightarrow> Inl (Faults ''piperead'')
        | Some q \<Rightarrow>
            if killed (ptable s q) then bind_r (rel (LK_pipe p) s) (\<lambda>s. Inr (- 1, [], s))
            else Inl (Sleeps (Chan_nread p)))
     else
       let (bs, s) = piperead_loop p (nat n) s in
       bind_r (wakeup (Chan_nwrite p) s) (\<lambda>s.
       bind_r (rel (LK_pipe p) s) (\<lambda>s. Inr (int (length bs), bs, s))))"

section \<open>Reading and writing files\<close>

definition fileread :: "nat \<Rightarrow> int \<Rightarrow> 'a file_st_scheme \<Rightarrow> (int \<times> u8 list \<times> 'a file_st_scheme) res" where
  "fileread f n s =
     (if \<not> freadable (files s f) then Inr (- 1, [], s)
      else case ftyp (files s f) of
        FD_PIPE \<Rightarrow> piperead (fpipe (files s f)) n s
      | FD_INODE \<Rightarrow>
          bind_r (ilock (Some (fip (files s f))) s) (\<lambda>s.
          bind_r (readi (fip (files s f)) (foff (files s f)) (word_of_int n) s) (\<lambda>(r, bs, s).
          let s = (if r > 0 then upd_file f (\<lambda>x. x\<lparr>foff := foff x + word_of_int r\<rparr>) s else s) in
          bind_r (iunlock (Some (fip (files s f))) s) (\<lambda>s. Inr (r, bs, s))))
      | FD_NONE \<Rightarrow> Inl (Panic ''fileread''))"

definition write_max :: nat where "write_max = ((MAXOPBLOCKS - 1 - 1 - 2) div 2) * 512"

function filewrite_loop :: "nat \<Rightarrow> u8 list \<Rightarrow> 'a file_st_scheme \<Rightarrow> (bool \<times> 'a file_st_scheme) res" where
  "filewrite_loop f src s =
     (if src = [] then Inr (True, s)
      else
        let n1 = min (length src) write_max in
        bind_r (begin_op s) (\<lambda>s.
        bind_r (ilock (Some (fip (files s f))) s) (\<lambda>s.
        bind_r (writei (fip (files s f)) (take n1 src) (foff (files s f)) (of_nat n1) s) (\<lambda>(r, s).
        let s = (if r > 0 then upd_file f (\<lambda>x. x\<lparr>foff := foff x + word_of_int r\<rparr>) s else s) in
        bind_r (iunlock (Some (fip (files s f))) s) (\<lambda>s.
        bind_r (end_op s) (\<lambda>s.
        if r < 0 then Inr (False, s)
        else if r \<noteq> int n1 then Inl (Panic ''short filewrite'')
        else filewrite_loop f (drop n1 src) s))))))"
  by pat_completeness auto
termination
  by (relation "measure (\<lambda>(f, src, s). length src)") (auto simp: write_max_def MAXOPBLOCKS_def)

declare filewrite_loop.simps [simp del]

definition filewrite :: "nat \<Rightarrow> u8 list \<Rightarrow> int \<Rightarrow> 'a file_st_scheme \<Rightarrow> (int \<times> 'a file_st_scheme) res" where
  "filewrite f src n s =
     (if \<not> fwritable (files s f) then Inr (- 1, s)
      else case ftyp (files s f) of
        FD_PIPE \<Rightarrow> pipewrite (fpipe (files s f)) src n s
      | FD_INODE \<Rightarrow>
          bind_r (filewrite_loop f (take (nat n) src) s) (\<lambda>(ok, s). Inr (if ok \<and> n \<ge> 0 then n else - 1, s))
      | FD_NONE \<Rightarrow> Inl (Panic ''filewrite''))"

section \<open>The ring buffer is a queue\<close>

definition pipe_wf :: "pipe \<Rightarrow> bool" where
  "pipe_wf x \<longleftrightarrow> length (pdata x) = PIPESIZE \<and> unat (nwrite x - nread x) \<le> PIPESIZE"

definition pipe_q :: "pipe \<Rightarrow> u8 list" where
  "pipe_q x = map (\<lambda>k. pdata x ! pipe_slot (nread x + of_nat k)) [0..<unat (nwrite x - nread x)]"

definition pipe_push :: "u8 \<Rightarrow> pipe \<Rightarrow> pipe" where
  "pipe_push c x = x\<lparr>pdata := (pdata x)[pipe_slot (nwrite x) := c], nwrite := nwrite x + 1\<rparr>"

lemma length_pipe_q: "length (pipe_q x) = unat (nwrite x - nread x)"
  by (simp add: pipe_q_def)

lemma pipe_slot_add: "pipe_slot (a + of_nat k) = (unat a + k) mod PIPESIZE"
proof -
  have "unat (a + of_nat k :: u32) = (unat a + k mod 2 ^ 32) mod 2 ^ 32"
    by (simp add: unat_word_ariths unat_of_nat take_bit_eq_mod)
  moreover have "(PIPESIZE :: nat) dvd 2 ^ 32" by (simp add: PIPESIZE_def)
  ultimately show ?thesis by (simp add: pipe_slot_def mod_mod_cancel mod_add_right_eq)
qed

lemma pipe_slot_lt [simp]: "pipe_slot a < PIPESIZE"
  by (simp add: pipe_slot_def PIPESIZE_def)

lemma pipe_full_iff: "nwrite x = nread x + of_nat PIPESIZE \<longleftrightarrow> length (pipe_q x) = PIPESIZE"
proof -
  have "nwrite x = nread x + of_nat PIPESIZE \<longleftrightarrow> nwrite x - nread x = of_nat PIPESIZE" by (metis add.commute diff_eq_eq)
  also have "\<dots> \<longleftrightarrow> unat (nwrite x - nread x) = PIPESIZE" by (simp add: word_unat_eq_iff PIPESIZE_def)
  finally show ?thesis by (simp add: length_pipe_q)
qed

lemma pipe_empty_iff: "nread x = nwrite x \<longleftrightarrow> pipe_q x = []"
  by (auto simp: pipe_q_def unat_eq_zero)

lemma mod_shift_ne: "k < n \<Longrightarrow> n < m \<Longrightarrow> (a + k) mod m \<noteq> (a + n) mod m" for a k n m :: nat
proof
  assume "k < n" "n < m" "(a + k) mod m = (a + n) mod m"
  then have "m dvd (a + n) - (a + k)" by (metis add_le_mono less_imp_le mod_eq_dvd_iff_nat order_refl)
  then have "m dvd n - k" by simp
  then show False using \<open>k < n\<close> \<open>n < m\<close> by (auto dest!: dvd_imp_le)
qed

lemma pipe_push_q:
  assumes "pipe_wf x" "length (pipe_q x) < PIPESIZE"
  shows "pipe_wf (pipe_push c x)" "pipe_q (pipe_push c x) = pipe_q x @ [c]"
proof -
  let ?n = "unat (nwrite x - nread x)"
  have n: "?n < PIPESIZE" using assms(2) by (simp add: length_pipe_q)
  have w: "nwrite x = nread x + of_nat ?n" by simp
  have "nwrite x + 1 - nread x = (nwrite x - nread x) + 1" by simp
  moreover have "unat ((nwrite x - nread x) + 1) = Suc ?n"
    using n by (subst unat_word_ariths) (simp add: PIPESIZE_def)
  ultimately have s: "unat (nwrite x + 1 - nread x) = Suc ?n" by (simp only:)
  show "pipe_wf (pipe_push c x)" using assms(1) n s by (simp add: pipe_wf_def pipe_push_def)
  have slot: "pipe_slot (nwrite x) = (unat (nread x) + ?n) mod PIPESIZE" using pipe_slot_add [of "nread x" ?n] w by simp
  have ne: "(unat (nread x) + k) mod PIPESIZE \<noteq> (unat (nread x) + ?n) mod PIPESIZE" if "k < ?n" for k
    using that n by (rule mod_shift_ne)
  have "pdata x ! pipe_slot (nread x + of_nat k) = (pdata x)[pipe_slot (nwrite x) := c] ! pipe_slot (nread x + of_nat k)"
    if "k < ?n" for k using ne [OF that] by (simp add: slot pipe_slot_add)
  then show "pipe_q (pipe_push c x) = pipe_q x @ [c]"
    using s w assms(1) by (simp add: pipe_q_def pipe_push_def pipe_wf_def)
qed

lemma pipe_pop_q:
  assumes "pipe_wf x" "pipe_q x \<noteq> []"
  defines "x' \<equiv> x\<lparr>nread := nread x + 1\<rparr>"
  shows "pipe_wf x'" "pipe_q x = pdata x ! pipe_slot (nread x) # pipe_q x'"
proof -
  let ?n = "unat (nwrite x - nread x)"
  obtain m where m: "?n = Suc m" using assms(2) by (cases ?n) (auto simp: pipe_q_def)
  have "nwrite x - (nread x + 1) = (nwrite x - nread x) - 1" by simp
  moreover have "unat ((nwrite x - nread x) - 1) = m" using m unat_minus_one [of "nwrite x - nread x"] by fastforce
  ultimately have s: "unat (nwrite x - (nread x + 1)) = m" by (simp only:)
  show "pipe_wf x'" using assms(1) m s by (simp add: pipe_wf_def x'_def)
  show "pipe_q x = pdata x ! pipe_slot (nread x) # pipe_q x'"
    using m s by (simp add: pipe_q_def x'_def upt_conv_Cons map_Suc_upt [symmetric] add.assoc del: upt_Suc)
qed

lemma upd_pipe_sel [simp]:
  "pipes (upd_pipe p g s) q = (if q = p then g (pipes s p) else pipes s q)" "held (upd_pipe p g s) = held s"
  "ptable (upd_pipe p g s) = ptable s" "cur (upd_pipe p g s) = cur s" "me (upd_pipe p g s) = me s"
  "files (upd_pipe p g s) = files s" "myproc (upd_pipe p g s) = myproc s"
  by (simp_all add: upd_pipe_def myproc_def)

lemma upd_pipe_upd_pipe: "upd_pipe p f (upd_pipe p g s) = upd_pipe p (\<lambda>x. f (g x)) s"
  by (simp add: upd_pipe_def)

lemma pipewrite_loop_q:
  fixes rm :: nat
  assumes "pipe_wf (pipes s p)" "LK_ptable \<notin> set (held s)" "myproc s = Some q"
  defines "rm \<equiv> PIPESIZE - length (pipe_q (pipes s p))"
  shows "\<exists>g. pipe_wf (g (pipes s p)) \<and> pipe_q (g (pipes s p)) = pipe_q (pipes s p) @ take rm bs \<and>
    readopen (g (pipes s p)) = readopen (pipes s p) \<and> writeopen (g (pipes s p)) = writeopen (pipes s p) \<and>
    pipewrite_loop p bs s =
      (if length bs \<le> rm then Inr (Write_done, upd_pipe p g s)
       else if \<not> readopen (pipes s p) \<or> killed (ptable s q) then Inr (Write_broken, upd_pipe p g s)
       else Inr (Write_sleeps (drop rm bs), wakeup1 (Chan_nread p) (upd_pipe p g s)))"
  using assms(1-3) unfolding rm_def
proof (induction bs arbitrary: s)
  case Nil
  then show ?case by (intro exI [of _ id]) (simp add: upd_pipe_def)
next
  case (Cons c cs)
  let ?x = "pipes s p"
  show ?case
  proof (cases "length (pipe_q ?x) = PIPESIZE")
    case True
    then show ?thesis
      using Cons.prems by (intro exI [of _ id]) (auto simp: upd_pipe_def pipe_full_iff wakeup_Inr)
  next
    case False
    then have lt: "length (pipe_q ?x) < PIPESIZE" using Cons.prems(1) by (simp add: pipe_wf_def length_pipe_q)
    note ps = pipe_push_q [OF Cons.prems(1) lt, of c]
    let ?s = "upd_pipe p (pipe_push c) s"
    have step: "pipewrite_loop p (c # cs) s = pipewrite_loop p cs ?s"
      using False by (simp add: pipe_full_iff pipe_push_def [abs_def])
    have rm: "PIPESIZE - length (pipe_q ?x) = Suc (PIPESIZE - length (pipe_q (pipe_push c ?x)))"
      using lt ps(2) by simp
    obtain g where g: "pipe_wf (g (pipe_push c ?x))"
      "pipe_q (g (pipe_push c ?x)) = pipe_q (pipe_push c ?x) @ take (PIPESIZE - length (pipe_q (pipe_push c ?x))) cs"
      "readopen (g (pipe_push c ?x)) = readopen (pipe_push c ?x)" "writeopen (g (pipe_push c ?x)) = writeopen (pipe_push c ?x)"
      "pipewrite_loop p cs ?s =
      (if length cs \<le> PIPESIZE - length (pipe_q (pipe_push c ?x)) then Inr (Write_done, upd_pipe p g ?s)
       else if \<not> readopen (pipe_push c ?x) \<or> killed (ptable s q) then Inr (Write_broken, upd_pipe p g ?s)
       else Inr (Write_sleeps (drop (PIPESIZE - length (pipe_q (pipe_push c ?x))) cs), wakeup1 (Chan_nread p) (upd_pipe p g ?s)))"
      using Cons.IH [of ?s] Cons.prems ps(1) by auto
    have "readopen (pipe_push c ?x) = readopen ?x" "writeopen (pipe_push c ?x) = writeopen ?x" by (simp_all add: pipe_push_def)
    then show ?thesis
      using g ps(2) unfolding step rm by (intro exI [of _ "\<lambda>x. g (pipe_push c x)"]) (simp add: upd_pipe_upd_pipe)
  qed
qed

lemma piperead_loop_q:
  assumes "pipe_wf (pipes s p)"
  shows "\<exists>g. piperead_loop p n s = (take n (pipe_q (pipes s p)), upd_pipe p g s) \<and> pipe_wf (g (pipes s p)) \<and>
    pipe_q (g (pipes s p)) = drop n (pipe_q (pipes s p)) \<and> writeopen (g (pipes s p)) = writeopen (pipes s p) \<and>
    readopen (g (pipes s p)) = readopen (pipes s p)"
  using assms
proof (induction n arbitrary: s)
  case 0
  then show ?case by (intro exI [of _ id]) (simp add: upd_pipe_def)
next
  case (Suc n)
  let ?x = "pipes s p" and ?f = "\<lambda>x :: pipe. x\<lparr>nread := nread x + 1\<rparr>"
  show ?case
  proof (cases "pipe_q ?x = []")
    case True
    then show ?thesis using Suc.prems by (intro exI [of _ id]) (simp add: upd_pipe_def pipe_empty_iff)
  next
    case False
    note pq = pipe_pop_q [OF Suc.prems False]
    obtain g where g: "piperead_loop p n (upd_pipe p ?f s) = (take n (pipe_q (?f ?x)), upd_pipe p g (upd_pipe p ?f s))"
      "pipe_wf (g (?f ?x))" "pipe_q (g (?f ?x)) = drop n (pipe_q (?f ?x))" "writeopen (g (?f ?x)) = writeopen ?x"
      "readopen (g (?f ?x)) = readopen ?x"
      using Suc.IH [of "upd_pipe p ?f s"] pq(1) by auto
    then show ?thesis
      using False pq(2) by (intro exI [of _ "\<lambda>x. g (?f x)"]) (simp add: pipe_empty_iff upd_pipe_upd_pipe)
  qed
qed

section \<open>Properties of pipes\<close>

lemma wakeup1_file [simp]:
  "pipes (wakeup1 c s) = pipes s" "files (wakeup1 c s) = files s" "held (wakeup1 c s) = held s"
  by (simp_all add: wakeup1_def)

text \<open>
  C12: writing to a pipe. Whatever the values of the free-running 32-bit counters, the ring buffer is a
  queue of at most 512 bytes. When the bytes fit, \<open>pipewrite\<close> appends them in order and returns their
  number, with the sleeping readers made runnable. When they do not fit, it fails if the reader's end is closed or the process has been killed, and
  otherwise goes to sleep: the loop has then appended as many bytes as fit, keeps the remaining ones,
  and has woken the readers.
\<close>

theorem pipewrite_appends:
  assumes "pipe_wf (pipes s p)" "LK_ptable \<notin> set (held s)" "LK_pipe p \<notin> set (held s)" "myproc s = Some q"
    and "n = int (length bs)"
  shows "let k = PIPESIZE - length (pipe_q (pipes s p)) in
    if length bs \<le> k then \<exists>s'. pipewrite p bs n s = Inr (n, s') \<and> held s' = held s \<and> pipe_wf (pipes s' p) \<and>
      pipe_q (pipes s' p) = pipe_q (pipes s p) @ bs \<and>
      (\<forall>r < NPROC. state (ptable s r) = SLEEPING \<and> pchan (ptable s r) = Some (Chan_nread p) \<longrightarrow>
         state (ptable s' r) = RUNNABLE)
    else if \<not> readopen (pipes s p) \<or> killed (ptable s q) then
      \<exists>s'. pipewrite p bs n s = Inr (- 1, s') \<and> held s' = held s
    else pipewrite p bs n s = Inl (Sleeps (Chan_nwrite p)) \<and>
      (\<exists>s'. pipewrite_loop p bs (s\<lparr>held := LK_pipe p # held s\<rparr>) = Inr (Write_sleeps (drop k bs), s') \<and>
        pipe_wf (pipes s' p) \<and> pipe_q (pipes s' p) = pipe_q (pipes s p) @ take k bs \<and>
        (\<forall>r < NPROC. state (ptable s r) = SLEEPING \<and> pchan (ptable s r) = Some (Chan_nread p) \<longrightarrow>
           state (ptable s' r) = RUNNABLE))"
proof -
  let ?s = "s\<lparr>held := LK_pipe p # held s\<rparr>" and ?k = "PIPESIZE - length (pipe_q (pipes s p))"
  have my: "myproc ?s = Some q" using assms(4) by (simp add: myproc_def)
  obtain g where g: "pipe_wf (g (pipes s p))" "pipe_q (g (pipes s p)) = pipe_q (pipes s p) @ take ?k bs"
    "pipewrite_loop p bs ?s =
      (if length bs \<le> ?k then Inr (Write_done, upd_pipe p g ?s)
       else if \<not> readopen (pipes s p) \<or> killed (ptable s q) then Inr (Write_broken, upd_pipe p g ?s)
       else Inr (Write_sleeps (drop ?k bs), wakeup1 (Chan_nread p) (upd_pipe p g ?s)))"
    using pipewrite_loop_q [of ?s p q bs] assms(1,2) my by auto
  have h: "removeAll (LK_pipe p) (held s) = held s" using assms(3) by simp
  show ?thesis
    using g assms(2,3,5) h unfolding Let_def pipewrite_def
    by (auto simp: wakeup_Inr ptable_wakeup1)
qed

text \<open>
  C13: reading from a pipe. \<open>piperead\<close> sleeps exactly when the queue is empty, a writer is left and the
  process has not been killed. Otherwise it returns the oldest bytes of the queue in order, as many
  as were asked for or are there, removes exactly those, and makes the sleeping writers runnable; an
  empty queue with no writer reads as zero bytes.
\<close>

theorem piperead_takes:
  assumes "pipe_wf (pipes s p)" "LK_ptable \<notin> set (held s)" "LK_pipe p \<notin> set (held s)" "myproc s = Some q"
  shows "let bs = take (nat n) (pipe_q (pipes s p)) in
    if pipe_q (pipes s p) = [] \<and> writeopen (pipes s p) then
      piperead p n s = (if killed (ptable s q) then Inr (- 1, [], s) else Inl (Sleeps (Chan_nread p)))
    else \<exists>s'. piperead p n s = Inr (int (length bs), bs, s') \<and> held s' = held s \<and> pipe_wf (pipes s' p) \<and>
      pipe_q (pipes s' p) = drop (nat n) (pipe_q (pipes s p)) \<and>
      (\<forall>r < NPROC. state (ptable s r) = SLEEPING \<and> pchan (ptable s r) = Some (Chan_nwrite p) \<longrightarrow>
         state (ptable s' r) = RUNNABLE)"
proof -
  let ?s = "s\<lparr>held := LK_pipe p # held s\<rparr>"
  have my: "myproc ?s = Some q" using assms(4) by (simp add: myproc_def)
  have h: "removeAll (LK_pipe p) (held s) = held s" using assms(3) by simp
  obtain g where g: "piperead_loop p (nat n) ?s = (take (nat n) (pipe_q (pipes s p)), upd_pipe p g ?s)"
    "pipe_wf (g (pipes s p))" "pipe_q (g (pipes s p)) = drop (nat n) (pipe_q (pipes s p))"
    using piperead_loop_q [of ?s p "nat n"] assms(1) by auto
  show ?thesis
    using g assms(2,3) my h unfolding Let_def piperead_def
    by (auto simp: pipe_empty_iff wakeup_Inr ptable_wakeup1)
qed

text \<open>A pipe whose counters are about to wrap around: the bytes 7 and 8 lie on both sides of the wrap.\<close>

definition pipe_demo :: pipe where
  "pipe_demo = \<lparr>pdata = (replicate 512 0)[511 := 7, 0 := 8], nread = - 1, nwrite = 1, readopen = True, writeopen = True\<rparr>"

definition file_demo :: file_st where
  "file_demo = cons_st.extend cons_demo (file_st.fields
     (\<lambda>_. \<lparr>ftyp = FD_PIPE, fref = 1, freadable = True, fwritable = True, fpipe = 0x80200000, fip = 0, foff = 0\<rparr>)
     (\<lambda>_. pipe_demo))"

lemma file_demo_sel [simp]:
  "pipes file_demo p = pipe_demo" "held file_demo = []" "myproc file_demo = Some 0" "killed (ptable file_demo 0) = False"
  by (simp_all add: file_demo_def cons_st.defs file_st.defs cons_demo_def myproc_def bss_proc_def)

lemma pipe_demo_q: "pipe_wf pipe_demo" "pipe_q pipe_demo = [7, 8]" "readopen pipe_demo" "writeopen pipe_demo"
proof -
  have n: "unat (nwrite pipe_demo - nread pipe_demo) = 2" by (simp add: pipe_demo_def)
  show "pipe_wf pipe_demo" using n by (simp add: pipe_wf_def PIPESIZE_def) (simp add: pipe_demo_def)
  have "pipe_slot (- 1) = 511" "pipe_slot 0 = 0" by (simp_all add: pipe_slot_def PIPESIZE_def)
  then show "pipe_q pipe_demo = [7, 8]"
    unfolding pipe_q_def n by (simp add: upt_rec numeral_2_eq_2 pipe_demo_def)
  show "readopen pipe_demo" "writeopen pipe_demo" by (simp_all add: pipe_demo_def)
qed

theorem pipewrite_appends_witness:
  "(\<exists>s'. pipewrite 0x80200000 [9] 1 file_demo = Inr (1, s') \<and> pipe_q (pipes s' 0x80200000) = [7, 8, 9]) \<and>
   pipewrite 0x80200000 (replicate 600 1) 600 file_demo = Inl (Sleeps (Chan_nwrite 0x80200000))"
  using pipewrite_appends [of file_demo "0x80200000" 0 1 "[9]"] pipewrite_appends [of file_demo "0x80200000" 0 600 "replicate 600 1"]
  by (auto simp: pipe_demo_q PIPESIZE_def Let_def)

theorem piperead_takes_witness:
  "\<exists>s'. piperead 0x80200000 1 file_demo = Inr (1, [7], s') \<and> pipe_q (pipes s' 0x80200000) = [8]"
  using piperead_takes [of file_demo "0x80200000" 0 1] by (auto simp: pipe_demo_q Let_def)

end
