(* ===== verification/Process.thy ===== *)
theory Process
  imports File_Pipe Vm_User
begin

text \<open>
  The life of a process: \<open>userinit\<close>, \<open>growproc\<close>, \<open>fork\<close>, \<open>exit\<close>, \<open>wait\<close> and \<open>forkret\<close> of \<open>xv6/proc.c\<close>, with
  the layout of \<open>struct trapframe\<close> of \<open>xv6/x86.h\<close>.

  The image of the first program is linked into the kernel; its address and size are arguments of
  \<open>userinit\<close>. A process name is the string without its terminating zero. \<open>exit\<close> ends in the
  scheduler: its result is the state after \<open>sched\<close> has left the process. A parent that has to
  wait for its children has the outcome \<open>Sleeps\<close>. \<open>procdump\<close> only prints.
\<close>

definition NOFILE :: nat where "NOFILE = 16"
definition PNAME_SIZE :: nat where "PNAME_SIZE = 16"

record kern_st = file_st +
  first :: bool
  ticks :: u32

definition tf_eax :: u32 where "tf_eax = 28"
definition tf_es :: u32 where "tf_es = 40"
definition tf_ds :: u32 where "tf_ds = 44"
definition tf_eip :: u32 where "tf_eip = 56"
definition tf_cs :: u32 where "tf_cs = 60"
definition tf_eflags :: u32 where "tf_eflags = 64"
definition tf_esp :: u32 where "tf_esp = 68"
definition tf_ss :: u32 where "tf_ss = 72"

definition USER_CS :: u16 where "USER_CS = push_bit 3 3 OR 3"
definition USER_DS :: u16 where "USER_DS = push_bit 3 4 OR 3"
definition FL_IF :: u32 where "FL_IF = 0x200"

definition store16 :: "mem \<Rightarrow> u32 \<Rightarrow> u16 \<Rightarrow> mem" where
  "store16 m a w = m(a := ucast w, a + 1 := ucast (drop_bit 8 w))"

definition safe_name :: "u8 list \<Rightarrow> u8 list" where
  "safe_name nm = take (PNAME_SIZE - 1) (takeWhile (\<lambda>c. c \<noteq> 0) nm)"

section \<open>The first process\<close>

definition init_tf :: "u32 \<Rightarrow> mem \<Rightarrow> mem" where
  "init_tf t m =
     (let m = memset m t 0 TF_SIZE;
          m = store16 m (t + tf_cs) USER_CS;
          m = store16 m (t + tf_ds) USER_DS;
          m = store16 m (t + tf_es) USER_DS;
          m = store16 m (t + tf_ss) USER_DS;
          m = store32 m (t + tf_eflags) FL_IF;
          m = store32 m (t + tf_esp) PGSIZE in
      store32 m (t + tf_eip) 0)"

definition userinit :: "u32 \<Rightarrow> u32 \<Rightarrow> 'a kern_st_scheme \<Rightarrow> 'a kern_st_scheme res" where
  "userinit initcode_start initcode_size s =
     bind_r (allocproc s) (\<lambda>(po, s).
     let s = s\<lparr>initproc := po\<rparr> in
     case po of None \<Rightarrow> Inl (Faults ''userinit'') | Some p \<Rightarrow>
     bind_r (setupkvm s) (\<lambda>(pd, s).
     let s = upd_proc p (\<lambda>q. q\<lparr>pgdir := pd\<rparr>) s in
     if pd = 0 then Inl (Panic ''userinit: out of memory?'')
     else
       bind_r (inituvm pd initcode_start initcode_size s) (\<lambda>s.
       let s = upd_proc p (\<lambda>q. q\<lparr>psz := PGSIZE\<rparr>) s;
           s = s\<lparr>mem := init_tf (tf (ptable s p)) (mem s)\<rparr>;
           s = upd_proc p (\<lambda>q. q\<lparr>pname := safe_name (map of_char ''initcode'')\<rparr>) s in
       bind_r (namei [ch_slash] s) (\<lambda>(d, s).
       let s = upd_proc p (\<lambda>q. q\<lparr>cwd := d\<rparr>) s in
       bind_r (acq LK_ptable s) (\<lambda>s.
       rel LK_ptable (upd_proc p (\<lambda>q. q\<lparr>state := RUNNABLE\<rparr>) s))))))"

section \<open>Memory of a process\<close>

definition growproc :: "int \<Rightarrow> 'a kern_st_scheme \<Rightarrow> (int \<times> 'a kern_st_scheme) res" where
  "growproc n s =
     (case myproc s of None \<Rightarrow> Inl (Faults ''growproc'') | Some p \<Rightarrow>
      let sz = psz (ptable s p); pd = pgdir (ptable s p) in
      bind_r (if n > 0 then allocuvm pd sz (sz + word_of_int n) s
              else if n < 0 then deallocuvm pd sz (sz + word_of_int n) s
              else Inr (sz, s)) (\<lambda>(sz', s).
      if n \<noteq> 0 \<and> sz' = 0 then Inr (- 1, s)
      else
        bind_r (switchuvm p (upd_proc p (\<lambda>q. q\<lparr>psz := sz'\<rparr>) s)) (\<lambda>s. Inr (0, s))))"

section \<open>Creating a process\<close>

fun fork_files :: "nat \<Rightarrow> nat \<Rightarrow> nat list \<Rightarrow> 'a kern_st_scheme \<Rightarrow> 'a kern_st_scheme res" where
  "fork_files p np [] s = Inr s"
| "fork_files p np (i # is) s =
     (case ofile (ptable s p) i of
        None \<Rightarrow> fork_files p np is s
      | Some f \<Rightarrow>
          bind_r (filedup f s) (\<lambda>(f, s).
          fork_files p np is (upd_proc np (\<lambda>q. q\<lparr>ofile := (ofile q)(i := Some f)\<rparr>) s)))"

definition fork :: "'a kern_st_scheme \<Rightarrow> (int \<times> 'a kern_st_scheme) res" where
  "fork s =
     (case myproc s of None \<Rightarrow> Inl (Faults ''fork'') | Some p \<Rightarrow>
      bind_r (allocproc s) (\<lambda>(npo, s).
      case npo of None \<Rightarrow> Inr (- 1, s) | Some np \<Rightarrow>
      bind_r (copyuvm (pgdir (ptable s p)) (psz (ptable s p)) s) (\<lambda>(pd, s).
      let s = upd_proc np (\<lambda>q. q\<lparr>pgdir := pd\<rparr>) s in
      if pd = 0 then
        bind_r (kfree (kstack (ptable s np)) s) (\<lambda>s.
        Inr (- 1, upd_proc np (\<lambda>q. q\<lparr>kstack := 0, state := UNUSED\<rparr>) s))
      else
        let s = upd_proc np (\<lambda>q. q\<lparr>psz := psz (ptable s p), parent := Some p\<rparr>) s;
            s = s\<lparr>mem := memmove (mem s) (tf (ptable s np)) (tf (ptable s p)) TF_SIZE\<rparr>;
            s = s\<lparr>mem := store32 (mem s) (tf (ptable s np) + tf_eax) 0\<rparr> in
        bind_r (fork_files p np [0..<NOFILE] s) (\<lambda>s.
        case cwd (ptable s p) of None \<Rightarrow> Inl (Faults ''fork'') | Some d \<Rightarrow>
        bind_r (idup d s) (\<lambda>(d, s).
        let s = upd_proc np (\<lambda>q. q\<lparr>cwd := Some d, pname := safe_name (pname (ptable s p))\<rparr>) s;
            n = pid (ptable s np) in
        bind_r (acq LK_ptable s) (\<lambda>s.
        bind_r (rel LK_ptable (upd_proc np (\<lambda>q. q\<lparr>state := RUNNABLE\<rparr>) s)) (\<lambda>s. Inr (n, s))))))))"

section \<open>Ending a process\<close>

fun exit_files :: "nat \<Rightarrow> nat list \<Rightarrow> 'a kern_st_scheme \<Rightarrow> 'a kern_st_scheme res" where
  "exit_files p [] s = Inr s"
| "exit_files p (i # is) s =
     (case ofile (ptable s p) i of
        None \<Rightarrow> exit_files p is s
      | Some f \<Rightarrow>
          bind_r (fileclose f s) (\<lambda>s.
          exit_files p is (upd_proc p (\<lambda>q. q\<lparr>ofile := (ofile q)(i := None)\<rparr>) s)))"

definition wakeup1_proc :: "nat option \<Rightarrow> 'a proc_st_scheme \<Rightarrow> 'a proc_st_scheme" where
  "wakeup1_proc po s = (case po of None \<Rightarrow> s | Some p \<Rightarrow> wakeup1 (Chan_proc p) s)"

fun pass_children :: "nat \<Rightarrow> nat list \<Rightarrow> 'a proc_st_scheme \<Rightarrow> 'a proc_st_scheme" where
  "pass_children p [] s = s"
| "pass_children p (c # cs) s =
     pass_children p cs
       (if parent (ptable s c) = Some p then
          let s = upd_proc c (\<lambda>q. q\<lparr>parent := initproc s\<rparr>) s in
          if state (ptable s c) = ZOMBIE then wakeup1_proc (initproc s) s else s
        else s)"

text \<open>The part of \<open>exit\<close> that runs under the lock of the process table.\<close>

definition exit_locked :: "nat \<Rightarrow> 'a proc_st_scheme \<Rightarrow> 'a proc_st_scheme res" where
  "exit_locked p s =
     (let s = wakeup1_proc (parent (ptable s p)) s;
          s = pass_children p [0..<NPROC] s in
      sched (upd_proc p (\<lambda>q. q\<lparr>state := ZOMBIE\<rparr>) s))"

definition exit :: "'a kern_st_scheme \<Rightarrow> 'a kern_st_scheme res" where
  "exit s =
     (case myproc s of None \<Rightarrow> Inl (Faults ''exit'') | Some p \<Rightarrow>
      if initproc s = Some p then Inl (Panic ''init exiting'')
      else
        bind_r (exit_files p [0..<NOFILE] s) (\<lambda>s.
        bind_r (begin_op s) (\<lambda>s.
        bind_r (case cwd (ptable s p) of None \<Rightarrow> Inl (Faults ''iput'') | Some d \<Rightarrow> iput d s) (\<lambda>s.
        bind_r (end_op s) (\<lambda>s.
        bind_r (acq LK_ptable (upd_proc p (\<lambda>q. q\<lparr>cwd := None\<rparr>) s)) (exit_locked p))))))"

definition reap :: "nat \<Rightarrow> 'a kern_st_scheme \<Rightarrow> (int \<times> 'a kern_st_scheme) res" where
  "reap c s =
     (let n = pid (ptable s c) in
      bind_r (kfree (kstack (ptable s c)) s) (\<lambda>s.
      let s = upd_proc c (\<lambda>q. q\<lparr>kstack := 0\<rparr>) s in
      bind_r (freevm (pgdir (ptable s c)) s) (\<lambda>s.
      let s = upd_proc c (\<lambda>q. q\<lparr>pid := 0, parent := None, pname := [], killed := False, state := UNUSED\<rparr>) s in
      bind_r (rel LK_ptable s) (\<lambda>s. Inr (n, s)))))"

definition wait :: "'a kern_st_scheme \<Rightarrow> (int \<times> 'a kern_st_scheme) res" where
  "wait s =
     (case myproc s of None \<Rightarrow> Inl (Faults ''wait'') | Some p \<Rightarrow>
      bind_r (acq LK_ptable s) (\<lambda>s.
      case find_proc (\<lambda>q. parent q = Some p \<and> state q = ZOMBIE) s of
        Some c \<Rightarrow> reap c s
      | None \<Rightarrow>
          if find_proc (\<lambda>q. parent q = Some p) s = None \<or> killed (ptable s p)
          then bind_r (rel LK_ptable s) (\<lambda>s. Inr (- 1, s))
          else Inl (Sleeps (Chan_proc p))))"

definition forkret :: "'a kern_st_scheme \<Rightarrow> 'a kern_st_scheme res" where
  "forkret s =
     bind_r (rel LK_ptable s) (\<lambda>s.
     if first s then bind_r (iinit ROOTDEV (s\<lparr>first := False\<rparr>)) (initlog ROOTDEV)
     else Inr s)"

end
