(* ===== verification/Exec.thy ===== *)
theory Exec
  imports Process
begin

text \<open>
  Loading a program: \<open>loaduvm\<close> of \<open>xv6/vm.c\<close>, \<open>xv6/exec.c\<close> and the headers of \<open>xv6/elf.h\<close>.

  The path and the arguments are byte strings without their terminating zeros: the system call has
  fetched them from the old address space, which \<open>exec\<close> does not change before it commits.
  \<open>copyout_bytes\<close> is \<open>copyout\<close> with its source given as bytes. The message printed when the program
  does not exist is not modelled.
\<close>

definition MAXARG :: nat where "MAXARG = 32"
definition ELF_MAGIC :: u32 where "ELF_MAGIC = 0x464C457F"
definition ELF_PROG_LOAD :: u32 where "ELF_PROG_LOAD = 1"
definition ELFHDR_SIZE :: nat where "ELFHDR_SIZE = 52"
definition PROGHDR_SIZE :: nat where "PROGHDR_SIZE = 32"

record elfhdr =
  e_magic :: u32
  e_entry :: u32
  e_phoff :: u32
  e_phnum :: u16

record proghdr =
  ph_type :: u32
  ph_off :: u32
  ph_vaddr :: u32
  ph_filesz :: u32
  ph_memsz :: u32

definition decode_elfhdr :: "u8 list \<Rightarrow> elfhdr" where
  "decode_elfhdr d = \<lparr>e_magic = u32_at d 0, e_entry = u32_at d 24, e_phoff = u32_at d 28, e_phnum = u16_at d 44\<rparr>"

definition decode_proghdr :: "u8 list \<Rightarrow> proghdr" where
  "decode_proghdr d = \<lparr>ph_type = u32_at d 0, ph_off = u32_at d 4, ph_vaddr = u32_at d 8,
     ph_filesz = u32_at d 16, ph_memsz = u32_at d 20\<rparr>"

fun store_bytes :: "mem \<Rightarrow> u32 \<Rightarrow> u8 list \<Rightarrow> mem" where
  "store_bytes m a [] = m"
| "store_bytes m a (b # bs) = store_bytes (m(a := b)) (a + 1) bs"

section \<open>Filling pages\<close>

fun loaduvm_loop :: "nat \<Rightarrow> u32 \<Rightarrow> u32 \<Rightarrow> nat \<Rightarrow> u32 \<Rightarrow> u32 \<Rightarrow> u32 \<Rightarrow> 'a cons_st_scheme \<Rightarrow> (int \<times> 'a cons_st_scheme) res" where
  "loaduvm_loop 0 pd addr ip offset sz i s = Inl NoFuel"
| "loaduvm_loop (Suc fuel) pd addr ip offset sz i s =
     (if \<not> i < sz then Inr (0, s)
      else
        bind_r (walkpgdir pd (addr + i) False s) (\<lambda>(pte, s).
        if pte = 0 then Inl (Panic ''loaduvm: address should exist'')
        else
          let pa = PTE_ADDR (load32 (mem s) pte);
              n = (if sz - i < PGSIZE then sz - i else PGSIZE) in
          bind_r (readi ip (offset + i) n s) (\<lambda>(r, bs, s).
          let s = s\<lparr>mem := store_bytes (mem s) (P2V pa) bs\<rparr> in
          if word_of_int r \<noteq> n then Inr (- 1, s)
          else loaduvm_loop fuel pd addr ip offset sz (i + PGSIZE) s)))"

definition loaduvm :: "u32 \<Rightarrow> u32 \<Rightarrow> nat \<Rightarrow> u32 \<Rightarrow> u32 \<Rightarrow> 'a cons_st_scheme \<Rightarrow> (int \<times> 'a cons_st_scheme) res" where
  "loaduvm pd addr ip offset sz s =
     (if addr mod PGSIZE \<noteq> 0 then Inl (Panic ''loaduvm: addr must be page aligned'')
      else loaduvm_loop (unat sz div unat PGSIZE + 2) pd addr ip offset sz 0 s)"

function copyout_bytes :: "u32 \<Rightarrow> u32 \<Rightarrow> u8 list \<Rightarrow> 'a kmem_st_scheme \<Rightarrow> (int \<times> 'a kmem_st_scheme) res" where
  "copyout_bytes pd va bs s =
     (if bs = [] then Inr (0, s)
      else
        let va0 = PGROUNDDOWN va in
        bind_r (uva2ka pd va0 s) (\<lambda>pa0.
        if pa0 = 0 then Inr (- 1, s)
        else
          let n = 4096 - unat va mod 4096 in
          copyout_bytes pd (va0 + PGSIZE) (drop n bs)
            (s\<lparr>mem := store_bytes (mem s) (pa0 + (va - va0)) (take n bs)\<rparr>)))"
  by pat_completeness auto
termination
proof (relation "measure (\<lambda>(pd, va, bs, s). length bs)", goal_cases)
  case (2 pd va bs s va0 pa0 n)
  have "0 < length bs" "0 < n" using 2 mod_less_divisor [of 4096 "unat va"] by simp_all
  then have "length bs - n < length bs" by simp
  then show ?case by simp
qed simp

declare copyout_bytes.simps [simp del]

section \<open>The system call\<close>

fun load_segments :: "nat \<Rightarrow> u32 \<Rightarrow> nat \<Rightarrow> u32 \<Rightarrow> u32 \<Rightarrow> 'a kern_st_scheme \<Rightarrow> (u32 option \<times> 'a kern_st_scheme) res" where
  "load_segments 0 pd ip off sz s = Inr (Some sz, s)"
| "load_segments (Suc k) pd ip off sz s =
     bind_r (readi ip off (of_nat PROGHDR_SIZE) s) (\<lambda>(r, d, s).
     if r \<noteq> int PROGHDR_SIZE then Inr (None, s)
     else
       let ph = decode_proghdr d in
       if ph_type ph \<noteq> ELF_PROG_LOAD then load_segments k pd ip (off + of_nat PROGHDR_SIZE) sz s
       else if ph_memsz ph < ph_filesz ph then Inr (None, s)
       else if ph_vaddr ph + ph_memsz ph < ph_vaddr ph then Inr (None, s)
       else
         bind_r (allocuvm pd sz (ph_vaddr ph + ph_memsz ph) s) (\<lambda>(sz, s).
         if sz = 0 then Inr (None, s)
         else if ph_vaddr ph mod PGSIZE \<noteq> 0 then Inr (None, s)
         else
           bind_r (loaduvm pd (ph_vaddr ph) ip (ph_off ph) (ph_filesz ph) s) (\<lambda>(r, s).
           if r < 0 then Inr (None, s)
           else load_segments k pd ip (off + of_nat PROGHDR_SIZE) sz s)))"

fun push_args :: "u32 \<Rightarrow> u8 list list \<Rightarrow> nat \<Rightarrow> u32 \<Rightarrow> u32 list \<Rightarrow> 'a kern_st_scheme \<Rightarrow>
    ((u32 \<times> u32 list) option \<times> 'a kern_st_scheme) res" where
  "push_args pd [] argc sp us s = Inr (Some (sp, us), s)"
| "push_args pd (a # as) argc sp us s =
     (if argc \<ge> MAXARG then Inr (None, s)
      else
        let sp = (sp - (of_nat (length a) + 1)) AND NOT 3 in
        bind_r (copyout_bytes pd sp (a @ [0]) s) (\<lambda>(r, s).
        if r < 0 then Inr (None, s)
        else push_args pd as (Suc argc) sp (us @ [sp]) s))"

definition exec_bad :: "u32 \<Rightarrow> nat option \<Rightarrow> 'a kern_st_scheme \<Rightarrow> (int \<times> 'a kern_st_scheme) res" where
  "exec_bad pd ipo s =
     bind_r (if pd \<noteq> 0 then freevm pd s else Inr s) (\<lambda>s.
     bind_r (case ipo of None \<Rightarrow> Inr s | Some ip \<Rightarrow> bind_r (iunlockput ip s) end_op) (\<lambda>s. Inr (- 1, s)))"

definition path_last :: "u8 list \<Rightarrow> u8 list" where
  "path_last path = rev (takeWhile (\<lambda>c. c \<noteq> ch_slash) (rev path))"

definition exec_commit :: "u8 list \<Rightarrow> u32 \<Rightarrow> u32 \<Rightarrow> u32 \<Rightarrow> u32 \<Rightarrow> 'a kern_st_scheme \<Rightarrow> (int \<times> 'a kern_st_scheme) res" where
  "exec_commit path pd sz entr sp s =
     (case myproc s of None \<Rightarrow> Inl (Faults ''exec'') | Some p \<Rightarrow>
      let s = upd_proc p (\<lambda>q. q\<lparr>pname := safe_name (path_last path)\<rparr>) s;
          oldpgdir = pgdir (ptable s p);
          s = upd_proc p (\<lambda>q. q\<lparr>pgdir := pd, psz := sz\<rparr>) s;
          t = tf (ptable s p);
          s = s\<lparr>mem := store32 (store32 (mem s) (t + tf_eip) entr) (t + tf_esp) sp\<rparr> in
      bind_r (switchuvm p s) (\<lambda>s.
      bind_r (freevm oldpgdir s) (\<lambda>s. Inr (0, s))))"

definition exec_stack :: "u8 list \<Rightarrow> u8 list list \<Rightarrow> u32 \<Rightarrow> u32 \<Rightarrow> u32 \<Rightarrow> 'a kern_st_scheme \<Rightarrow> (int \<times> 'a kern_st_scheme) res" where
  "exec_stack path argv pd sz entr s =
     (let sz = PGROUNDUP sz in
      bind_r (allocuvm pd sz (sz + 2 * PGSIZE) s) (\<lambda>(sz, s).
      if sz = 0 then exec_bad pd None s
      else
        bind_r (clearpteu pd (sz - 2 * PGSIZE) s) (\<lambda>s.
        bind_r (push_args pd argv 0 sz [] s) (\<lambda>(r, s).
        case r of None \<Rightarrow> exec_bad pd None s
        | Some (sp, us) \<Rightarrow>
            let argc = of_nat (length us) :: u32;
                ustack = [0xFFFFFFFF, argc, sp - (argc + 1) * 4] @ us @ [0];
                sp = sp - (3 + argc + 1) * 4 in
            bind_r (copyout_bytes pd sp (concat (map le32 ustack)) s) (\<lambda>(r, s).
            if r < 0 then exec_bad pd None s
            else exec_commit path pd sz entr sp s)))))"

definition exec :: "u8 list \<Rightarrow> u8 list list \<Rightarrow> 'a kern_st_scheme \<Rightarrow> (int \<times> 'a kern_st_scheme) res" where
  "exec path argv s =
     bind_r (begin_op s) (\<lambda>s.
     bind_r (namei path s) (\<lambda>(ipo, s).
     case ipo of None \<Rightarrow> bind_r (end_op s) (\<lambda>s. Inr (- 1, s))
     | Some ip \<Rightarrow>
         bind_r (ilock (Some ip) s) (\<lambda>s.
         bind_r (readi ip 0 (of_nat ELFHDR_SIZE) s) (\<lambda>(r, d, s).
         if r \<noteq> int ELFHDR_SIZE then exec_bad 0 (Some ip) s
         else
           let elf = decode_elfhdr d in
           if e_magic elf \<noteq> ELF_MAGIC then exec_bad 0 (Some ip) s
           else
             bind_r (setupkvm s) (\<lambda>(pd, s).
             if pd = 0 then exec_bad 0 (Some ip) s
             else
               bind_r (load_segments (unat (e_phnum elf)) pd ip (e_phoff elf) 0 s) (\<lambda>(szo, s).
               case szo of None \<Rightarrow> exec_bad pd (Some ip) s
               | Some sz \<Rightarrow>
                   bind_r (iunlockput ip s) (\<lambda>s.
                   bind_r (end_op s) (exec_stack path argv pd sz (e_entry elf)))))))))"

end
