(* ===== verification/Syscall.thy ===== *)
theory Syscall
  imports Exec
begin

text \<open>
  The system-call layer: argument fetching and dispatch (\<open>xv6/syscall.c\<close>), the process calls
  (\<open>xv6/sysproc.c\<close>) and the file-system calls (\<open>xv6/sysfile.c\<close>).

  The kernel reads and writes user memory through the page table of the current process: \<open>uload\<close> and
  \<open>ustore\<close> go through it, and an address that is not mapped is a fault. A fetched string is its
  bytes, and a buffer argument is copied from or to user memory around the call that uses it; the
  pages below the size of a process are mapped, so this order shows no fault that the source would
  not have. A call returns \<open>None\<close> in place of a value when it does not return, which is \<open>exit\<close>.
\<close>

definition O_WRONLY :: u32 where "O_WRONLY = 1"
definition O_RDWR :: u32 where "O_RDWR = 2"
definition O_CREATE :: u32 where "O_CREATE = 0x200"

section \<open>User memory\<close>

definition uaddr :: "u32 \<Rightarrow> 'a proc_st_scheme \<Rightarrow> u32 res" where
  "uaddr va s =
     (case myproc s of None \<Rightarrow> Inl (Faults ''no process'') | Some p \<Rightarrow>
      case umap (mem s) (pgdir (ptable s p)) va of None \<Rightarrow> Inl (Faults ''page fault'')
      | Some ka \<Rightarrow> Inr (ka + va mod PGSIZE))"

definition uload :: "u32 \<Rightarrow> 'a proc_st_scheme \<Rightarrow> u8 res" where
  "uload va s = bind_r (uaddr va s) (\<lambda>a. Inr (mem s a))"

fun uloads :: "u32 \<Rightarrow> nat \<Rightarrow> 'a proc_st_scheme \<Rightarrow> u8 list res" where
  "uloads va 0 s = Inr []"
| "uloads va (Suc n) s = bind_r (uload va s) (\<lambda>b. bind_r (uloads (va + 1) n s) (\<lambda>bs. Inr (b # bs)))"

fun ustores :: "u32 \<Rightarrow> u8 list \<Rightarrow> 'a proc_st_scheme \<Rightarrow> 'a proc_st_scheme res" where
  "ustores va [] s = Inr s"
| "ustores va (b # bs) s = bind_r (uaddr va s) (\<lambda>a. ustores (va + 1) bs (s\<lparr>mem := (mem s)(a := b)\<rparr>))"

section \<open>Arguments\<close>

definition curproc :: "'a proc_st_scheme \<Rightarrow> nat res" where
  "curproc s = (case myproc s of None \<Rightarrow> Inl (Faults ''myproc'') | Some p \<Rightarrow> Inr p)"

definition fetchint :: "u32 \<Rightarrow> 'a proc_st_scheme \<Rightarrow> u32 option res" where
  "fetchint addr s =
     bind_r (curproc s) (\<lambda>p.
     if addr \<ge> psz (ptable s p) \<or> addr + 4 > psz (ptable s p) then Inr None
     else bind_r (uloads addr 4 s) (\<lambda>bs. Inr (Some (of_le32 bs))))"

fun fetchstr_from :: "nat \<Rightarrow> u32 \<Rightarrow> 'a proc_st_scheme \<Rightarrow> u8 list option res" where
  "fetchstr_from 0 a s = Inr None"
| "fetchstr_from (Suc n) a s =
     bind_r (uload a s) (\<lambda>b.
     if b = 0 then Inr (Some [])
     else bind_r (fetchstr_from n (a + 1) s) (\<lambda>r. Inr (map_option (\<lambda>bs. b # bs) r)))"

definition fetchstr :: "u32 \<Rightarrow> 'a proc_st_scheme \<Rightarrow> u8 list option res" where
  "fetchstr addr s =
     bind_r (curproc s) (\<lambda>p.
     if addr \<ge> psz (ptable s p) then Inr None
     else fetchstr_from (unat (psz (ptable s p)) - unat addr) addr s)"

definition argint :: "nat \<Rightarrow> 'a proc_st_scheme \<Rightarrow> u32 option res" where
  "argint n s =
     bind_r (curproc s) (\<lambda>p. fetchint (load32 (mem s) (tf (ptable s p) + tf_esp) + 4 + 4 * of_nat n) s)"

definition argptr :: "nat \<Rightarrow> int \<Rightarrow> 'a proc_st_scheme \<Rightarrow> u32 option res" where
  "argptr n len s =
     bind_r (curproc s) (\<lambda>p.
     bind_r (argint n s) (\<lambda>r.
     case r of None \<Rightarrow> Inr None
     | Some i \<Rightarrow>
         if len < 0 \<or> i \<ge> psz (ptable s p) \<or> i + word_of_int len > psz (ptable s p) then Inr None
         else Inr (Some i)))"

definition argstr :: "nat \<Rightarrow> 'a proc_st_scheme \<Rightarrow> u8 list option res" where
  "argstr n s = bind_r (argint n s) (\<lambda>r. case r of None \<Rightarrow> Inr None | Some addr \<Rightarrow> fetchstr addr s)"

section \<open>Calls on processes\<close>

definition sys_kill :: "'a kern_st_scheme \<Rightarrow> (int \<times> 'a kern_st_scheme) res" where
  "sys_kill s = bind_r (argint 0 s) (\<lambda>r. case r of None \<Rightarrow> Inr (- 1, s) | Some n \<Rightarrow> kill (sint n) s)"

definition sys_getpid :: "'a kern_st_scheme \<Rightarrow> (int \<times> 'a kern_st_scheme) res" where
  "sys_getpid s = bind_r (curproc s) (\<lambda>p. Inr (pid (ptable s p), s))"

definition sys_sbrk :: "'a kern_st_scheme \<Rightarrow> (int \<times> 'a kern_st_scheme) res" where
  "sys_sbrk s =
     bind_r (argint 0 s) (\<lambda>r. case r of None \<Rightarrow> Inr (- 1, s) | Some n \<Rightarrow>
     bind_r (curproc s) (\<lambda>p.
     let addr = sint (psz (ptable s p)) in
     bind_r (growproc (sint n) s) (\<lambda>(r, s). Inr (if r < 0 then - 1 else addr, s))))"

text \<open>The loop of \<open>sys_sleep\<close>, entered again each time the process wakes up.\<close>

definition sys_sleep_loop :: "u32 \<Rightarrow> u32 \<Rightarrow> 'a kern_st_scheme \<Rightarrow> (int \<times> 'a kern_st_scheme) res" where
  "sys_sleep_loop ticks0 n s =
     (if ticks s - ticks0 < n then
        bind_r (curproc s) (\<lambda>p.
        if killed (ptable s p) then bind_r (rel LK_ticks s) (\<lambda>s. Inr (- 1, s))
        else Inl (Sleeps Chan_ticks))
      else bind_r (rel LK_ticks s) (\<lambda>s. Inr (0, s)))"

definition sys_sleep :: "'a kern_st_scheme \<Rightarrow> (int \<times> 'a kern_st_scheme) res" where
  "sys_sleep s =
     bind_r (argint 0 s) (\<lambda>r. case r of None \<Rightarrow> Inr (- 1, s) | Some n \<Rightarrow>
     bind_r (acq LK_ticks s) (\<lambda>s. sys_sleep_loop (ticks s) n s))"

definition sys_uptime :: "'a kern_st_scheme \<Rightarrow> (int \<times> 'a kern_st_scheme) res" where
  "sys_uptime s =
     bind_r (acq LK_ticks s) (\<lambda>s.
     let xticks = ticks s in
     bind_r (rel LK_ticks s) (\<lambda>s. Inr (sint xticks, s)))"

section \<open>Calls on open files\<close>

definition argfd :: "nat \<Rightarrow> 'a kern_st_scheme \<Rightarrow> (nat \<times> nat) option res" where
  "argfd n s =
     bind_r (argint n s) (\<lambda>r. case r of None \<Rightarrow> Inr None | Some fd \<Rightarrow>
     if sint fd < 0 \<or> sint fd \<ge> int NOFILE then Inr None
     else
       bind_r (curproc s) (\<lambda>p.
       case ofile (ptable s p) (unat fd) of None \<Rightarrow> Inr None | Some f \<Rightarrow> Inr (Some (unat fd, f))))"

definition fdalloc :: "nat \<Rightarrow> 'a kern_st_scheme \<Rightarrow> (int \<times> 'a kern_st_scheme) res" where
  "fdalloc f s =
     bind_r (curproc s) (\<lambda>p.
     case find (\<lambda>fd. ofile (ptable s p) fd = None) [0..<NOFILE] of
       Some fd \<Rightarrow> Inr (int fd, upd_proc p (\<lambda>q. q\<lparr>ofile := (ofile q)(fd := Some f)\<rparr>) s)
     | None \<Rightarrow> Inr (- 1, s))"

definition fdclear :: "nat \<Rightarrow> 'a kern_st_scheme \<Rightarrow> 'a kern_st_scheme res" where
  "fdclear fd s =
     bind_r (curproc s) (\<lambda>p. Inr (upd_proc p (\<lambda>q. q\<lparr>ofile := (ofile q)(fd := None)\<rparr>) s))"

definition sys_dup :: "'a kern_st_scheme \<Rightarrow> (int \<times> 'a kern_st_scheme) res" where
  "sys_dup s =
     bind_r (argfd 0 s) (\<lambda>r. case r of None \<Rightarrow> Inr (- 1, s) | Some (_, f) \<Rightarrow>
     bind_r (fdalloc f s) (\<lambda>(fd, s).
     if fd < 0 then Inr (- 1, s)
     else bind_r (filedup f s) (\<lambda>(_, s). Inr (fd, s))))"

definition arg_rw :: "'a kern_st_scheme \<Rightarrow> (nat \<times> int \<times> u32) option res" where
  "arg_rw s =
     bind_r (argfd 0 s) (\<lambda>r. case r of None \<Rightarrow> Inr None | Some (_, f) \<Rightarrow>
     bind_r (argint 2 s) (\<lambda>r. case r of None \<Rightarrow> Inr None | Some n \<Rightarrow>
     bind_r (argptr 1 (sint n) s) (\<lambda>r. Inr (map_option (\<lambda>p. (f, sint n, p)) r))))"

definition sys_read :: "'a kern_st_scheme \<Rightarrow> (int \<times> 'a kern_st_scheme) res" where
  "sys_read s =
     bind_r (arg_rw s) (\<lambda>r. case r of None \<Rightarrow> Inr (- 1, s) | Some (f, n, p) \<Rightarrow>
     bind_r (fileread f n s) (\<lambda>(r, bs, s).
     bind_r (ustores p bs s) (\<lambda>s. Inr (r, s))))"

definition sys_write :: "'a kern_st_scheme \<Rightarrow> (int \<times> 'a kern_st_scheme) res" where
  "sys_write s =
     bind_r (arg_rw s) (\<lambda>r. case r of None \<Rightarrow> Inr (- 1, s) | Some (f, n, p) \<Rightarrow>
     bind_r (uloads p (nat n) s) (\<lambda>bs. filewrite f bs n s))"

definition sys_close :: "'a kern_st_scheme \<Rightarrow> (int \<times> 'a kern_st_scheme) res" where
  "sys_close s =
     bind_r (argfd 0 s) (\<lambda>r. case r of None \<Rightarrow> Inr (- 1, s) | Some (fd, f) \<Rightarrow>
     bind_r (fdclear fd s) (\<lambda>s.
     bind_r (fileclose f s) (\<lambda>s. Inr (0, s))))"

definition STAT_SIZE :: int where "STAT_SIZE = 20"

definition store_stat :: "u32 \<Rightarrow> stat \<Rightarrow> 'a proc_st_scheme \<Rightarrow> 'a proc_st_scheme res" where
  "store_stat p st s =
     bind_r (ustores (p + 4) (le32 (st_dev st)) s) (\<lambda>s.
     bind_r (ustores (p + 8) (le32 (st_ino st)) s) (\<lambda>s.
     bind_r (ustores p (le16 (st_type st)) s) (\<lambda>s.
     bind_r (ustores (p + 12) (le16 (st_nlink st)) s) (\<lambda>s.
     ustores (p + 16) (le32 (st_size st)) s))))"

definition sys_fstat :: "'a kern_st_scheme \<Rightarrow> (int \<times> 'a kern_st_scheme) res" where
  "sys_fstat s =
     bind_r (argfd 0 s) (\<lambda>r. case r of None \<Rightarrow> Inr (- 1, s) | Some (_, f) \<Rightarrow>
     bind_r (argptr 1 STAT_SIZE s) (\<lambda>r. case r of None \<Rightarrow> Inr (- 1, s) | Some p \<Rightarrow>
     bind_r (filestat f s) (\<lambda>(st, s).
     case st of None \<Rightarrow> Inr (- 1, s) | Some st \<Rightarrow> bind_r (store_stat p st s) (\<lambda>s. Inr (0, s)))))"

definition sys_pipe :: "'a kern_st_scheme \<Rightarrow> (int \<times> 'a kern_st_scheme) res" where
  "sys_pipe s =
     bind_r (argptr 0 8 s) (\<lambda>r. case r of None \<Rightarrow> Inr (- 1, s) | Some fd \<Rightarrow>
     bind_r (pipealloc s) (\<lambda>(r, s). case r of None \<Rightarrow> Inr (- 1, s) | Some (rf, wfl) \<Rightarrow>
     bind_r (fdalloc rf s) (\<lambda>(fd0, s).
     bind_r (if fd0 < 0 then Inr (- 1, s) else fdalloc wfl s) (\<lambda>(fd1, s).
     if fd0 < 0 \<or> fd1 < 0 then
       bind_r (if fd0 \<ge> 0 then fdclear (nat fd0) s else Inr s) (\<lambda>s.
       bind_r (fileclose rf s) (\<lambda>s.
       bind_r (fileclose wfl s) (\<lambda>s. Inr (- 1, s))))
     else
       bind_r (ustores fd (le32 (word_of_int fd0)) s) (\<lambda>s.
       bind_r (ustores (fd + 4) (le32 (word_of_int fd1)) s) (\<lambda>s. Inr (0, s)))))))"

section \<open>Calls on directories\<close>

definition fail_op :: "'a kern_st_scheme \<Rightarrow> (int \<times> 'a kern_st_scheme) res" where
  "fail_op s = bind_r (end_op s) (\<lambda>s. Inr (- 1, s))"

definition put_fail_op :: "nat \<Rightarrow> 'a kern_st_scheme \<Rightarrow> (int \<times> 'a kern_st_scheme) res" where
  "put_fail_op ip s = bind_r (iunlockput ip s) fail_op"

definition link_bad :: "nat \<Rightarrow> 'a kern_st_scheme \<Rightarrow> (int \<times> 'a kern_st_scheme) res" where
  "link_bad ip s =
     bind_r (ilock (Some ip) s) (\<lambda>s.
     bind_r (iupdate ip (upd_inode ip (\<lambda>i. i\<lparr>inlink := inlink i - 1\<rparr>) s)) (put_fail_op ip))"

definition sys_link :: "'a kern_st_scheme \<Rightarrow> (int \<times> 'a kern_st_scheme) res" where
  "sys_link s =
     bind_r (argstr 0 s) (\<lambda>r. case r of None \<Rightarrow> Inr (- 1, s) | Some old \<Rightarrow>
     bind_r (argstr 1 s) (\<lambda>r. case r of None \<Rightarrow> Inr (- 1, s) | Some new \<Rightarrow>
     bind_r (begin_op s) (\<lambda>s.
     bind_r (namei old s) (\<lambda>(r, s). case r of None \<Rightarrow> fail_op s | Some ip \<Rightarrow>
     bind_r (ilock (Some ip) s) (\<lambda>s.
     if itype (inodes s ip) = T_DIR then put_fail_op ip s
     else
       bind_r (iupdate ip (upd_inode ip (\<lambda>i. i\<lparr>inlink := inlink i + 1\<rparr>) s)) (\<lambda>s.
       bind_r (iunlock (Some ip) s) (\<lambda>s.
       bind_r (nameiparent new s) (\<lambda>(r, s). case r of None \<Rightarrow> link_bad ip s | Some (dp, name) \<Rightarrow>
       bind_r (ilock (Some dp) s) (\<lambda>s.
       bind_r (if idev (inodes s dp) \<noteq> idev (inodes s ip) then Inr (- 1, s)
               else dirlink dp name (inum (inodes s ip)) s) (\<lambda>(r, s).
       if r < 0 then bind_r (iunlockput dp s) (link_bad ip)
       else
         bind_r (iunlockput dp s) (\<lambda>s.
         bind_r (iput ip s) (\<lambda>s.
         bind_r (end_op s) (\<lambda>s. Inr (0, s))))))))))))))"

fun isdirempty_from :: "nat \<Rightarrow> nat \<Rightarrow> u32 \<Rightarrow> 'a kern_st_scheme \<Rightarrow> (bool \<times> 'a kern_st_scheme) res" where
  "isdirempty_from 0 dp off s = Inl NoFuel"
| "isdirempty_from (Suc fuel) dp off s =
     (if \<not> off < isize (inodes s dp) then Inr (True, s)
      else
        bind_r (readi dp off (of_nat DIRENT_SIZE) s) (\<lambda>(r, de, s).
        if r \<noteq> int DIRENT_SIZE then Inl (Panic ''isdirempty: readi'')
        else if de_inum de \<noteq> 0 then Inr (False, s)
        else isdirempty_from fuel dp (off + of_nat DIRENT_SIZE) s))"

definition isdirempty :: "nat \<Rightarrow> 'a kern_st_scheme \<Rightarrow> (bool \<times> 'a kern_st_scheme) res" where
  "isdirempty dp s = isdirempty_from (unat (isize (inodes s dp)) div DIRENT_SIZE + 2) dp (2 * of_nat DIRENT_SIZE) s"

definition sys_unlink :: "'a kern_st_scheme \<Rightarrow> (int \<times> 'a kern_st_scheme) res" where
  "sys_unlink s =
     bind_r (argstr 0 s) (\<lambda>r. case r of None \<Rightarrow> Inr (- 1, s) | Some path \<Rightarrow>
     bind_r (begin_op s) (\<lambda>s.
     bind_r (nameiparent path s) (\<lambda>(r, s). case r of None \<Rightarrow> fail_op s | Some (dp, name) \<Rightarrow>
     bind_r (ilock (Some dp) s) (\<lambda>s.
     if namecmp name (map of_char ''.'') = 0 \<or> namecmp name (map of_char ''..'') = 0 then put_fail_op dp s
     else
       bind_r (dirlookup dp name s) (\<lambda>(r, s). case r of None \<Rightarrow> put_fail_op dp s | Some (ip, off) \<Rightarrow>
       bind_r (ilock (Some ip) s) (\<lambda>s.
       if sint (inlink (inodes s ip)) < 1 then Inl (Panic ''unlink: nlink < 1'')
       else
         bind_r (if itype (inodes s ip) = T_DIR then isdirempty ip s else Inr (True, s)) (\<lambda>(e, s).
         if \<not> e then bind_r (iunlockput ip s) (put_fail_op dp)
         else
           bind_r (writei dp (replicate DIRENT_SIZE 0) off (of_nat DIRENT_SIZE) s) (\<lambda>(r, s).
           if r \<noteq> int DIRENT_SIZE then Inl (Panic ''unlink: writei'')
           else
             bind_r (if itype (inodes s ip) = T_DIR
                     then iupdate dp (upd_inode dp (\<lambda>i. i\<lparr>inlink := inlink i - 1\<rparr>) s) else Inr s) (\<lambda>s.
             bind_r (iunlockput dp s) (\<lambda>s.
             bind_r (iupdate ip (upd_inode ip (\<lambda>i. i\<lparr>inlink := inlink i - 1\<rparr>) s)) (\<lambda>s.
             bind_r (iunlockput ip s) (\<lambda>s.
             bind_r (end_op s) (\<lambda>s. Inr (0, s))))))))))))))"

definition create_dots :: "nat \<Rightarrow> nat \<Rightarrow> 'a kern_st_scheme \<Rightarrow> 'a kern_st_scheme res" where
  "create_dots ip dp s =
     bind_r (iupdate dp (upd_inode dp (\<lambda>i. i\<lparr>inlink := inlink i + 1\<rparr>) s)) (\<lambda>s.
     bind_r (dirlink ip (map of_char ''.'') (inum (inodes s ip)) s) (\<lambda>(r, s).
     if r < 0 then Inl (Panic ''create dots'')
     else
       bind_r (dirlink ip (map of_char ''..'') (inum (inodes s dp)) s) (\<lambda>(r, s).
       if r < 0 then Inl (Panic ''create dots'') else Inr s)))"

definition create :: "u8 list \<Rightarrow> u16 \<Rightarrow> u16 \<Rightarrow> u16 \<Rightarrow> 'a kern_st_scheme \<Rightarrow> (nat option \<times> 'a kern_st_scheme) res" where
  "create path ty major minor s =
     bind_r (nameiparent path s) (\<lambda>(r, s). case r of None \<Rightarrow> Inr (None, s) | Some (dp, name) \<Rightarrow>
     bind_r (ilock (Some dp) s) (\<lambda>s.
     bind_r (dirlookup dp name s) (\<lambda>(r, s). case r of
       Some (ip, _) \<Rightarrow>
         bind_r (iunlockput dp s) (\<lambda>s.
         bind_r (ilock (Some ip) s) (\<lambda>s.
         if ty = T_FILE \<and> itype (inodes s ip) = T_FILE then Inr (Some ip, s)
         else bind_r (iunlockput ip s) (\<lambda>s. Inr (None, s))))
     | None \<Rightarrow>
         bind_r (ialloc (idev (inodes s dp)) ty s) (\<lambda>(ip, s).
         bind_r (ilock (Some ip) s) (\<lambda>s.
         bind_r (iupdate ip (upd_inode ip (\<lambda>i. i\<lparr>imajor := major, iminor := minor, inlink := 1\<rparr>) s)) (\<lambda>s.
         bind_r (if ty = T_DIR then create_dots ip dp s else Inr s) (\<lambda>s.
         bind_r (dirlink dp name (inum (inodes s ip)) s) (\<lambda>(r, s).
         if r < 0 then Inl (Panic ''create: dirlink'')
         else bind_r (iunlockput dp s) (\<lambda>s. Inr (Some ip, s))))))))))"

definition open_ip :: "u8 list \<Rightarrow> u32 \<Rightarrow> 'a kern_st_scheme \<Rightarrow> (nat option \<times> 'a kern_st_scheme) res" where
  "open_ip path omode s =
     (if omode AND O_CREATE \<noteq> 0 then create path T_FILE 0 0 s
      else
        bind_r (namei path s) (\<lambda>(r, s). case r of None \<Rightarrow> Inr (None, s) | Some ip \<Rightarrow>
        bind_r (ilock (Some ip) s) (\<lambda>s.
        if itype (inodes s ip) = T_DIR \<and> omode \<noteq> 0 then bind_r (iunlockput ip s) (\<lambda>s. Inr (None, s))
        else Inr (Some ip, s))))"

definition sys_open :: "'a kern_st_scheme \<Rightarrow> (int \<times> 'a kern_st_scheme) res" where
  "sys_open s =
     bind_r (argstr 0 s) (\<lambda>r. case r of None \<Rightarrow> Inr (- 1, s) | Some path \<Rightarrow>
     bind_r (argint 1 s) (\<lambda>r. case r of None \<Rightarrow> Inr (- 1, s) | Some omode \<Rightarrow>
     bind_r (begin_op s) (\<lambda>s.
     bind_r (open_ip path omode s) (\<lambda>(r, s). case r of None \<Rightarrow> fail_op s | Some ip \<Rightarrow>
     bind_r (filealloc s) (\<lambda>(fo, s). case fo of None \<Rightarrow> put_fail_op ip s | Some f \<Rightarrow>
     bind_r (fdalloc f s) (\<lambda>(fd, s).
     if fd < 0 then bind_r (fileclose f s) (put_fail_op ip)
     else
       bind_r (iunlock (Some ip) s) (\<lambda>s.
       bind_r (end_op s) (\<lambda>s.
       Inr (fd, upd_file f (\<lambda>x. x\<lparr>ftyp := FD_INODE, fip := ip, foff := 0,
         freadable := (omode AND O_WRONLY = 0),
         fwritable := (omode AND O_WRONLY \<noteq> 0 \<or> omode AND O_RDWR \<noteq> 0)\<rparr>) s)))))))))"

definition finish_create :: "(nat option \<times> 'a kern_st_scheme) res \<Rightarrow> (int \<times> 'a kern_st_scheme) res" where
  "finish_create m =
     bind_r m (\<lambda>(r, s). case r of None \<Rightarrow> fail_op s | Some ip \<Rightarrow>
     bind_r (iunlockput ip s) (\<lambda>s. bind_r (end_op s) (\<lambda>s. Inr (0, s))))"

definition sys_mkdir :: "'a kern_st_scheme \<Rightarrow> (int \<times> 'a kern_st_scheme) res" where
  "sys_mkdir s =
     bind_r (begin_op s) (\<lambda>s.
     bind_r (argstr 0 s) (\<lambda>r. case r of None \<Rightarrow> fail_op s | Some path \<Rightarrow>
     finish_create (create path T_DIR 0 0 s)))"

definition sys_mknod :: "'a kern_st_scheme \<Rightarrow> (int \<times> 'a kern_st_scheme) res" where
  "sys_mknod s =
     bind_r (begin_op s) (\<lambda>s.
     bind_r (argstr 0 s) (\<lambda>r. case r of None \<Rightarrow> fail_op s | Some path \<Rightarrow>
     bind_r (argint 1 s) (\<lambda>r. case r of None \<Rightarrow> fail_op s | Some major \<Rightarrow>
     bind_r (argint 2 s) (\<lambda>r. case r of None \<Rightarrow> fail_op s | Some minor \<Rightarrow>
     finish_create (create path T_DEV (ucast major) (ucast minor) s)))))"

definition sys_chdir :: "'a kern_st_scheme \<Rightarrow> (int \<times> 'a kern_st_scheme) res" where
  "sys_chdir s =
     bind_r (curproc s) (\<lambda>p.
     bind_r (begin_op s) (\<lambda>s.
     bind_r (argstr 0 s) (\<lambda>r. case r of None \<Rightarrow> fail_op s | Some path \<Rightarrow>
     bind_r (namei path s) (\<lambda>(r, s). case r of None \<Rightarrow> fail_op s | Some ip \<Rightarrow>
     bind_r (ilock (Some ip) s) (\<lambda>s.
     if itype (inodes s ip) \<noteq> T_DIR then put_fail_op ip s
     else
       bind_r (iunlock (Some ip) s) (\<lambda>s.
       bind_r (case cwd (ptable s p) of None \<Rightarrow> Inl (Faults ''iput'') | Some d \<Rightarrow> iput d s) (\<lambda>s.
       bind_r (end_op s) (\<lambda>s.
       Inr (0, upd_proc p (\<lambda>q. q\<lparr>cwd := Some ip\<rparr>) s)))))))))"

fun fetch_argv :: "nat \<Rightarrow> u32 \<Rightarrow> 'a kern_st_scheme \<Rightarrow> u8 list list option res" where
  "fetch_argv 0 uargv s = Inr None"
| "fetch_argv (Suc k) uargv s =
     bind_r (fetchint uargv s) (\<lambda>r. case r of None \<Rightarrow> Inr None | Some uarg \<Rightarrow>
     if uarg = 0 then Inr (Some [])
     else
       bind_r (fetchstr uarg s) (\<lambda>r. case r of None \<Rightarrow> Inr None | Some a \<Rightarrow>
       bind_r (fetch_argv k (uargv + 4) s) (\<lambda>r. Inr (map_option (\<lambda>as. a # as) r))))"

definition sys_exec :: "'a kern_st_scheme \<Rightarrow> (int \<times> 'a kern_st_scheme) res" where
  "sys_exec s =
     bind_r (argstr 0 s) (\<lambda>r. case r of None \<Rightarrow> Inr (- 1, s) | Some path \<Rightarrow>
     bind_r (argint 1 s) (\<lambda>r. case r of None \<Rightarrow> Inr (- 1, s) | Some uargv \<Rightarrow>
     bind_r (fetch_argv MAXARG uargv s) (\<lambda>r. case r of None \<Rightarrow> Inr (- 1, s) | Some argv \<Rightarrow>
     exec path argv s)))"

section \<open>Dispatch\<close>

datatype sysno = SYS_fork | SYS_exit | SYS_wait | SYS_pipe | SYS_read | SYS_kill | SYS_exec | SYS_fstat
  | SYS_chdir | SYS_dup | SYS_getpid | SYS_sbrk | SYS_sleep | SYS_uptime | SYS_open | SYS_write | SYS_mknod
  | SYS_unlink | SYS_link | SYS_mkdir | SYS_close

definition sysnos :: "sysno list" where
  "sysnos = [SYS_fork, SYS_exit, SYS_wait, SYS_pipe, SYS_read, SYS_kill, SYS_exec, SYS_fstat, SYS_chdir, SYS_dup,
     SYS_getpid, SYS_sbrk, SYS_sleep, SYS_uptime, SYS_open, SYS_write, SYS_mknod, SYS_unlink, SYS_link, SYS_mkdir,
     SYS_close]"

definition ret :: "(int \<times> 'a kern_st_scheme) res \<Rightarrow> (int option \<times> 'a kern_st_scheme) res" where
  "ret m = bind_r m (\<lambda>(r, s). Inr (Some r, s))"

fun sys_call :: "sysno \<Rightarrow> 'a kern_st_scheme \<Rightarrow> (int option \<times> 'a kern_st_scheme) res" where
  "sys_call SYS_fork s = ret (fork s)"
| "sys_call SYS_exit s = bind_r (exit s) (\<lambda>s. Inr (None, s))"
| "sys_call SYS_wait s = ret (wait s)"
| "sys_call SYS_pipe s = ret (sys_pipe s)"
| "sys_call SYS_read s = ret (sys_read s)"
| "sys_call SYS_kill s = ret (sys_kill s)"
| "sys_call SYS_exec s = ret (sys_exec s)"
| "sys_call SYS_fstat s = ret (sys_fstat s)"
| "sys_call SYS_chdir s = ret (sys_chdir s)"
| "sys_call SYS_dup s = ret (sys_dup s)"
| "sys_call SYS_getpid s = ret (sys_getpid s)"
| "sys_call SYS_sbrk s = ret (sys_sbrk s)"
| "sys_call SYS_sleep s = ret (sys_sleep s)"
| "sys_call SYS_uptime s = ret (sys_uptime s)"
| "sys_call SYS_open s = ret (sys_open s)"
| "sys_call SYS_write s = ret (sys_write s)"
| "sys_call SYS_mknod s = ret (sys_mknod s)"
| "sys_call SYS_unlink s = ret (sys_unlink s)"
| "sys_call SYS_link s = ret (sys_link s)"
| "sys_call SYS_mkdir s = ret (sys_mkdir s)"
| "sys_call SYS_close s = ret (sys_close s)"

definition set_eax :: "nat \<Rightarrow> int \<Rightarrow> 'a proc_st_scheme \<Rightarrow> 'a proc_st_scheme" where
  "set_eax p v s = s\<lparr>mem := store32 (mem s) (tf (ptable s p) + tf_eax) (word_of_int v)\<rparr>"

text \<open>The message about an unknown call is not modelled.\<close>

definition syscall :: "'a kern_st_scheme \<Rightarrow> 'a kern_st_scheme res" where
  "syscall s =
     bind_r (curproc s) (\<lambda>p.
     let num = sint (load32 (mem s) (tf (ptable s p) + tf_eax)) in
     if num > 0 \<and> num \<le> int (length sysnos) then
       bind_r (sys_call (sysnos ! nat (num - 1)) s) (\<lambda>(r, s).
       Inr (case r of None \<Rightarrow> s | Some v \<Rightarrow> set_eax p v s))
     else Inr (set_eax p (- 1) s))"

end
