(* ===== verification/Kernel_Props.thy ===== *)
theory Kernel_Props
  imports Syscall
begin

text \<open>
  Properties of path names, of the arguments of system calls and of processes.
\<close>

section \<open>Path names\<close>

text \<open>The elements of a path: the non-empty pieces between slashes, cut to the length of a name.\<close>

fun split_slash :: "u8 list \<Rightarrow> u8 list list" where
  "split_slash [] = [[]]"
| "split_slash (c # cs) =
     (if c = ch_slash then [] # split_slash cs
      else (case split_slash cs of [] \<Rightarrow> [[c]] | e # es \<Rightarrow> (c # e) # es))"

definition path_elems :: "u8 list \<Rightarrow> u8 list list" where
  "path_elems path = map (take DIRSIZ) (filter (\<lambda>e. e \<noteq> []) (split_slash path))"

lemma split_slash_ne: "split_slash p \<noteq> []"
  by (cases p) (auto split: list.split)

lemma path_elems_dropWhile: "path_elems (dropWhile (\<lambda>c. c = ch_slash) p) = path_elems p"
  by (induction p) (auto simp: path_elems_def)

lemma split_slash_elem:
  "split_slash p = takeWhile (\<lambda>c. c \<noteq> ch_slash) p #
     (case dropWhile (\<lambda>c. c \<noteq> ch_slash) p of [] \<Rightarrow> [] | _ # r \<Rightarrow> split_slash r)"
  by (induction p) (auto split: list.split)

lemma path_elems_Nil: "path_elems p = [] \<longleftrightarrow> dropWhile (\<lambda>c. c = ch_slash) p = []"
proof -
  let ?q = "dropWhile (\<lambda>c. c = ch_slash) p"
  have "path_elems ?q \<noteq> []" if ne: "?q \<noteq> []"
  proof -
    have "hd ?q \<noteq> ch_slash" using hd_dropWhile [OF ne] by simp
    then have "takeWhile (\<lambda>c. c \<noteq> ch_slash) ?q \<noteq> []" using ne by (cases ?q) auto
    then show ?thesis by (subst path_elems_def, subst split_slash_elem) simp
  qed
  moreover have "path_elems [] = []" by (simp add: path_elems_def)
  ultimately show ?thesis using path_elems_dropWhile [of p] by metis
qed

lemma path_elems_step:
  assumes "takeWhile (\<lambda>c. c \<noteq> ch_slash) p \<noteq> []"
  shows "path_elems p = take DIRSIZ (takeWhile (\<lambda>c. c \<noteq> ch_slash) p) # path_elems (dropWhile (\<lambda>c. c \<noteq> ch_slash) p)"
proof (cases "dropWhile (\<lambda>c. c \<noteq> ch_slash) p")
  case Nil
  then have "split_slash p = [takeWhile (\<lambda>c. c \<noteq> ch_slash) p]" by (subst split_slash_elem) (simp only: Nil list.case)
  then show ?thesis using assms unfolding Nil by (simp add: path_elems_def)
next
  case (Cons a r)
  have a: "a = ch_slash" using hd_dropWhile [of "\<lambda>c. c \<noteq> ch_slash" p] Cons by simp
  have "split_slash p = takeWhile (\<lambda>c. c \<noteq> ch_slash) p # split_slash r"
    by (subst split_slash_elem) (simp only: Cons list.case)
  then show ?thesis using assms unfolding Cons a by (simp add: path_elems_def)
qed

lemma skipelem_elems:
  "case path_elems path of [] \<Rightarrow> skipelem path = None
   | e # es \<Rightarrow> \<exists>rest. skipelem path = Some (rest, e) \<and> path_elems rest = es \<and> length rest < length path \<and>
       (rest = [] \<or> hd rest \<noteq> ch_slash)"
proof (cases "path_elems path = []")
  case True
  then have "dropWhile (\<lambda>c. c = ch_slash) path = []" by (simp only: path_elems_Nil)
  then have "skipelem path = None" unfolding skipelem_def by (simp only: Let_def) simp
  then show ?thesis using True by simp
next
  case False
  let ?q = "dropWhile (\<lambda>c. c = ch_slash) path"
  let ?e = "takeWhile (\<lambda>c. c \<noteq> ch_slash) ?q" and ?t = "dropWhile (\<lambda>c. c \<noteq> ch_slash) ?q"
  let ?rest = "dropWhile (\<lambda>c. c = ch_slash) ?t"
  have ne: "?q \<noteq> []" using False path_elems_Nil by blast
  have e: "?e \<noteq> []" using hd_dropWhile [OF ne] ne by (cases ?q) auto
  have "path_elems path = path_elems ?q" by (rule path_elems_dropWhile [symmetric])
  also have "\<dots> = take DIRSIZ ?e # path_elems ?t" by (rule path_elems_step [OF e])
  finally have pe: "path_elems path = take DIRSIZ ?e # path_elems ?rest" by (simp only: path_elems_dropWhile)
  have "length ?rest \<le> length ?t" by (rule length_dropWhile_le)
  moreover have "length ?t < length ?q"
    using e arg_cong [OF takeWhile_dropWhile_id [of "\<lambda>c. c \<noteq> ch_slash" ?q], of length] by (cases ?e) simp_all
  moreover have "length ?q \<le> length path" by (rule length_dropWhile_le)
  ultimately have len: "length ?rest < length path" by linarith
  have hd: "?rest = [] \<or> hd ?rest \<noteq> ch_slash" using hd_dropWhile [of "\<lambda>c. c = ch_slash" ?t] by auto
  have "skipelem path = Some (?rest, take DIRSIZ ?e)" using ne by (simp add: skipelem_def Let_def)
  then show ?thesis using pe len hd by simp
qed

lemma namex_loop_fuel:
  "length path < f \<Longrightarrow> length path < g \<Longrightarrow> namex_loop f ip path par name s = namex_loop g ip path par name s"
  for s :: "'a cons_st_scheme"
proof (induction f arbitrary: g ip path name s)
  case (Suc f)
  obtain h where g: "g = Suc h" using Suc.prems(2) by (cases g) auto
  show ?case
  proof (cases "skipelem path")
    case None
    then show ?thesis by (simp add: g)
  next
    case (Some r)
    obtain rest e where r: "r = (rest, e)" by (cases r)
    have "length rest < length path" using skipelem_elems [of path] Some r by (auto split: list.splits)
    then have l: "length rest < f" "length rest < h" using Suc.prems g by simp_all
    have "(namex_loop f i rest par e :: 'a cons_st_scheme \<Rightarrow> _) = namex_loop h i rest par e" for i by (intro ext Suc.IH l)
    then show ?thesis by (simp add: g Some r cong: if_cong option.case_cong)
  qed
qed simp

text \<open>
  One step of path resolution. Cut into its non-empty pieces between slashes, with the names cut to
  14 bytes, a path without pieces gives no name; otherwise \<open>skipelem\<close> gives the first piece, and the
  rest of the path has exactly the remaining pieces and does not start with a slash, so that it is
  empty exactly when the name was the last one.
\<close>

lemma skipelem_splits_path:
  "case path_elems path of [] \<Rightarrow> skipelem path = None
   | e # es \<Rightarrow> \<exists>rest. skipelem path = Some (rest, e) \<and> path_elems rest = es \<and> (rest = [] \<longleftrightarrow> es = []) \<and> length e \<le> DIRSIZ"
proof (cases "path_elems path")
  case (Cons e es)
  then obtain rest where r: "skipelem path = Some (rest, e)" "path_elems rest = es" "rest = [] \<or> hd rest \<noteq> ch_slash"
    using skipelem_elems [of path] by auto
  have "rest = [] \<longleftrightarrow> es = []"
    using r(2,3) path_elems_Nil [of rest] by (cases rest) auto
  moreover have "length e \<le> DIRSIZ" using Cons by (auto simp: path_elems_def)
  ultimately show ?thesis using Cons r by auto
qed (use skipelem_elems [of path] in simp)

text \<open>
  Path resolution ends. The loop of \<open>namex\<close> goes round at most once per byte of the path and once
  more: any bound above the length of the path gives the same result, in every state and for both
  \<open>namei\<close> and \<open>nameiparent\<close>.
\<close>

lemma namex_terminates:
  assumes "length path < bound"
  shows "namex path par (s :: 'a cons_st_scheme) =
     bind_r (if path \<noteq> [] \<and> hd path = ch_slash then iget ROOTDEV ROOTINO s
             else case myproc s of None \<Rightarrow> Inl (Faults ''namex'')
               | Some p \<Rightarrow> (case cwd (ptable s p) of None \<Rightarrow> Inl (Faults ''namex'') | Some d \<Rightarrow> idup d s))
       (\<lambda>(ip, s). namex_loop bound ip path par [] s)"
proof -
  have e: "namex_loop (length path + 1) ip path par [] t = namex_loop bound ip path par [] t" for ip and t :: "'a cons_st_scheme"
    using assms by (intro namex_loop_fuel) simp_all
  show ?thesis unfolding namex_def e ..
qed

section \<open>Arguments of system calls\<close>

lemma fetchstr_from_reads:
  "fetchstr_from n a s = Inr (Some bs) \<Longrightarrow> length bs < n \<and> 0 \<notin> set bs \<and> uloads a (length bs + 1) s = Inr (bs @ [0])"
proof (induction n arbitrary: a bs)
  case (Suc n)
  then obtain b where b: "uload a s = Inr b" by (auto simp: bind_r_eq_Inr)
  show ?case
  proof (cases "b = 0")
    case True
    then show ?thesis using Suc.prems b by simp
  next
    case False
    then obtain cs where cs: "fetchstr_from n (a + 1) s = Inr (Some cs)" "bs = b # cs"
      using Suc.prems b by (auto simp: bind_r_eq_Inr)
    then show ?thesis using Suc.IH [OF cs(1)] b False by simp
  qed
qed simp

section \<open>The end of a process\<close>

lemma wakeup1_sel [simp]:
  "parent (ptable (wakeup1 c s) q) = parent (ptable s q)" "pchan (ptable (wakeup1 c s) q) = pchan (ptable s q)"
  "initproc (wakeup1 c s) = initproc s" "cur (wakeup1 c s) = cur s" "me (wakeup1 c s) = me s" "held (wakeup1 c s) = held s"
  "state (ptable (wakeup1 c s) q) =
     (if q < NPROC \<and> state (ptable s q) = SLEEPING \<and> pchan (ptable s q) = Some c then RUNNABLE else state (ptable s q))"
  by (simp_all add: ptable_wakeup1) (simp_all add: wakeup1_def)

lemma pass_children_sel:
  fixes cs :: "nat list"
  assumes "initproc s = Some i" "i \<noteq> p"
  defines "s' \<equiv> pass_children p cs s"
  shows "initproc s' = Some i \<and> cur s' = cur s \<and> me s' = me s \<and> held s' = held s \<and>
    pchan (ptable s' q) = pchan (ptable s q) \<and>
    parent (ptable s' q) = (if q \<in> set cs \<and> parent (ptable s q) = Some p then Some i else parent (ptable s q)) \<and>
    state (ptable s' q) =
      (if q < NPROC \<and> state (ptable s q) = SLEEPING \<and> pchan (ptable s q) = Some (Chan_proc i) \<and>
          (\<exists>c \<in> set cs. parent (ptable s c) = Some p \<and> state (ptable s c) = ZOMBIE)
       then RUNNABLE else state (ptable s q))"
  using assms(1,2) unfolding s'_def
proof (induction cs arbitrary: s)
  case (Cons c cs)
  let ?z = "\<lambda>x. parent (ptable s x) = Some p \<and> state (ptable s x) = ZOMBIE"
  let ?u = "upd_proc c (\<lambda>q. q\<lparr>parent := Some i\<rparr>) s"
  define s1 where "s1 = (if parent (ptable s c) = Some p
    then if state (ptable s c) = ZOMBIE then wakeup1 (Chan_proc i) ?u else ?u else s)"
  have st: "pass_children p (c # cs) s = pass_children p cs s1"
    using Cons.prems by (simp add: s1_def Let_def wakeup1_proc_def upd_proc_def)
  have fr: "initproc s1 = Some i" "cur s1 = cur s" "me s1 = me s" "held s1 = held s"
    using Cons.prems by (simp_all add: s1_def upd_proc_def)
  have ch: "pchan (ptable s1 x) = pchan (ptable s x)" for x by (simp add: s1_def upd_proc_def)
  have pa: "parent (ptable s1 x) = (if x = c \<and> parent (ptable s c) = Some p then Some i else parent (ptable s x))" for x
    by (simp add: s1_def upd_proc_def)
  have sa: "state (ptable s1 x) = (if x < NPROC \<and> state (ptable s x) = SLEEPING \<and> pchan (ptable s x) = Some (Chan_proc i) \<and> ?z c
      then RUNNABLE else state (ptable s x))" for x
    by (auto simp: s1_def upd_proc_def)
  have zz: "state (ptable s1 x) = ZOMBIE \<longleftrightarrow> state (ptable s x) = ZOMBIE" for x by (simp add: sa)
  have pz: "parent (ptable s1 x) = Some p \<longleftrightarrow> x \<noteq> c \<and> parent (ptable s x) = Some p" for x
    using Cons.prems(2) by (auto simp: pa)
  define E where "E \<longleftrightarrow> (\<exists>x \<in> set cs. x \<noteq> c \<and> ?z x)"
  have ex: "(\<exists>x \<in> set cs. parent (ptable s1 x) = Some p \<and> state (ptable s1 x) = ZOMBIE) \<longleftrightarrow> E"
    unfolding pz zz E_def by auto
  have ex': "(\<exists>x \<in> set (c # cs). ?z x) \<longleftrightarrow> ?z c \<or> E" unfolding E_def by auto
  note ih = Cons.IH [OF fr(1) Cons.prems(2), unfolded ex]
  have "parent (ptable (pass_children p cs s1) q) =
      (if q \<in> set (c # cs) \<and> parent (ptable s q) = Some p then Some i else parent (ptable s q))"
    using ih Cons.prems(2) by (auto simp: pa)
  moreover have "state (ptable (pass_children p cs s1) q) =
      (if q < NPROC \<and> state (ptable s q) = SLEEPING \<and> pchan (ptable s q) = Some (Chan_proc i) \<and> (\<exists>x \<in> set (c # cs). ?z x)
       then RUNNABLE else state (ptable s q))"
    unfolding ex' using ih by (simp add: sa ch)
  ultimately show ?case unfolding st using ih fr ch by (simp only: simp_thms)
qed simp

text \<open>
  C10: the end of a process hands everything over. Under the lock of the process table, \<open>exit\<close> leaves the
  CPU without a process and the process a zombie; every child, and nobody else, gets init as its
  parent; and exactly those sleepers become runnable that wait as the parent of the process, or as
  init when one of the children it inherits is already a zombie. So a parent that was asleep in \<open>wait\<close>
  runs again and finds a zombie child.
\<close>

theorem exit_hands_over:
  assumes "held s = [LK_ptable]" "myproc s = Some p" "p < NPROC" "initproc s = Some i" "i \<noteq> p"
  shows "\<exists>s'. exit_locked p s = Inr s' \<and> myproc s' = None \<and> held s' = held s \<and> state (ptable s' p) = ZOMBIE \<and>
    (\<forall>q < NPROC. parent (ptable s' q) = (if parent (ptable s q) = Some p then Some i else parent (ptable s q))) \<and>
    (\<forall>q < NPROC. q \<noteq> p \<longrightarrow> state (ptable s' q) =
      (if state (ptable s q) = SLEEPING \<and>
          ((\<exists>r. parent (ptable s p) = Some r \<and> pchan (ptable s q) = Some (Chan_proc r)) \<or>
           pchan (ptable s q) = Some (Chan_proc i) \<and>
             (\<exists>c < NPROC. parent (ptable s c) = Some p \<and> state (ptable s c) = ZOMBIE))
       then RUNNABLE else state (ptable s q))) \<and>
    (\<forall>r. parent (ptable s p) = Some r \<and> r \<noteq> p \<longrightarrow>
       find_proc (\<lambda>q. parent q = Some r \<and> state q = ZOMBIE) s' \<noteq> None)"
proof -
  define s1 where "s1 = wakeup1_proc (parent (ptable s p)) s"
  define s2 where "s2 = pass_children p [0..<NPROC] s1"
  have f1: "initproc s1 = Some i" "cur s1 = cur s" "me s1 = me s" "held s1 = held s"
    "parent (ptable s1 q) = parent (ptable s q)" "pchan (ptable s1 q) = pchan (ptable s q)"
    "state (ptable s1 q) = (if q < NPROC \<and> state (ptable s q) = SLEEPING \<and>
       (\<exists>r. parent (ptable s p) = Some r \<and> pchan (ptable s q) = Some (Chan_proc r)) then RUNNABLE else state (ptable s q))" for q
    using assms(4) by (auto simp: s1_def wakeup1_proc_def split: option.splits)
  note f2 = pass_children_sel [OF f1(1) assms(5), of "[0..<NPROC]", folded s2_def]
  let ?t = "upd_proc p (\<lambda>q. q\<lparr>state := ZOMBIE\<rparr>) s2"
  have my: "myproc ?t = Some p" "held ?t = [LK_ptable]"
    using f2 f1 assms(1,2) by (simp_all add: myproc_def upd_proc_def)
  define s' where "s' = (switchkvm ?t)\<lparr>cur := (cur (switchkvm ?t))(me (switchkvm ?t) := None)\<rparr>"
  have ex: "exit_locked p s = Inr s'"
    using my by (simp add: exit_locked_def s1_def [symmetric] s2_def [symmetric] Let_def sched_def s'_def upd_proc_def)
  have pt: "ptable s' = ptable ?t" by (simp add: s'_def switchkvm_def)
  have par: "parent (ptable s' q) = (if parent (ptable s q) = Some p then Some i else parent (ptable s q))" if "q < NPROC" for q
  proof -
    have "parent (ptable s2 q) = (if parent (ptable s q) = Some p then Some i else parent (ptable s q))"
      using f2 [of q] that by (simp add: f1(5))
    then show ?thesis by (auto simp: pt upd_proc_def)
  qed
  have z: "state (ptable s' p) = ZOMBIE" by (simp add: pt upd_proc_def)
  have zi: "state (ptable s1 c) = ZOMBIE \<longleftrightarrow> state (ptable s c) = ZOMBIE" for c by (simp add: f1(7))
  define F where "F \<longleftrightarrow> (\<exists>c < NPROC. parent (ptable s c) = Some p \<and> state (ptable s c) = ZOMBIE)"
  have "(\<exists>c \<in> set [0..<NPROC]. parent (ptable s1 c) = Some p \<and> state (ptable s1 c) = ZOMBIE) \<longleftrightarrow> F"
    unfolding F_def zi f1(5) by auto
  note f3 = f2 [unfolded this]
  have sta: "state (ptable s' q) = (if state (ptable s q) = SLEEPING \<and>
          ((\<exists>r. parent (ptable s p) = Some r \<and> pchan (ptable s q) = Some (Chan_proc r)) \<or>
           pchan (ptable s q) = Some (Chan_proc i) \<and> F)
       then RUNNABLE else state (ptable s q))" if "q < NPROC" "q \<noteq> p" for q
  proof -
    have "state (ptable s' q) = state (ptable s2 q)" using that(2) by (simp add: pt upd_proc_def)
    also have "\<dots> = (if q < NPROC \<and> state (ptable s1 q) = SLEEPING \<and> pchan (ptable s1 q) = Some (Chan_proc i) \<and> F
        then RUNNABLE else state (ptable s1 q))" using f3 [of q] by blast
    finally show ?thesis using that(1) by (auto simp: f1(6,7))
  qed
  have "find_proc (\<lambda>q. parent q = Some r \<and> state q = ZOMBIE) s' \<noteq> None" if "parent (ptable s p) = Some r" "r \<noteq> p" for r
    using par [OF assms(3)] z that assms(3) by (auto simp: find_proc_def find_None_iff)
  moreover have "myproc s' = None" "held s' = held s"
    using my assms(1) by (simp_all add: s'_def switchkvm_def myproc_def)
  ultimately show ?thesis using ex z par sta unfolding F_def by blast
qed

theorem exit_hands_over_witness:
  "\<exists>s'. exit_locked 2 (proc_demo\<lparr>held := [LK_ptable], cur := (\<lambda>_. Some 2), initproc := Some 0,
       ptable := (\<lambda>_. bss_proc)(1 := bss_proc\<lparr>state := SLEEPING, pchan := Some (Chan_proc 1)\<rparr>,
         2 := bss_proc\<lparr>state := RUNNING, parent := Some 1\<rparr>, 3 := bss_proc\<lparr>state := RUNNABLE, parent := Some 2\<rparr>)\<rparr>) = Inr s' \<and>
     state (ptable s' 1) = RUNNABLE \<and> state (ptable s' 2) = ZOMBIE \<and> parent (ptable s' 3) = Some 0"
proof -
  let ?s = "proc_demo\<lparr>held := [LK_ptable], cur := (\<lambda>_. Some 2), initproc := Some 0,
       ptable := (\<lambda>_. bss_proc)(1 := bss_proc\<lparr>state := SLEEPING, pchan := Some (Chan_proc 1)\<rparr>,
         2 := bss_proc\<lparr>state := RUNNING, parent := Some 1\<rparr>, 3 := bss_proc\<lparr>state := RUNNABLE, parent := Some 2\<rparr>)\<rparr>"
  have h: "held ?s = [LK_ptable]" "myproc ?s = Some 2" "2 < NPROC" "initproc ?s = Some 0" "(0 :: nat) \<noteq> 2"
    by (simp_all add: myproc_def NPROC_def)
  obtain s' where s': "exit_locked 2 ?s = Inr s'" "state (ptable s' 2) = ZOMBIE"
    "\<forall>q < NPROC. parent (ptable s' q) = (if parent (ptable ?s q) = Some 2 then Some 0 else parent (ptable ?s q))"
    "\<forall>q < NPROC. q \<noteq> 2 \<longrightarrow> state (ptable s' q) =
      (if state (ptable ?s q) = SLEEPING \<and>
          ((\<exists>r. parent (ptable ?s 2) = Some r \<and> pchan (ptable ?s q) = Some (Chan_proc r)) \<or>
           pchan (ptable ?s q) = Some (Chan_proc 0) \<and>
             (\<exists>c < NPROC. parent (ptable ?s c) = Some 2 \<and> state (ptable ?s c) = ZOMBIE))
       then RUNNABLE else state (ptable ?s q))"
    using exit_hands_over [OF h] by blast
  have "state (ptable s' 1) = RUNNABLE" using s'(4) by (auto simp: NPROC_def dest: spec [of _ 1])
  moreover have "parent (ptable s' 3) = Some 0" using s'(3) by (auto simp: NPROC_def dest: spec [of _ 3])
  ultimately show ?thesis using s'(1,2) by blast
qed

section \<open>A process with one page\<close>

text \<open>
  Page directory at \<open>0x80300000\<close>, its first page table at \<open>0x80301000\<close>, the only page at \<open>0x80302000\<close>. On
  its stack, at address 0, the first argument is 16, the address of the string \<open>ls\<close>.
\<close>

definition arg_mem :: mem where
  "arg_mem = (\<lambda>_. 0)(0x80300000 := 7, 0x80300001 := 0x10, 0x80300002 := 0x30,
     0x80301000 := 7, 0x80301001 := 0x20, 0x80301002 := 0x30,
     0x80302004 := 16, 0x80302010 := 108, 0x80302011 := 115)"

definition arg_demo :: proc_st where
  "arg_demo = proc_demo\<lparr>mem := arg_mem, cur := (\<lambda>_. Some 0),
     ptable := (\<lambda>_. bss_proc\<lparr>psz := 4096, pgdir := 0x80300000, tf := 0x80400000\<rparr>)\<rparr>"

lemma arg_demo_sel [simp]:
  "myproc arg_demo = Some 0" "psz (ptable arg_demo 0) = 4096" "pgdir (ptable arg_demo 0) = 0x80300000"
  "tf (ptable arg_demo 0) = 0x80400000" "mem arg_demo = arg_mem"
  by (simp_all add: arg_demo_def myproc_def)

lemma arg_demo_umap: "va < 4096 \<Longrightarrow> umap arg_mem 0x80300000 va = Some 0x80302000"
proof -
  assume "va < 4096"
  then have "va div 4096 = 0" by (simp add: word_unat_eq_iff unat_div word_less_nat_alt)
  then have "drop_bit 12 va = 0" by (simp add: drop_bit_eq_div)
  moreover have "drop_bit 22 va = drop_bit 10 (drop_bit 12 va)" by simp
  ultimately have x: "PDX va = 0" "PTX va = 0" by (simp_all add: PDX_def PTX_def)
  have e: "load32 arg_mem 0x80300000 = 0x301007" "load32 arg_mem 0x80301000 = 0x302007"
    by (simp_all add: load32_def arg_mem_def of_le32_def)
  show ?thesis
    by (simp add: umap_def entry_def has_tab_def ptab_def pde_at_def x e PTE_ADDR_def P2V_def KERNBASE_def)
qed

lemma arg_demo_uload: "va < 4096 \<Longrightarrow> uload va arg_demo = Inr (arg_mem (0x80302000 + va))"
proof -
  assume va: "va < 4096"
  then have "va mod 4096 = va" by (simp add: word_unat_eq_iff unat_mod word_less_nat_alt)
  then show ?thesis using arg_demo_umap [OF va] by (simp add: uload_def uaddr_def PGSIZE_def)
qed

lemma arg_demo_argint: "argint 0 arg_demo = Inr (Some 16)"
proof -
  have "load32 arg_mem 0x80400044 = 0" by (simp add: load32_def arg_mem_def of_le32_def)
  moreover have "uloads 4 (Suc (Suc (Suc (Suc 0)))) arg_demo = Inr [16, 0, 0, 0]"
    by (simp add: arg_demo_uload arg_mem_def)
  then have "uloads 4 4 arg_demo = Inr [16, 0, 0, 0]" by (simp add: eval_nat_numeral)
  ultimately show ?thesis by (simp add: argint_def curproc_def fetchint_def tf_esp_def of_le32_def)
qed

text \<open>
  C19: a pointer argument stays inside the process. For a process below the kernel's addresses and any
  length that an \<open>int\<close> can have, \<open>argptr\<close> accepts a pointer exactly when the length is not negative and
  the block from the pointer lies below the size of the process, computed without wrap-around.
\<close>

theorem argptr_in_bounds:
  assumes "myproc s = Some p" "argint n s = Inr (Some i)" "psz (ptable s p) \<le> KERNBASE" "len < 2 ^ 31"
  shows "argptr n len s = Inr (if 0 \<le> len \<and> i < psz (ptable s p) \<and>
    uint i + len \<le> uint (psz (ptable s p)) then Some i else None)"
proof -
  have "uint (i + word_of_int len) = uint i + len" if "0 \<le> len" "i < psz (ptable s p)"
  proof -
    have "uint i < 2 ^ 31" using that(2) assms(3) by (simp add: word_less_def word_le_def KERNBASE_def)
    moreover have "uint (word_of_int len :: u32) = len"
      using that(1) assms(4) by (simp add: uint_word_of_int take_bit_eq_mod)
    ultimately show ?thesis using that(1) assms(4) by (simp add: uint_word_ariths)
  qed
  then show ?thesis using assms(1,2) by (auto simp: argptr_def curproc_def word_le_def word_less_def not_le not_less)
qed

theorem argptr_in_bounds_witness:
  "argptr 0 4080 arg_demo = Inr (Some 16) \<and> argptr 0 4081 arg_demo = Inr None \<and> argptr 0 (- 1) arg_demo = Inr None"
  using argptr_in_bounds [of arg_demo 0 0 16 4080] argptr_in_bounds [of arg_demo 0 0 16 4081]
    argptr_in_bounds [of arg_demo 0 0 16 "- 1"] arg_demo_argint by (simp add: KERNBASE_def)

text \<open>
  C20: a string argument is a string of the process. What \<open>fetchstr\<close> returns has no zero byte, is what the
  process has in its memory from the address on, followed by a zero byte, and that zero byte still
  lies below the size of the process.
\<close>

theorem fetchstr_reads_string:
  assumes "myproc s = Some p" "fetchstr a s = Inr (Some bs)"
  shows "unat a + length bs < unat (psz (ptable s p)) \<and> 0 \<notin> set bs \<and> uloads a (length bs + 1) s = Inr (bs @ [0])"
proof -
  have a: "a < psz (ptable s p)" "fetchstr_from (unat (psz (ptable s p)) - unat a) a s = Inr (Some bs)"
    using assms by (auto simp: fetchstr_def curproc_def not_le split: if_splits)
  show ?thesis using fetchstr_from_reads [OF a(2)] a(1) by (auto simp: word_less_nat_alt)
qed

theorem fetchstr_reads_string_witness:
  "fetchstr 16 arg_demo = Inr (Some [108, 115]) \<and> uloads 16 3 arg_demo = Inr [108, 115, 0]"
proof -
  have "fetchstr_from (Suc (Suc (Suc n))) 16 arg_demo = Inr (Some [108, 115])" for n
    by (simp add: arg_demo_uload arg_mem_def)
  from this [of 4077] have "fetchstr 16 arg_demo = Inr (Some [108, 115])" by (simp add: fetchstr_def curproc_def)
  then show ?thesis using fetchstr_reads_string [of arg_demo 0 16 "[108, 115]"] by (simp add: eval_nat_numeral)
qed

section \<open>Shrinking a process to nothing\<close>

text \<open>
  C29: giving back all memory fails half-way. When a process shrinks by exactly its size, \<open>growproc\<close> takes
  the size 0 that \<open>deallocuvm\<close> returns for an error: it returns -1 and leaves the size of the process
  as it was, although every page below that size has been unmapped, and the free list has grown by
  exactly the pages that were mapped there.
\<close>

theorem growproc_to_zero_loses_memory:
  fixes s :: "'a kern_st_scheme"
  assumes my: "myproc s = Some p" and ok: "uvm_ok s (pgdir (ptable s p)) xs"
    and sz: "0 < psz (ptable s p)" "psz (ptable s p) \<le> KERNBASE"
  shows "\<exists>s' ys. growproc (- uint (psz (ptable s p))) s = Inr (- 1, s') \<and> ptable s' = ptable s \<and>
    (\<forall>va < psz (ptable s p). umap (mem s') (pgdir (ptable s p)) va = None) \<and>
    kpool s' ys \<and> set ys = set xs \<union> mapped_in (mem s) (pgdir (ptable s p)) 0 (psz (ptable s p))"
proof -
  let ?sz = "psz (ptable s p)" and ?pd = "pgdir (ptable s p)"
  have z: "?sz + word_of_int (- uint ?sz) = 0" by (simp add: wi_hom_neg [symmetric])
  have n: "- uint ?sz < 0" "\<not> 0 < - uint ?sz" using sz(1) by (simp_all add: word_less_def)
  have r: "PGROUNDUP 0 = 0" by (simp add: PGROUNDUP_def PGSIZE_def)
  obtain s' where s': "deallocuvm ?pd ?sz 0 s = Inr (0, s')" "shrunk s s' ?pd 0 ?sz xs"
    using deallocuvm_ok [OF ok sz(2,1)] r by auto
  obtain m f where e: "s' = s\<lparr>mem := m, freelist := f\<rparr>" using s'(2) unfolding shrunk_def by blast
  have u: "umap (mem s') ?pd va = None" if "va < ?sz" for va
  proof -
    have "PGROUNDDOWN va \<le> va" by (simp add: PGROUNDDOWN_def word_and_le2)
    then have "in_pages 0 ?sz va" using that by (auto simp: in_pages_def)
    then show ?thesis using s'(2) unfolding shrunk_def by auto
  qed
  have "growproc (- uint ?sz) s = Inr (- 1, s')"
    using my n s'(1) by (simp add: growproc_def Let_def z)
  moreover have "ptable s' = ptable s" using e by simp
  moreover obtain ys where "uvm_ok s' ?pd ys" "set ys = set xs \<union> mapped_in (mem s) ?pd 0 ?sz"
    using s'(2) unfolding shrunk_def by blast
  moreover from this(1) have "kpool s' ys" by (simp add: uvm_ok_def pt_ok_def)
  ultimately show ?thesis using u by blast
qed

text \<open>The kernel state around a page table: \<open>vm_demo\<close> with one page mapped at address 0.\<close>

definition kern_of :: "kmem_st \<Rightarrow> kern_st" where
  "kern_of v = (file_st.extend file_demo (kern_st.fields True 0))\<lparr>held := held v, mem := mem v, kend := kend v,
     use_lock := use_lock v, freelist := freelist v,
     ptable := (\<lambda>_. bss_proc\<lparr>psz := 4096, pgdir := 0x80300000, state := RUNNING\<rparr>)\<rparr>"

lemma kern_of_sel [simp]:
  "held (kern_of v) = held v" "mem (kern_of v) = mem v" "kend (kern_of v) = kend v" "freelist (kern_of v) = freelist v"
  "psz (ptable (kern_of v) q) = 4096" "pgdir (ptable (kern_of v) q) = 0x80300000" "myproc (kern_of v) = Some 0"
  by (simp_all add: kern_of_def file_st.defs kern_st.defs file_demo_def cons_st.defs cons_demo_def myproc_def)

lemma kern_of_uvm: "uvm_ok (kern_of v) pd xs = uvm_ok v pd xs"
  by (simp add: uvm_ok_def pt_ok_def kpool_def page_ok_def)

theorem growproc_to_zero_loses_memory_witness:
  "\<exists>v ys zs s'. uvm_ok v 0x80300000 ys \<and> umap (mem v) 0x80300000 0 \<noteq> None \<and>
     growproc (- 4096) (kern_of v) = Inr (- 1, s') \<and> psz (ptable s' 0) = 4096 \<and> umap (mem s') 0x80300000 0 = None \<and>
     kpool s' zs \<and> zs \<noteq> []"
proof -
  obtain v :: kmem_st and ys where v: "uvm_ok v 0x80300000 ys"
    "\<And>va. in_pages 0 4096 va \<Longrightarrow> bit (entry (mem v) 0x80300000 va) 0 \<and> bit (entry (mem v) 0x80300000 va) 2"
    by (rule vm_demo_grown) blast
  have i: "in_pages 0 4096 0" by (simp add: in_pages_def PGROUNDDOWN_mod)
  then have m: "umap (mem v) 0x80300000 0 \<noteq> None" using v(2) [of 0] by (simp add: umap_def)
  then have "mapped_in (mem v) 0x80300000 0 4096 \<noteq> {}" using i by (auto simp: mapped_in_def)
  moreover have ok: "uvm_ok (kern_of v) (pgdir (ptable (kern_of v) 0)) ys" using v(1) by (simp add: kern_of_uvm)
  moreover obtain s' zs where "growproc (- 4096) (kern_of v) = Inr (- 1, s')" "ptable s' = ptable (kern_of v)"
    "\<forall>va < 4096. umap (mem s') 0x80300000 va = None" "kpool s' zs" "set zs = set ys \<union> mapped_in (mem v) 0x80300000 0 4096"
    using growproc_to_zero_loses_memory [OF kern_of_sel(7) ok] by (auto simp: KERNBASE_def)
  ultimately have "growproc (- 4096) (kern_of v) = Inr (- 1, s')" "psz (ptable s' 0) = 4096" "umap (mem s') 0x80300000 0 = None"
    "kpool s' zs" "zs \<noteq> []"
    by auto
  then show ?thesis using v(1) m by blast
qed

end
