(* ===== verification/Fs_Props.thy ===== *)
theory Fs_Props
  imports Fs Inode_Props
begin

text \<open>
  The contents of a file as a sequence of bytes, and what \<open>readi\<close> returns of it.
\<close>

section \<open>The blocks and bytes of a file\<close>

definition file_block :: "nat \<Rightarrow> 'a icache_st_scheme \<Rightarrow> nat \<Rightarrow> u32" where
  "file_block k s bn =
     (if bn < NDIRECT then iaddrs (inodes s k) ! bn
      else u32_at (view s (iaddrs (inodes s k) ! NDIRECT)) (4 * (bn - NDIRECT)))"

definition file_byte :: "nat \<Rightarrow> 'a icache_st_scheme \<Rightarrow> nat \<Rightarrow> u8" where
  "file_byte k s i = view s (file_block k s (i div BSIZE)) ! (i mod BSIZE)"

text \<open>The first \<open>n\<close> bytes of the file have their blocks, and the indirect block if they need it.\<close>

definition file_mapped :: "nat \<Rightarrow> 'a icache_st_scheme \<Rightarrow> nat \<Rightarrow> bool" where
  "file_mapped k s n \<longleftrightarrow> idev (inodes s k) = ROOTDEV \<and> n \<le> MAXFILE * BSIZE \<and>
     (\<forall>i < n. file_block k s (i div BSIZE) \<noteq> 0 \<and> file_block k s (i div BSIZE) < disksize s \<and>
        (NDIRECT \<le> i div BSIZE \<longrightarrow> iaddrs (inodes s k) ! NDIRECT \<noteq> 0 \<and> iaddrs (inodes s k) ! NDIRECT < disksize s))"

definition same_files :: "'a icache_st_scheme \<Rightarrow> 'a icache_st_scheme \<Rightarrow> bool" where
  "same_files s s' \<longleftrightarrow> tx_inv {} s' \<and> lframe s s' \<and> tx_obs_of s' = tx_obs_of s"

lemma same_filesD:
  assumes "same_files s s'"
  shows "tx_inv {} s'" "view s' = view s" "inodes s' = inodes s" "file_block k s' = file_block k s"
    "file_byte k s' = file_byte k s" "file_mapped k s' n = file_mapped k s n"
proof -
  show "tx_inv {} s'" using assms by (simp add: same_files_def)
  have o: "tx_obs_of s' = tx_obs_of s" using assms by (simp add: same_files_def)
  show v: "view s' = view s" using arg_cong [OF o, of t_view] by simp
  have f: "inodes s' = inodes s \<and> disksize s' = disksize s" using assms lframe_icache unfolding same_files_def by blast
  show "inodes s' = inodes s" using f by simp
  show b: "file_block k s' = file_block k s" using v f by (auto simp: file_block_def)
  show y: "file_byte k s' = file_byte k s" using v b by (auto simp: file_byte_def)
  show "file_mapped k s' n = file_mapped k s n" using f b by (simp add: file_mapped_def)
qed

lemma same_files_trans: "same_files s s1 \<Longrightarrow> same_files s1 s2 \<Longrightarrow> same_files s s2"
  using lframe_trans by (auto simp: same_files_def)

lemma read_block:
  fixes s :: "'a icache_st_scheme"
  assumes "tx_inv {} s" "b < disksize s"
  obtains i s1 s2 where "bread ROOTDEV b s = Inr (i, s1)" "bdata (bufs s1 i) = view s b" "brelse i s1 = Inr s2"
    "same_files s s2" "inodes s1 = inodes s"
proof -
  obtain i s1 s2 where r: "bread 1 b s = Inr (i, s1)" "bdata (bufs s1 i) = view s b" "lframe s s1" "brelse i s1 = Inr s2"
    "tx_inv {} s2" "lframe s s2" "tx_obs_of s2 = tx_obs_of s"
    using tx.read_only [OF assms(1), of b] assms(2) by auto
  then show thesis using that [of i s1 s2] lframe_icache [OF r(3)] by (simp add: ROOTDEV_def same_files_def)
qed

lemma bmap_mapped:
  fixes s :: "'a icache_st_scheme"
  assumes inv: "tx_inv {} s" and m: "file_mapped k s n" and i: "i < n"
  shows "\<exists>s'. bmap k (of_nat (i div BSIZE)) s = Inr (file_block k s (i div BSIZE), s') \<and> same_files s s'"
proof -
  let ?bn = "i div BSIZE"
  have f: "file_block k s ?bn \<noteq> 0" "idev (inodes s k) = ROOTDEV"
    "NDIRECT \<le> ?bn \<Longrightarrow> iaddrs (inodes s k) ! NDIRECT \<noteq> 0 \<and> iaddrs (inodes s k) ! NDIRECT < disksize s"
    using m i unfolding file_mapped_def by auto
  have lt: "?bn < MAXFILE"
    using m i by (auto simp: file_mapped_def less_mult_imp_div_less)
  then have u: "unat (of_nat ?bn :: u32) = ?bn"
    by (simp add: unat_of_nat take_bit_eq_mod MAXFILE_def NDIRECT_def NINDIRECT_def BSIZE_def)
  show ?thesis
  proof (cases "?bn < NDIRECT")
    case True
    then show ?thesis using f(1) u inv by (simp add: bmap_def file_block_def Let_def same_files_def lframe_refl)
  next
    case False
    then have a: "iaddrs (inodes s k) ! NDIRECT \<noteq> 0" "iaddrs (inodes s k) ! NDIRECT < disksize s" using f(3) by auto
    obtain j s1 s2 where r: "bread ROOTDEV (iaddrs (inodes s k) ! NDIRECT) s = Inr (j, s1)"
      "bdata (bufs s1 j) = view s (iaddrs (inodes s k) ! NDIRECT)" "brelse j s1 = Inr s2" "same_files s s2"
      using read_block [OF inv a(2)] by blast
    have "?bn - NDIRECT < NINDIRECT" using lt False by (simp add: MAXFILE_def)
    then show ?thesis using False u f(1,2) a(1) r by (simp add: bmap_def file_block_def Let_def)
  qed
qed

lemma block_shift:
  fixes off j b :: nat
  assumes "off mod b + j < b"
  shows "(off + j) div b = off div b" "(off + j) mod b = off mod b + j"
proof -
  have e: "off + j = (off mod b + j) + b * (off div b)" by simp
  have b: "b \<noteq> 0" using assms by simp
  have "(off + j) div b = off div b + (off mod b + j) div b" by (subst e) (rule div_mult_self2 [OF b])
  then show "(off + j) div b = off div b" using assms by (simp only: div_less add_0_right)
  have "(off + j) mod b = (off mod b + j) mod b" by (subst e) (rule mod_mult_self2)
  then show "(off + j) mod b = off mod b + j" using assms by (simp only: mod_less)
qed

lemma file_bytes_in_block:
  assumes "length (view s (file_block k s (off div BSIZE))) = BSIZE" "m \<le> BSIZE - off mod BSIZE"
  shows "get_bytes (off mod BSIZE) m (view s (file_block k s (off div BSIZE))) = map (file_byte k s) [off..<off + m]"
proof (rule nth_equalityI)
  have l: "off mod BSIZE + m \<le> BSIZE" using assms(2) mod_less_divisor [of BSIZE off] by (simp add: BSIZE_def)
  show "length (get_bytes (off mod BSIZE) m (view s (file_block k s (off div BSIZE)))) = length (map (file_byte k s) [off..<off + m])"
    using assms(1) l by simp
  fix j assume "j < length (get_bytes (off mod BSIZE) m (view s (file_block k s (off div BSIZE))))"
  then have j: "j < m" using assms(1) l by simp
  have "off mod BSIZE + j < BSIZE" using j l by simp
  from block_shift [OF this] have "(off + j) div BSIZE = off div BSIZE" "(off + j) mod BSIZE = off mod BSIZE + j" .
  then show "get_bytes (off mod BSIZE) m (view s (file_block k s (off div BSIZE))) ! j = map (file_byte k s) [off..<off + m] ! j"
    using assms(1) l j by (simp add: nth_get_bytes file_byte_def)
qed

lemma readi_loop_reads:
  fixes s :: "'a icache_st_scheme"
  assumes "tx_inv {} s" "file_mapped k s n" "off + r \<le> n"
  shows "\<exists>s'. readi_loop k off r s = Inr (map (file_byte k s) [off..<off + r], s') \<and> same_files s s'"
  using assms
proof (induction r arbitrary: off s rule: less_induct)
  case (less r)
  show ?case
  proof (cases "r = 0")
    case True
    then show ?thesis using less.prems(1) by (simp add: readi_loop.simps same_files_def lframe_refl)
  next
    case False
    let ?m = "min r (BSIZE - off mod BSIZE)" and ?b = "file_block k s (off div BSIZE)"
    have off: "off < n" using less.prems(3) False by simp
    obtain s1 where s1: "bmap k (of_nat (off div BSIZE)) s = Inr (?b, s1)" "same_files s s1"
      using bmap_mapped [OF less.prems(1,2) off] by blast
    note d1 = same_filesD [OF s1(2)]
    have b: "?b < disksize s1" "idev (inodes s1 k) = ROOTDEV"
    proof -
      have "file_mapped k s1 n" using less.prems(2) d1(6) by simp
      then show "?b < disksize s1" "idev (inodes s1 k) = ROOTDEV"
        using off unfolding file_mapped_def by (auto simp: d1(4))
    qed
    obtain bp s2 s3 where s3: "bread ROOTDEV ?b s1 = Inr (bp, s2)" "bdata (bufs s2 bp) = view s1 ?b"
      "brelse bp s2 = Inr s3" "same_files s1 s3" using read_block [OF d1(1) b(1)] by blast
    have ss: "same_files s s3" using same_files_trans [OF s1(2) s3(4)] .
    note d3 = same_filesD [OF ss]
    have bytes: "get_bytes (off mod BSIZE) ?m (view s ?b) = map (file_byte k s) [off..<off + ?m]"
      using tx.t_len [OF less.prems(1), of ?b] by (intro file_bytes_in_block) simp_all
    have "0 < ?m" using False mod_less_divisor [of BSIZE off] by (simp add: BSIZE_def)
    then have lt: "r - ?m < r" using False by simp
    have "file_mapped k s3 n" "off + ?m + (r - ?m) \<le> n" using less.prems(2,3) d3(6) by simp_all
    from less.IH [OF lt d3(1) this]
    have "\<exists>s'. readi_loop k (off + ?m) (r - ?m) s3 = Inr (map (file_byte k s) [off + ?m..<off + r], s') \<and> same_files s3 s'"
      by (simp add: d3(5))
    then obtain s' where s': "readi_loop k (off + ?m) (r - ?m) s3 = Inr (map (file_byte k s) [off + ?m..<off + r], s')"
      "same_files s3 s'" by blast
    have "map (file_byte k s) [off..<off + ?m] @ map (file_byte k s) [off + ?m..<off + r] = map (file_byte k s) [off..<off + r]"
      using upt_add_eq_append [of off "off + ?m" "r - ?m"] by (simp flip: map_append)
    then have "readi_loop k off r s = Inr (map (file_byte k s) [off..<off + r], s')"
      using False s1(1) s3(1-3) b(2) s'(1) bytes d1(2) by (subst readi_loop.simps) (simp add: Let_def)
    then show ?thesis using same_files_trans [OF ss s'(2)] by blast
  qed
qed

section \<open>Reading a file\<close>

text \<open>
  C5: \<open>readi\<close> returns the contents. For a file whose blocks are allocated, through direct and indirect
  block numbers, \<open>readi\<close> fails exactly when the offset is beyond the end or the range wraps around;
  otherwise it returns the bytes of the file from the offset on, as many as were asked for or are
  left, across any number of blocks, and changes neither a block nor an inode.
\<close>

theorem readi_returns_contents:
  fixes s :: "'a cons_st_scheme"
  assumes inv: "tx_inv {} s" and ty: "itype (inodes s k) \<noteq> T_DEV"
    and m: "file_mapped k s (unat (isize (inodes s k)))"
  shows "if off > isize (inodes s k) \<or> off + n < off then readi k off n s = Inr (- 1, [], s)
    else (let len = min (unat n) (unat (isize (inodes s k)) - unat off) in
      \<exists>s'. readi k off n s = Inr (int len, map (file_byte k s) [unat off..<unat off + len], s') \<and>
        tx_inv {} s' \<and> view s' = view s \<and> inodes s' = inodes s)"
proof (cases "off > isize (inodes s k) \<or> off + n < off")
  case True
  then show ?thesis using ty by (simp add: readi_def)
next
  case False
  let ?sz = "isize (inodes s k)"
  define n' where "n' = (if off + n > ?sz then ?sz - off else n)"
  have le: "unat off \<le> unat ?sz" using False by (simp add: not_less word_le_nat_alt)
  have "unat (off + n) = unat off + unat n"
    using False by (simp add: not_less no_olen_add_nat [symmetric] unat_plus_simple)
  then have u: "unat n' = min (unat n) (unat ?sz - unat off)"
    using le by (auto simp: n'_def word_less_nat_alt unat_sub word_le_nat_alt)
  have "unat ?sz \<le> MAXFILE * BSIZE" using m by (simp add: file_mapped_def)
  then have small: "unat n' < 2 ^ 31" using u by (simp add: MAXFILE_def NDIRECT_def NINDIRECT_def BSIZE_def)
  have ui: "int (unat n') = uint n'" by simp
  have "int (unat n') < 2 ^ 31" using small by (metis of_nat_less_iff of_nat_numeral of_nat_power)
  then have "uint n' < 2 ^ 31" by (simp only: ui)
  then have si: "sint n' = int (unat n')" using sint32 [of n'] by (simp only: ui if_True)
  have "unat off + unat n' \<le> unat ?sz" using u le by simp
  from readi_loop_reads [OF inv m this] obtain s' where s':
    "readi_loop k (unat off) (unat n') s = Inr (map (file_byte k s) [unat off..<unat off + unat n'], s')" "same_files s s'"
    by blast
  have "readi k off n s = Inr (int (unat n'), map (file_byte k s) [unat off..<unat off + unat n'], s')"
    using False ty s'(1) si by (simp add: readi_def n'_def [symmetric] Let_def)
  then show ?thesis using False same_filesD(1-3) [OF s'(2)] u by (simp add: Let_def)
qed

text \<open>A file of 20 bytes whose only block is the bitmap block of the small file system.\<close>

definition read_demo :: cons_st where
  "read_demo = (fs_demo (icache_st.more cons_demo))
     \<lparr>inodes := (\<lambda>_. root_inode\<lparr>itype := T_FILE, isize := 20, iaddrs := 58 # replicate 12 0\<rparr>)\<rparr>"

lemma read_demo_facts:
  "tx_inv {} read_demo" "view read_demo = fs_img" "disksize read_demo = 1000"
  "inodes read_demo k = root_inode\<lparr>itype := T_FILE, isize := 20, iaddrs := 58 # replicate 12 0\<rparr>"
proof -
  let ?s = "fs_demo (icache_st.more cons_demo)"
  show "tx_inv {} read_demo" using fs_demo_tx(1) [of "icache_st.more cons_demo"]
    unfolding read_demo_def by (subst tx_inv_cong [of _ ?s]) simp_all
  have "view read_demo = view ?s" unfolding read_demo_def by (intro view_cong) simp_all
  then show "view read_demo = fs_img" by (simp add: fs_demo_tx(2))
qed (simp_all add: read_demo_def)

theorem readi_returns_contents_witness:
  "\<exists>s'. readi 0 12 100 read_demo = Inr (8, [0xFF, 0, 0, 0, 0, 0, 0, 0], s')"
proof -
  note f = read_demo_facts
  have blk: "file_block 0 read_demo (i div BSIZE) = 58" "i div BSIZE = 0" "i mod BSIZE = i" if "i < 20" for i
    using that by (simp_all add: file_block_def f NDIRECT_def BSIZE_def)
  have m: "file_mapped 0 read_demo (unat (isize (inodes read_demo 0)))"
    unfolding file_mapped_def using blk by (auto simp: f root_inode_def ROOTDEV_def MAXFILE_def NDIRECT_def NINDIRECT_def BSIZE_def)
  have fb: "file_byte 0 read_demo i = fs_img 58 ! i" if "i < 20" for i
    using blk [OF that] by (simp add: file_byte_def f(2))
  have "[12..<20] = [12, 13, 14, 15, 16, 17, 18, 19 :: nat]" by (simp add: upt_rec)
  then have bytes: "map (file_byte 0 read_demo) [12..<20] = [0xFF, 0, 0, 0, 0, 0, 0, 0]"
    by (simp add: fb fs_img_def nth_append BSIZE_def)
  have ty: "itype (inodes read_demo 0) \<noteq> T_DEV" by (simp add: f T_FILE_def T_DEV_def)
  show ?thesis
    using readi_returns_contents [OF f(1) ty m, of 12 100] bytes by (auto simp: f Let_def)
qed

end
