(* ===== verification/Net_Packet.thy ===== *)
theory Net_Packet
  imports Strings
begin

text \<open>
  The packet layouts of \<open>xv6/pkts_hdr.h\<close>, the byte-order conversions of \<open>xv6/eth.c\<close> and the Internet
  checksums of \<open>xv6/ipv4.c\<close>, \<open>xv6/icmp.c\<close> and \<open>xv6/tcp.c\<close>.

  A packet is bytes of memory, as in the source; \<open>mbytes m a n\<close> reads \<open>n\<close> of them and \<open>mput m a bs\<close> is
  a store of the bytes \<open>bs\<close>: a field assignment of a packed struct, or a \<open>memmove\<close> from an array of
  the kernel's data segment. The decoders \<open>eth_pkt_at\<close>, \<open>arp_pkt_at\<close>, ... read a whole header.
  \<open>oc_sum\<close> is the one's complement sum of RFC 1071, against which the checksum loops are proved.
\<close>

named_theorems pkt_simps \<open>reading back the fields of a packet that has just been written\<close>

section \<open>Bytes of memory\<close>

definition mbytes :: "mem \<Rightarrow> u32 \<Rightarrow> nat \<Rightarrow> u8 list" where
  "mbytes m a n = map (rd m a) [0..<n]"

fun mput :: "mem \<Rightarrow> u32 \<Rightarrow> u8 list \<Rightarrow> mem" where
  "mput m a [] = m"
| "mput m a (b # bs) = mput (m(a := b)) (a + 1) bs"

definition put16 :: "mem \<Rightarrow> u32 \<Rightarrow> u16 \<Rightarrow> mem" where
  "put16 m a w = mput m a (le16 w)"

definition get16 :: "mem \<Rightarrow> u32 \<Rightarrow> u16" where
  "get16 m a = of_le16 (mbytes m a 2)"

section \<open>Byte order\<close>

definition N2H_ushort :: "u16 \<Rightarrow> u16" where
  "N2H_ushort value = push_bit 8 (value AND 0xFF) + drop_bit 8 value"

definition H2N_ushort :: "u16 \<Rightarrow> u16" where
  "H2N_ushort value = push_bit 8 (value AND 0xFF) + drop_bit 8 value"

definition H2N_uint :: "u32 \<Rightarrow> u32" where
  "H2N_uint value = push_bit 24 (value AND 0xF) + push_bit 8 (value AND 0xF0) +
     drop_bit 8 (value AND 0xF00) + drop_bit 24 (value AND 0xF000)"

definition N2H_uint :: "u32 \<Rightarrow> u32" where
  "N2H_uint value = push_bit 24 (value AND 0xFF) + push_bit 8 (value AND 0xFF00) +
     drop_bit 8 (value AND 0xFF0000) + drop_bit 24 (value AND 0xFF000000)"

section \<open>Headers\<close>

record eth_pkt =
  eth_dst_mac :: "u8 list"
  eth_src_mac :: "u8 list"
  eth_type :: "u8 list"

record arp_pkt =
  hrd_type :: u16
  pro_type :: u16
  hrd_len :: u8
  pro_len :: u8
  arp_op :: u16
  arp_src_mac :: "u8 list"
  arp_src_ip :: "u8 list"
  arp_dst_mac :: "u8 list"
  arp_dst_ip :: "u8 list"

record ipv4_pkt =
  ip_ver :: u8
  srv_type :: u8
  total_len :: u16
  ip_ident :: u16
  fragment :: u16
  ttl :: u8
  protocol :: u8
  ip_chk_sum :: u16
  ip_src_ip :: "u8 list"
  ip_dst_ip :: "u8 list"

record icmp_echo_pkt =
  icmp_type :: u8
  icmp_code :: u8
  icmp_chk_sum :: u16
  icmp_id :: u16
  icmp_seq_num :: u16
  time_stamp :: "u8 list"
  icmp_data :: "u8 list"

record tcp_pkt =
  src_port :: u16
  dst_port :: u16
  tcp_seq_num :: u32
  ack_num :: u32
  code_bits :: "u8 list"
  window :: u16
  tcp_chk_sum :: u16
  urgent_ptr :: u16

definition eth_pkt_at :: "mem \<Rightarrow> u32 \<Rightarrow> eth_pkt" where
  "eth_pkt_at m a = \<lparr>eth_dst_mac = mbytes m a 6, eth_src_mac = mbytes m (a + 6) 6, eth_type = mbytes m (a + 12) 2\<rparr>"

definition arp_pkt_at :: "mem \<Rightarrow> u32 \<Rightarrow> arp_pkt" where
  "arp_pkt_at m a = \<lparr>hrd_type = get16 m a, pro_type = get16 m (a + 2), hrd_len = m (a + 4), pro_len = m (a + 5),
     arp_op = get16 m (a + 6), arp_src_mac = mbytes m (a + 8) 6, arp_src_ip = mbytes m (a + 14) 4,
     arp_dst_mac = mbytes m (a + 18) 6, arp_dst_ip = mbytes m (a + 24) 6\<rparr>"

definition ipv4_pkt_at :: "mem \<Rightarrow> u32 \<Rightarrow> ipv4_pkt" where
  "ipv4_pkt_at m a = \<lparr>ip_ver = m a, srv_type = m (a + 1), total_len = get16 m (a + 2), ip_ident = get16 m (a + 4),
     fragment = get16 m (a + 6), ttl = m (a + 8), protocol = m (a + 9), ip_chk_sum = get16 m (a + 10),
     ip_src_ip = mbytes m (a + 12) 4, ip_dst_ip = mbytes m (a + 16) 4\<rparr>"

definition icmp_echo_pkt_at :: "mem \<Rightarrow> u32 \<Rightarrow> icmp_echo_pkt" where
  "icmp_echo_pkt_at m a = \<lparr>icmp_type = m a, icmp_code = m (a + 1), icmp_chk_sum = get16 m (a + 2),
     icmp_id = get16 m (a + 4), icmp_seq_num = get16 m (a + 6), time_stamp = mbytes m (a + 8) 8,
     icmp_data = mbytes m (a + 16) 48\<rparr>"

definition tcp_pkt_at :: "mem \<Rightarrow> u32 \<Rightarrow> tcp_pkt" where
  "tcp_pkt_at m a = \<lparr>src_port = get16 m a, dst_port = get16 m (a + 2), tcp_seq_num = load32 m (a + 4),
     ack_num = load32 m (a + 8), code_bits = mbytes m (a + 12) 2, window = get16 m (a + 14),
     tcp_chk_sum = get16 m (a + 16), urgent_ptr = get16 m (a + 18)\<rparr>"

section \<open>Checksum loops\<close>

definition be_word :: "reader \<Rightarrow> nat \<Rightarrow> u32" where
  "be_word bin i = push_bit 8 (ucast (bin (i * 2))) + ucast (bin (i * 2 + 1))"

fun chksum_from :: "reader \<Rightarrow> nat \<Rightarrow> nat \<Rightarrow> u32 \<Rightarrow> u32" where
  "chksum_from bin i 0 chk_sum = chk_sum"
| "chksum_from bin i (Suc n) chk_sum =
     (let chk_sum = chk_sum + be_word bin i;
          chk_sum = (if chk_sum > 0xFFFF then (chk_sum AND 0xFFFF) + 1 else chk_sum) in
      chksum_from bin (Suc i) n chk_sum)"

definition ipv4_chksum :: "reader \<Rightarrow> u16" where
  "ipv4_chksum bin = (let len = (bin 0 AND 0xF) * 2 in ucast (NOT (chksum_from bin 0 (unat len) 0)))"

definition icmp_chksum :: "reader \<Rightarrow> u16" where
  "icmp_chksum bin = ucast (NOT (chksum_from bin 0 32 0))"

fun tcp_sum_from :: "reader \<Rightarrow> nat \<Rightarrow> nat \<Rightarrow> u32 \<Rightarrow> u32" where
  "tcp_sum_from bin i 0 chk_sum = chk_sum"
| "tcp_sum_from bin i (Suc n) chk_sum = tcp_sum_from bin (Suc i) n (chk_sum + be_word bin i)"

text \<open>The pseudo header \<open>struct tcp_dummy\<close>, as the twelve bytes the checksum reads.\<close>

definition tcp_dummy :: "u8 list \<Rightarrow> u8 list \<Rightarrow> u16 \<Rightarrow> u8 list" where
  "tcp_dummy src_ip dst_ip tcp_len = src_ip @ dst_ip @ [0, 6] @ le16 tcp_len"

definition tcp_chksum :: "u8 list \<Rightarrow> mem \<Rightarrow> u32 \<Rightarrow> u16" where
  "tcp_chksum my_ip m tcp_addr =
     (let ipv4_p = ipv4_pkt_at m tcp_addr;
          tcp_len = H2N_ushort (N2H_ushort (total_len ipv4_p) - 20);
          dummy = tcp_dummy my_ip (ip_src_ip ipv4_p) tcp_len;
          chk_sum = tcp_sum_from (\<lambda>k. dummy ! k) 0 6 0;
          chk_sum = tcp_sum_from (rd m (tcp_addr + 20)) 0 (unat (N2H_ushort tcp_len) div 2) chk_sum;
          chk_sum = chk_sum + drop_bit 16 chk_sum in
      ucast (NOT chk_sum))"

section \<open>Reading back what was stored\<close>

lemma length_mbytes [simp]: "length (mbytes m a n) = n"
  by (simp add: mbytes_def)

lemma nth_mbytes [simp]: "k < n \<Longrightarrow> mbytes m a n ! k = m (a + of_nat k)"
  by (simp add: mbytes_def rd_def)

lemma mput_apply:
  "length bs < 2 ^ 32 \<Longrightarrow> mput m a bs x = (if unat (x - a) < length bs then bs ! unat (x - a) else m x)"
proof (induction bs arbitrary: m a)
  case (Cons b bs)
  show ?case
  proof (cases "x = a")
    case True
    then show ?thesis using Cons by (simp add: unsigned_minus_1_eq_mask mask_eq_exp_minus_1)
  next
    case False
    then have "unat (x - a) = Suc (unat (x - (a + 1)))" using addr_0_iff [of x a] addr_step [of x a] by simp
    then show ?thesis using Cons False by simp
  qed
qed simp

declare mput.simps(2) [simp del]

lemma mput_byte [simp]: "mput m a [b] a = b"
  by (simp add: mput.simps)

lemma bytes_nonempty [simp]: "le16 w \<noteq> []" "le32 v \<noteq> []" "mbytes m a n = [] \<longleftrightarrow> n = 0"
  by (simp_all add: le16_def le32_def mbytes_def)

lemma memmove_mput:
  assumes "unat src + unat n < 2 ^ 32" "unat dst + unat n \<le> 2 ^ 32"
  shows "memmove m dst src n = mput m dst (mbytes m src (unat n))"
proof
  fix x show "memmove m dst src n x = mput m dst (mbytes m src (unat n)) x"
    using memmove_apply [OF assms] unat32_lt [of n] by (simp add: mput_apply)
qed

lemma mbytes_mput_same [pkt_simps]: "length bs = n \<Longrightarrow> n < 2 ^ 32 \<Longrightarrow> mbytes (mput m a bs) a n = bs"
  by (rule nth_equalityI) (auto simp: mput_apply unat_of_nat)

text \<open>\<open>apart a n b k\<close>: the \<open>n\<close> bytes from \<open>a\<close> and the \<open>k\<close> bytes from \<open>b\<close> do not overlap.\<close>

definition apart :: "u32 \<Rightarrow> nat \<Rightarrow> u32 \<Rightarrow> nat \<Rightarrow> bool" where
  "apart a n b k \<longleftrightarrow> n \<le> unat (b - a) \<and> k \<le> unat (a - b)"

lemma apart_iff: "apart a n b k \<longleftrightarrow> (if b = a then n = 0 \<and> k = 0 else n \<le> unat (b - a) \<and> unat (b - a) + k \<le> 2 ^ 32)"
proof (cases "b = a")
  case False
  then have "a - b = 0 - (b - a)" "unat (b - a) \<noteq> 0" by (simp_all add: unat_eq_zero)
  then have "unat (a - b) = 2 ^ 32 - unat (b - a)"
    using unat_sub_if_size [of 0 "b - a"] by (simp add: word_size)
  then show ?thesis using False unat32_lt [of "b - a"] by (auto simp: apart_def)
qed (auto simp: apart_def)

lemma apart_byte:
  assumes "apart a n b k" "j < k"
  shows "n \<le> unat (b + of_nat j - a)"
proof -
  have D: "n \<le> unat (b - a)" "unat (b - a) + j < 2 ^ 32"
    using assms by (auto simp: apart_iff split: if_splits)
  have e: "b + of_nat j - a = (b - a) + of_nat j" by simp
  show ?thesis unfolding e using D by (simp add: unat_word_ariths unat_of_nat)
qed

lemma mbytes_mput_apart:
  assumes "apart a (length bs) b n" "length bs < 2 ^ 32"
  shows "mbytes (mput m a bs) b n = mbytes m b n"
proof (rule nth_equalityI)
  fix j assume "j < length (mbytes (mput m a bs) b n)"
  then show "mbytes (mput m a bs) b n ! j = mbytes m b n ! j"
    using apart_byte [OF assms(1), of j] assms(2) by (simp add: mput_apply not_less)
qed simp

lemma byte_mput_apart: "apart a (length bs) b 1 \<Longrightarrow> length bs < 2 ^ 32 \<Longrightarrow> mput m a bs b = m b"
  using apart_byte [of a "length bs" b 1 0] by (simp add: mput_apply not_less)

lemma mbytes_cong: "(\<And>j. j < n \<Longrightarrow> m' (a + of_nat j) = m (a + of_nat j)) \<Longrightarrow> mbytes m' a n = mbytes m a n"
  by (simp add: mbytes_def rd_def)

lemma mput_outside:
  assumes "unat k + length bs \<le> N" "N \<le> unat (a - d)" "N < 2 ^ 32"
  shows "mput m (d + k) bs a = m a"
proof -
  have "unat (a - (d + k)) = unat (a - d) - unat k" using assms by (intro addr_plus) simp
  then have "\<not> unat (a - (d + k)) < length bs" using assms by linarith
  then show ?thesis using assms by (subst mput_apply) simp_all
qed

lemma mput_outside_0: "length bs \<le> N \<Longrightarrow> N \<le> unat (a - d) \<Longrightarrow> N < 2 ^ 32 \<Longrightarrow> mput m d bs a = m a"
  using mput_outside [of 0 bs N a d m] by simp

text \<open>Two places of one packet: their offsets decide.\<close>

lemma apart_offset [pkt_simps]:
  "apart (a + j) n (a + k) l \<longleftrightarrow> apart j n k l"
  "apart a n (a + k) l \<longleftrightarrow> apart 0 n k l"
  "apart (a + j) n a l \<longleftrightarrow> apart j n 0 l"
  by (simp_all add: apart_def)

lemma apart_sym: "apart a n b k \<longleftrightarrow> apart b k a n"
  by (auto simp: apart_def)

lemma apart_below [pkt_simps]:
  assumes "unat j < unat k" "unat j + n \<le> unat k" "unat k + l \<le> 2 ^ 32"
  shows "apart j n k l"
proof -
  have "unat (k - j) = unat k - unat j" "j \<noteq> k"
    using assms unat_sub_if_size [of k j] by (auto simp: word_le_nat_alt)
  then show ?thesis using assms by (auto simp: apart_iff)
qed

lemma apart_above [pkt_simps]: "unat k < unat j \<Longrightarrow> unat k + l \<le> unat j \<Longrightarrow> unat j + n \<le> 2 ^ 32 \<Longrightarrow> apart j n k l"
  using apart_below [of k j l n] by (simp add: apart_sym [of j])

lemma apart_within:
  assumes "apart a N b K" "unat j + n \<le> N" "unat k + l \<le> K" "0 < n" "0 < l"
  shows "apart (a + j) n (b + k) l"
proof -
  have D: "b \<noteq> a" "N \<le> unat (b - a)" "unat (b - a) + K \<le> 2 ^ 32"
    using assms by (auto simp: apart_iff split: if_splits)
  have e: "b + k - (a + j) = (b - a) + k - j" by simp
  have "unat ((b - a) + k) = unat (b - a) + unat k" using D assms by (simp add: unat_word_ariths)
  then have "unat (b + k - (a + j)) = unat (b - a) + unat k - unat j"
    unfolding e using D assms unat_sub_if_size [of "(b - a) + k" j] by (simp add: word_le_nat_alt)
  moreover have "b + k \<noteq> a + j" using calculation assms D by auto
  ultimately show ?thesis using D assms by (auto simp: apart_iff)
qed

section \<open>Byte order conversions\<close>

lemma le16_H2N: "le16 (H2N_ushort v) = [ucast (drop_bit 8 v), ucast v]"
proof -
  have "H2N_ushort v = push_bit 8 (v AND 0xFF) OR drop_bit 8 v"
    unfolding H2N_ushort_def by (rule disjunctive_add) (auto simp: bit_simps and_FF dest: bit_imp_le_length)
  then show ?thesis by (simp add: le16_def) (auto intro!: bit_word_eqI simp: bit_simps and_FF)
qed

lemma N2H_H2N_ushort: "N2H_ushort (H2N_ushort v) = v"
proof -
  have "le16 (N2H_ushort (H2N_ushort v)) = le16 v"
    using le16_H2N [of "H2N_ushort v"] le16_H2N [of v] by (simp add: N2H_ushort_def H2N_ushort_def le16_def)
  then show ?thesis by (metis of_le16_le16)
qed

section \<open>The one's complement sum\<close>

definition oc_sum :: "nat \<Rightarrow> nat" where
  "oc_sum n = (if n = 0 then 0 else (n - 1) mod 65535 + 1)"

lemma oc_sum_le: "oc_sum n \<le> 65535"
  using mod_less_divisor [of 65535 "n - 1"] by (simp add: oc_sum_def del: mod_less_divisor)

lemma oc_sum_fold: "0 < n \<Longrightarrow> oc_sum (n + 65535) = oc_sum n"
  using mod_add_self2 [of "n - 1" 65535] by (simp add: oc_sum_def)

lemma oc_sum_small: "n \<le> 65535 \<Longrightarrow> oc_sum n = n"
  by (simp add: oc_sum_def)

text \<open>A sum and the complement of its checksum together are all ones.\<close>

lemma oc_sum_complement: "oc_sum (n + (65535 - oc_sum n)) = 65535"
proof (cases "n = 0")
  case False
  define k where "k = (n - 1) div 65535"
  have "n = k * 65535 + (n - 1) mod 65535 + 1" using False unfolding k_def by simp
  moreover have "(n - 1) mod 65535 < 65535" by simp
  ultimately have "n + (65535 - oc_sum n) = k * 65535 + 65535" using False by (simp add: oc_sum_def)
  moreover have "oc_sum (k * 65535 + 65535) = 65535" for k
  proof (induction k)
    case (Suc k)
    then show ?case using oc_sum_fold [of "k * 65535 + 65535"] by (simp add: algebra_simps)
  qed (simp add: oc_sum_def)
  ultimately show ?thesis by simp
qed (simp add: oc_sum_def)

definition word_sum :: "reader \<Rightarrow> nat \<Rightarrow> nat \<Rightarrow> nat" where
  "word_sum bin i n = (\<Sum>k = i..<i + n. unat (be_word bin k))"

lemma word_sum_Suc: "word_sum bin i (Suc n) = unat (be_word bin i) + word_sum bin (Suc i) n"
  by (simp add: word_sum_def sum.atLeast_Suc_lessThan)

lemma unat8_lt: "unat (b :: u8) < 256"
  by (rule order.strict_trans2 [OF unsigned_less]) simp

lemma unat16_lt: "unat (w :: u16) < 65536"
  by (rule order.strict_trans2 [OF unsigned_less]) simp

lemma unat_be_word: "unat (be_word bin i) = 256 * unat (bin (i * 2)) + unat (bin (i * 2 + 1))"
proof -
  note b = unat8_lt [of "bin (i * 2)"] unat8_lt [of "bin (i * 2 + 1)"]
  have t: "take_bit 32 (unat x) = unat x" for x :: u8
    using unat8_lt [of x] by (simp add: take_bit_nat_eq_self_iff)
  have "unat (push_bit 8 (ucast (bin (i * 2))) :: u32) = 256 * unat (bin (i * 2))"
    using b by (simp add: push_bit_eq_mult unat_word_ariths unsigned_ucast_eq t)
  then show ?thesis
    using b by (simp add: be_word_def unat_word_ariths unsigned_ucast_eq t)
qed

lemma be_word_le: "unat (be_word bin i) \<le> 65535"
  using unat8_lt [of "bin (i * 2)"] unat8_lt [of "bin (i * 2 + 1)"] by (simp add: unat_be_word)

lemma fold_carry: "0xFFFF < c \<Longrightarrow> unat c \<le> 131070 \<Longrightarrow> unat ((c AND 0xFFFF) + 1) = unat c - 65535" for c :: u32
proof -
  assume c: "0xFFFF < c" "unat c \<le> 131070"
  then have "65535 < unat c" by (simp add: word_less_nat_alt)
  moreover have "unat (c AND 0xFFFF) = unat c mod 65536"
  proof -
    have "unat (c AND 0xFFFF) = unat (take_bit 16 c)" by (simp add: take_bit_eq_mask mask_eq_exp_minus_1)
    then show ?thesis by (simp only: unsigned_take_bit_eq) (simp add: take_bit_eq_mod)
  qed
  ultimately show ?thesis using c by (simp add: unat_word_ariths le_mod_geq)
qed

lemma chksum_from_correct:
  "unat c \<le> 65535 \<Longrightarrow> unat (chksum_from bin i n c) = oc_sum (unat c + word_sum bin i n)"
proof (induction n arbitrary: i c)
  case 0
  then show ?case by (simp add: word_sum_def oc_sum_small)
next
  case (Suc n)
  let ?c = "c + be_word bin i"
  have c: "unat ?c = unat c + unat (be_word bin i)" "unat ?c \<le> 131070"
    using Suc.prems be_word_le [of bin i] by (simp_all add: unat_word_ariths)
  show ?case
  proof (cases "?c > 0xFFFF")
    case True
    then have f: "unat ((?c AND 0xFFFF) + 1) = unat ?c - 65535" and g: "65535 < unat ?c"
      using fold_carry c by (simp_all add: word_less_nat_alt)
    have "unat (chksum_from bin i (Suc n) c) = oc_sum (unat ?c - 65535 + word_sum bin (Suc i) n)"
      using True Suc.IH [of "(?c AND 0xFFFF) + 1" "Suc i"] f c by simp
    also have "\<dots> = oc_sum (unat ?c - 65535 + word_sum bin (Suc i) n + 65535)"
      using g by (intro oc_sum_fold [symmetric]) simp
    also have "\<dots> = oc_sum (unat c + word_sum bin i (Suc n))"
      using g c by (simp add: word_sum_Suc add.commute add.left_commute)
    finally show ?thesis .
  next
    case False
    then have "unat ?c \<le> 65535" by (simp add: not_less word_le_nat_alt)
    then show ?thesis using False Suc.IH [of ?c "Suc i"] c by (simp add: word_sum_Suc add.assoc)
  qed
qed

lemma not_u16: "unat c \<le> 65535 \<Longrightarrow> unat (ucast (NOT c) :: u16) = 65535 - unat c" for c :: u32
proof -
  assume c: "unat c \<le> 65535"
  have "(ucast (NOT c) :: u16) = NOT (ucast c)"
    by (rule bit_word_eqI) (auto simp: bit_simps)
  moreover have "unat (ucast c :: u16) = unat c" using c by (simp add: unsigned_ucast_eq take_bit_nat_eq_self_iff)
  moreover have "unat (NOT x) = 65535 - unat x" for x :: u16
  proof -
    have "NOT x = - 1 - x" by (simp add: not_eq_complement)
    moreover have "unat (- 1 :: u16) = 65535" by (simp add: unsigned_minus_1_eq_mask mask_eq_exp_minus_1)
    ultimately show ?thesis using unat_sub [of x "- 1"] unat16_lt [of x] by (simp add: word_le_nat_alt)
  qed
  ultimately show ?thesis by simp
qed

text \<open>Both checksum routines compute the complement of the one's complement sum.\<close>

lemma unat_ipv4_chksum:
  "unat (ipv4_chksum bin) = 65535 - oc_sum (word_sum bin 0 (unat ((bin 0 AND 0xF) * 2)))"
  using chksum_from_correct [of 0 bin 0] by (simp add: ipv4_chksum_def not_u16 oc_sum_le)

lemma unat_icmp_chksum: "unat (icmp_chksum bin) = 65535 - oc_sum (word_sum bin 0 32)"
  using chksum_from_correct [of 0 bin 0] by (simp add: icmp_chksum_def not_u16 oc_sum_le)

text \<open>Filling in a word that was zero adds it to the sum; filling in the checksum makes the sum all ones.\<close>

lemma word_sum_stamp:
  assumes "j < n" "be_word bin j = 0" "\<And>k. k \<noteq> j * 2 \<Longrightarrow> k \<noteq> j * 2 + 1 \<Longrightarrow> bin' k = bin k"
  shows "word_sum bin' 0 n = word_sum bin 0 n + unat (be_word bin' j)"
proof -
  have "be_word bin' k = be_word bin k" if "k \<noteq> j" for k
  proof -
    have "k * 2 \<noteq> j * 2 + 1" "k * 2 + 1 \<noteq> j * 2" by presburger+
    then show ?thesis using assms(3) that by (simp add: be_word_def)
  qed
  then have "(\<Sum>k\<in>{0..<n} - {j}. unat (be_word bin' k)) = (\<Sum>k\<in>{0..<n} - {j}. unat (be_word bin k))"
    by (intro sum.cong) auto
  then show ?thesis using assms(1,2) by (simp add: word_sum_def sum.remove [of "{0..<n}" j])
qed

lemma stamped_sum:
  assumes "j < n" "be_word bin j = 0" "\<And>k. k \<noteq> j * 2 \<Longrightarrow> k \<noteq> j * 2 + 1 \<Longrightarrow> bin' k = bin k"
    and "unat (be_word bin' j) = 65535 - oc_sum (word_sum bin 0 n)"
  shows "oc_sum (word_sum bin' 0 n) = 65535"
  using oc_sum_complement [of "word_sum bin 0 n"] word_sum_stamp [OF assms(1-3)] assms(4) by simp

lemma unat_be_pair: "unat (c :: u16) = 256 * unat (ucast (drop_bit 8 c) :: u8) + unat (ucast c :: u8)"
proof -
  have "unat (ucast (drop_bit 8 c) :: u8) = unat c div 256"
    using unat16_lt [of c] by (simp add: unsigned_ucast_eq unsigned_drop_bit_eq drop_bit_eq_div take_bit_eq_mod
      del: drop_bit_eq_div) (simp add: drop_bit_eq_div)
  moreover have "unat (ucast c :: u8) = unat c mod 256" by (simp add: unsigned_ucast_eq take_bit_eq_mod)
  ultimately show ?thesis by simp
qed

text \<open>
  \<open>bin'\<close> is \<open>bin\<close> with the checksum \<open>c\<close> stored in network order at word \<open>j\<close>, as
  \<open>chk_sum = H2N_ushort(c)\<close> does.
\<close>

definition stamp :: "nat \<Rightarrow> u16 \<Rightarrow> reader \<Rightarrow> reader" where
  "stamp j c bin = bin(j * 2 := ucast (drop_bit 8 c), j * 2 + 1 := ucast c)"

lemma stamp_sum:
  assumes "j < n" "be_word bin j = 0" "unat c = 65535 - oc_sum (word_sum bin 0 n)"
  shows "oc_sum (word_sum (stamp j c bin) 0 n) = 65535"
  using assms(1,2)
proof (rule stamped_sum)
  show "unat (be_word (stamp j c bin) j) = 65535 - oc_sum (word_sum bin 0 n)"
    using assms(3) unat_be_pair [of c] by (simp add: unat_be_word stamp_def)
qed (simp add: stamp_def)

lemma stamped_ipv4:
  assumes "3 \<le> unat (bin 0 AND 0xF)" "be_word bin 5 = 0"
  shows "ipv4_chksum (stamp 5 (ipv4_chksum bin) bin) = 0"
proof -
  let ?n = "unat ((bin 0 AND 0xF) * 2)"
  have "unat (bin 0 AND 0xF) \<le> unat (0xF :: u8)" by (metis word_and_le1 word_le_nat_alt)
  then have n: "5 < ?n" using assms(1) by (simp add: unat_word_ariths)
  have "oc_sum (word_sum (stamp 5 (ipv4_chksum bin) bin) 0 ?n) = 65535"
    by (rule stamp_sum [OF n assms(2) unat_ipv4_chksum])
  moreover have "stamp 5 (ipv4_chksum bin) bin 0 = bin 0" by (simp add: stamp_def)
  ultimately have "unat (ipv4_chksum (stamp 5 (ipv4_chksum bin) bin)) = 0"
    by (simp add: unat_ipv4_chksum)
  then show ?thesis by (simp add: unat_eq_zero)
qed

lemma stamped_icmp:
  assumes "be_word bin 1 = 0"
  shows "icmp_chksum (stamp 1 (icmp_chksum bin) bin) = 0"
proof -
  have "oc_sum (word_sum (stamp 1 (icmp_chksum bin) bin) 0 32) = 65535"
    by (rule stamp_sum [OF _ assms unat_icmp_chksum]) simp
  then have "unat (icmp_chksum (stamp 1 (icmp_chksum bin) bin)) = 0" by (simp add: unat_icmp_chksum)
  then show ?thesis by (simp add: unat_eq_zero)
qed

lemma chksum_from_cong:
  "(\<And>k. k < 2 * (i + n) \<Longrightarrow> bin' k = bin k) \<Longrightarrow> chksum_from bin' i n c = chksum_from bin i n c"
proof (induction n arbitrary: i c)
  case (Suc n)
  have "be_word bin' i = be_word bin i" using Suc.prems by (simp add: be_word_def)
  moreover have "chksum_from bin' (Suc i) n c = chksum_from bin (Suc i) n c" for c
    by (rule Suc.IH) (use Suc.prems in simp)
  ultimately show ?case by simp
qed simp

text \<open>A packet in memory whose checksum field was zero when the checksum was computed and stored.\<close>

lemma stamped_bytes:
  assumes "mbytes m' a n = mbytes (mput m (a + of_nat (j * 2)) (le16 (H2N_ushort c))) a n" "n < 2 ^ 32" "j * 2 + 2 \<le> n" "k < n"
  shows "rd m' a k = stamp j c (rd m a) k"
proof -
  have "rd m' a k = mput m (a + of_nat (j * 2)) (le16 (H2N_ushort c)) (a + of_nat k)"
    using arg_cong [OF assms(1), of "\<lambda>bs. bs ! k"] assms(4) by (simp add: rd_def)
  also have "\<dots> = stamp j c (rd m a) k"
  proof -
    have u: "unat (of_nat k :: u32) = k" "unat (of_nat (j * 2) :: u32) = j * 2"
      using assms by (simp_all add: unat_of_nat del: of_nat_mult)
    have d: "unat (of_nat k - of_nat (j * 2) :: u32) = (if j * 2 \<le> k then k - j * 2 else k + 2 ^ 32 - j * 2)"
      unfolding unat_sub_if_size u word_size by simp
    consider "k < j * 2" | "k = j * 2" | "k = j * 2 + 1" | "j * 2 + 2 \<le> k" by linarith
    then show ?thesis
    proof cases
      case 1
      then have "\<not> k + 2 ^ 32 - j * 2 < 2" using assms(2,3) by linarith
      then show ?thesis using 1 by (subst mput_apply) (simp_all add: d stamp_def rd_def del: of_nat_mult)
    next
      case 4
      then have "\<not> k - j * 2 < 2" by linarith
      then show ?thesis using 4 by (subst mput_apply) (simp_all add: d stamp_def rd_def del: of_nat_mult)
    qed (subst mput_apply, simp_all add: d le16_H2N stamp_def rd_def del: of_nat_mult)+
  qed
  finally show ?thesis .
qed

end
