(* ===== verification/Nic.thy ===== *)
theory Nic
  imports Process Net_Packet
begin

text \<open>
  \<open>xv6/i8254.c\<close>, the driver of the e1000 network card, and \<open>xv6/pci.c\<close>, which finds it.

  The card is hardware. Its registers are a map from offsets to words, and a \<open>nic_dev\<close>, a parameter
  of every operation, says how it reacts: \<open>on_write\<close> to a store in a register, \<open>on_cfg\<close> to a store in
  PCI configuration space, \<open>passes\<close> to the time between two polls of a busy-wait. The descriptor
  rings and the packet buffers are kernel memory. Until \<open>i8254_init\<close> has run, \<open>base_addr\<close> is 0 and an
  access to a register is a fault; the page tables are not consulted for the addresses of registers.
  The delay after a read of configuration space passes without effect.
\<close>

record nic_dev =
  on_write :: "u32 \<Rightarrow> u32 \<Rightarrow> (u32 \<Rightarrow> u32) \<Rightarrow> (u32 \<Rightarrow> u32)"
  on_cfg :: "u32 \<Rightarrow> u32 \<Rightarrow> (u32 \<Rightarrow> u32) \<Rightarrow> (u32 \<Rightarrow> u32)"
  passes :: "(u32 \<Rightarrow> u32) \<Rightarrow> (u32 \<Rightarrow> u32)"

record arp_entry =
  ent_ip :: "u8 list"
  ent_mac :: "u8 list"
  ent_use :: u8

record pci_dev =
  bus_num :: u8
  device_num :: u8
  function_num :: u8
  device_id :: u32
  vendor_id :: u32
  base_class :: u8
  sub_class :: u8
  interface :: u8
  revision_id :: u8
  bar0 :: u32
  bar1 :: u32

record net_st = kern_st +
  nic :: "u32 \<Rightarrow> u32"
  base_addr :: u32
  mac_addr :: "u8 list"
  my_ip :: "u8 list"
  intr_addr :: u32
  pci_addr :: u32
  pci_cfg :: "u32 \<Rightarrow> u32"
  the_dev :: pci_dev
  arp_table :: "arp_entry list"
  ip_id :: int
  send_id :: u16
  seq_num :: u32
  fin_flag :: bool

definition I8254_RECV_DESC_NUM :: u32 where "I8254_RECV_DESC_NUM = 256"
definition I8254_SEND_DESC_NUM :: u32 where "I8254_SEND_DESC_NUM = 256"
definition I8254_DEVICE_ID :: u32 where "I8254_DEVICE_ID = 0x100E"
definition I8254_VENDOR_ID :: u32 where "I8254_VENDOR_ID = 0x8086"

text \<open>The registers the driver uses, by their offset from \<open>base_addr\<close>.\<close>

definition CTRL :: u32 where "CTRL = 0"
definition EERD :: u32 where "EERD = 0x14"
definition ICS :: u32 where "ICS = 0xC8"
definition IMS :: u32 where "IMS = 0xD0"
definition IMC :: u32 where "IMC = 0xD8"
definition RCTL :: u32 where "RCTL = 0x100"
definition TCTL :: u32 where "TCTL = 0x400"
definition TIPG :: u32 where "TIPG = 0x410"
definition RDBAL :: u32 where "RDBAL = 0x2800"
definition RDH :: u32 where "RDH = 0x2810"
definition RDT :: u32 where "RDT = 0x2818"
definition TDBAL :: u32 where "TDBAL = 0x3800"
definition TDH :: u32 where "TDH = 0x3810"
definition TDT :: u32 where "TDT = 0x3818"

definition nic_rd :: "u32 \<Rightarrow> 'a net_st_scheme \<Rightarrow> u32 res" where
  "nic_rd off s = (if base_addr s = 0 then Inl (Faults ''NIC registers'') else Inr (nic s off))"

definition nic_wr :: "nic_dev \<Rightarrow> u32 \<Rightarrow> u32 \<Rightarrow> 'a net_st_scheme \<Rightarrow> 'a net_st_scheme res" where
  "nic_wr dv off v s =
     (if base_addr s = 0 then Inl (Faults ''NIC registers'') else Inr (s\<lparr>nic := on_write dv off v (nic s)\<rparr>))"

text \<open>A constant format string; \<open>kalloc\<close> of a page that is then written without a null check.\<close>

definition kprint :: "string \<Rightarrow> parg list \<Rightarrow> 'a cons_st_scheme \<Rightarrow> 'a cons_st_scheme res" where
  "kprint fmt args s = cprintf (Some (map of_char fmt)) args s"

definition kalloc_deref :: "'a kmem_st_scheme \<Rightarrow> (u32 \<times> 'a kmem_st_scheme) res" where
  "kalloc_deref s = bind_r (kalloc s) (\<lambda>(r, s). if r = 0 then Inl (Faults ''null page'') else Inr (r, s))"

section \<open>Sending\<close>

definition i8254_send :: "nic_dev \<Rightarrow> u32 \<Rightarrow> u32 \<Rightarrow> 'a net_st_scheme \<Rightarrow> (int \<times> 'a net_st_scheme) res" where
  "i8254_send dv pkt_addr len s =
     bind_r (nic_rd TDH s) (\<lambda>tdh. bind_r (nic_rd TDT s) (\<lambda>tdt. bind_r (nic_rd TDBAL s) (\<lambda>tdbal.
     let txdesc = tdbal + KERNBASE;
         tx_available = I8254_SEND_DESC_NUM - (I8254_SEND_DESC_NUM - tdh + tdt) mod I8254_SEND_DESC_NUM;
         index = tdt mod I8254_SEND_DESC_NUM;
         d = txdesc + 16 * index in
     if sint tx_available > 0 then
       let m = memmove (mem s) (load32 (mem s) d + KERNBASE) pkt_addr len;
           m = put16 m (d + 8) (ucast len);
           m = mput m (d + 12) [0];
           m = mput m (d + 13) [0];
           m = mput m (d + 11) [0xb];
           m = put16 m (d + 14) 0;
           m = mput m (d + 10) [0] in
       bind_r (nic_wr dv TDT ((tdt + 1) mod I8254_SEND_DESC_NUM) (s\<lparr>mem := m\<rparr>)) (\<lambda>s.
       Inr (sint len, s))
     else Inr (- 1, s))))"

section \<open>Initialisation\<close>

text \<open>Polling the EEPROM; the bound is the number of polls.\<close>

fun eeprom_wait :: "nic_dev \<Rightarrow> nat \<Rightarrow> 'a net_st_scheme \<Rightarrow> 'a net_st_scheme res" where
  "eeprom_wait dv 0 s = Inl NoFuel"
| "eeprom_wait dv (Suc n) s =
     bind_r (kprint '''' [] s) (\<lambda>s.
     bind_r (nic_rd EERD s) (\<lambda>data.
     if data AND 16 \<noteq> 0 then Inr s
     else eeprom_wait dv n (s\<lparr>nic := passes dv (nic s)\<rparr>)))"

definition i8254_read_eeprom :: "nic_dev \<Rightarrow> nat \<Rightarrow> u32 \<Rightarrow> 'a net_st_scheme \<Rightarrow> (u32 \<times> 'a net_st_scheme) res" where
  "i8254_read_eeprom dv fuel addr s =
     bind_r (nic_wr dv EERD (push_bit 8 (addr AND 0xFF) OR 1) s) (\<lambda>s.
     bind_r (eeprom_wait dv fuel s) (\<lambda>s.
     bind_r (nic_rd EERD s) (\<lambda>data.
     Inr (drop_bit 16 data AND 0xFFFF, s))))"

fun nic_wrs :: "nic_dev \<Rightarrow> (u32 \<times> u32) list \<Rightarrow> 'a net_st_scheme \<Rightarrow> 'a net_st_scheme res" where
  "nic_wrs dv [] s = Inr s"
| "nic_wrs dv ((off, v) # ws) s = bind_r (nic_wr dv off v s) (nic_wrs dv ws)"

text \<open>
  Clearing a descriptor leaves its first word, \<open>buf_addr\<close>, alone. The receive and the send descriptor
  have the same layout up to the names of their fields.
\<close>

definition clear_desc :: "u32 \<Rightarrow> mem \<Rightarrow> mem" where
  "clear_desc d m = (let m = store32 m (d + 4) 0; m = put16 m (d + 8) 0; m = mput m (d + 10) [0, 0];
     m = mput m (d + 12) [0]; m = mput m (d + 13) [0] in put16 m (d + 14) 0)"

fun clear_descs :: "u32 \<Rightarrow> nat list \<Rightarrow> mem \<Rightarrow> mem" where
  "clear_descs base [] m = m"
| "clear_descs base (i # is) m = clear_descs base is (clear_desc (base + 16 * of_nat i) m)"

fun desc_buffers :: "u32 \<Rightarrow> nat list \<Rightarrow> 'a net_st_scheme \<Rightarrow> 'a net_st_scheme res" where
  "desc_buffers base [] s = Inr s"
| "desc_buffers base (i # is) s =
     bind_r (kalloc s) (\<lambda>(buf_addr, s).
     if buf_addr = 0 then kprint ''failed to allocate buffer area\<newline>'' [] s
     else
       let s = s\<lparr>mem := store32 (mem s) (base + 16 * of_nat i) (V2P buf_addr)\<rparr>;
           s = s\<lparr>mem := store32 (mem s) (base + 16 * (of_nat i + 1)) (V2P (buf_addr + 0x800))\<rparr> in
       desc_buffers base is s)"

definition byte_args :: "u8 list \<Rightarrow> parg list" where
  "byte_args bs = map (\<lambda>b. Word (ucast b)) bs"

definition i8254_init_recv :: "nic_dev \<Rightarrow> nat \<Rightarrow> 'a net_st_scheme \<Rightarrow> 'a net_st_scheme res" where
  "i8254_init_recv dv fuel s =
     bind_r (i8254_read_eeprom dv fuel 0 s) (\<lambda>(data_l, s).
     let s = s\<lparr>mac_addr := (mac_addr s)[0 := ucast (data_l AND 0xFF), 1 := ucast (drop_bit 8 data_l)]\<rparr> in
     bind_r (i8254_read_eeprom dv fuel 1 s) (\<lambda>(data_m, s).
     let s = s\<lparr>mac_addr := (mac_addr s)[2 := ucast (data_m AND 0xFF), 3 := ucast (drop_bit 8 data_m)]\<rparr> in
     bind_r (i8254_read_eeprom dv fuel 2 s) (\<lambda>(data_h, s).
     let s = s\<lparr>mac_addr := (mac_addr s)[4 := ucast (data_h AND 0xFF), 5 := ucast (drop_bit 8 data_h)]\<rparr> in
     bind_r (kprint ''MAC Address %x:%x:%x:%x:%x:%x\<newline>'' (byte_args (mac_addr s)) s) (\<lambda>s.
     bind_r (nic_wrs dv ([(0x5400, data_l OR push_bit 16 data_m), (0x5404, data_h OR 0 OR 0x80000000)] @
               map (\<lambda>i. (0x5200 + 4 * of_nat i, 0)) [0..<128] @
               [(IMS, 0x80 OR 0x10 OR 8 OR 4 OR 0x40), (ICS, 0x80 OR 0x10 OR 8 OR 4 OR 0x40), (0x2828, 0),
                (RCTL, 8 OR 0x10 OR 0x8000 OR 0 OR 0x4000000)]) s) (\<lambda>s.
     bind_r (kalloc_deref s) (\<lambda>(recv_desc_addr, s).
     bind_r (nic_wrs dv [(RDBAL, V2P recv_desc_addr), (0x2804, 0), (0x2808, 16 * I8254_RECV_DESC_NUM), (RDH, 0),
               (RDT, I8254_RECV_DESC_NUM)] s) (\<lambda>s.
     let s = s\<lparr>mem := clear_descs recv_desc_addr [0..<256] (mem s)\<rparr> in
     bind_r (desc_buffers recv_desc_addr [0..<128] s) (\<lambda>s.
     bind_r (nic_rd RCTL s) (\<lambda>rctl.
     bind_r (nic_wr dv RCTL (rctl OR 2) s) (\<lambda>s.
     kprint ''E1000 Recieve Initialize Done\<newline>'' [] s))))))))))"

definition i8254_init_send :: "nic_dev \<Rightarrow> 'a net_st_scheme \<Rightarrow> 'a net_st_scheme res" where
  "i8254_init_send dv s =
     bind_r (nic_wr dv 0x3828 (0x10000 OR 0x1000000) s) (\<lambda>s.
     bind_r (kalloc_deref s) (\<lambda>(tx_desc_addr, s).
     bind_r (nic_wrs dv [(TDBAL, V2P tx_desc_addr), (0x3804, 0), (0x3808, 16 * I8254_SEND_DESC_NUM), (TDH, 0), (TDT, 0)] s) (\<lambda>s.
     let s = s\<lparr>mem := clear_descs tx_desc_addr [0..<256] (mem s)\<rparr> in
     bind_r (desc_buffers tx_desc_addr [0..<128] s) (\<lambda>s.
     bind_r (nic_wrs dv [(TCTL, 2 OR 8 OR 0x40000 OR 0xF0), (TIPG, 10 OR push_bit 10 10 OR push_bit 20 10)] s) (\<lambda>s.
     kprint ''E1000 Transmit Initialize Done\<newline>'' [] s)))))"

definition i8254_intr :: "'a net_st_scheme \<Rightarrow> 'a net_st_scheme res" where
  "i8254_intr s =
     (if intr_addr s = 0 then Inl (Faults ''intr_addr'') else Inr (s\<lparr>mem := store32 (mem s) (intr_addr s) 0xEEEEEE\<rparr>))"

section \<open>PCI configuration space\<close>

definition pci_write_config :: "u32 \<Rightarrow> 'a net_st_scheme \<Rightarrow> 'a net_st_scheme" where
  "pci_write_config config s = s\<lparr>pci_addr := config\<rparr>"

definition pci_write_data :: "nic_dev \<Rightarrow> u32 \<Rightarrow> 'a net_st_scheme \<Rightarrow> 'a net_st_scheme" where
  "pci_write_data dv config s = s\<lparr>pci_cfg := on_cfg dv (pci_addr s) config (pci_cfg s)\<rparr>"

definition pci_read_config :: "'a net_st_scheme \<Rightarrow> u32" where
  "pci_read_config s = pci_cfg s (pci_addr s)"

definition pci_config_addr :: "u32 \<Rightarrow> u32 \<Rightarrow> u32 \<Rightarrow> u32 \<Rightarrow> u32" where
  "pci_config_addr bus dn fn reg_addr =
     push_bit 16 (bus AND 0xFF) OR push_bit 11 (dn AND 0x1F) OR push_bit 8 (fn AND 0x7) OR
     (reg_addr AND 0xFC) OR 0x80000000"

definition pci_access_config :: "u32 \<Rightarrow> u32 \<Rightarrow> u32 \<Rightarrow> u32 \<Rightarrow> 'a net_st_scheme \<Rightarrow> u32 \<times> 'a net_st_scheme" where
  "pci_access_config bus dn fn reg_addr s =
     (let s = pci_write_config (pci_config_addr bus dn fn reg_addr) s in
      (pci_read_config s, s))"

definition pci_write_config_register :: "nic_dev \<Rightarrow> u32 \<Rightarrow> u32 \<Rightarrow> u32 \<Rightarrow> u32 \<Rightarrow> u32 \<Rightarrow> 'a net_st_scheme \<Rightarrow> 'a net_st_scheme" where
  "pci_write_config_register dv bus dn fn reg_addr data s =
     pci_write_data dv data (pci_write_config (pci_config_addr bus dn fn reg_addr) s)"

definition i8254_init :: "nic_dev \<Rightarrow> nat \<Rightarrow> 'a net_st_scheme \<Rightarrow> 'a net_st_scheme res" where
  "i8254_init dv fuel s =
     (let d = the_dev s; b = ucast (bus_num d); dn = ucast (device_num d); f = ucast (function_num d);
          (cmd_reg, s) = pci_access_config b dn f 4 s;
          s = pci_write_config_register dv b dn f 4 (cmd_reg OR 4) s;
          s = s\<lparr>base_addr := bar0 d + PCI_VP_OFFSET\<rparr> in
      bind_r (nic_wr dv IMC 0xFFFFFFFF s) (\<lambda>s.
      bind_r (nic_rd CTRL s) (\<lambda>c. bind_r (nic_wr dv CTRL (c OR push_bit 26 1) s) (\<lambda>s.
      bind_r (nic_wr dv IMC 0xFFFFFFFF s) (\<lambda>s.
      bind_r (nic_rd CTRL s) (\<lambda>c. bind_r (nic_wr dv CTRL (c OR push_bit 6 1) s) (\<lambda>s.
      bind_r (nic_rd CTRL s) (\<lambda>c.
      bind_r (nic_wr dv CTRL (c AND (NOT (push_bit 31 1) OR NOT (push_bit 30 1) OR NOT (push_bit 7 1))) s) (\<lambda>s.
      bind_r (kprint ''E1000 General Configuration Done\<newline>'' [] s) (\<lambda>s.
      bind_r (kalloc_deref s) (\<lambda>(p, s).
      let s = s\<lparr>intr_addr := p\<rparr>; s = s\<lparr>mem := store32 (mem s) p 0\<rparr> in
      bind_r (kprint ''INTR_ADDR:%x\<newline>'' [Word p] s) (\<lambda>s.
      bind_r (i8254_init_recv dv fuel s) (\<lambda>s.
      bind_r (i8254_init_send dv s) (\<lambda>s.
      bind_r (kprint ''IP Address %d.%d.%d.%d\<newline>'' (byte_args (my_ip s)) s) (\<lambda>s.
      nic_wr dv IMC 0 s)))))))))))))))"

definition pci_init_device :: "nic_dev \<Rightarrow> nat \<Rightarrow> u32 \<Rightarrow> u32 \<Rightarrow> u32 \<Rightarrow> 'a net_st_scheme \<Rightarrow> 'a net_st_scheme res" where
  "pci_init_device dv fuel bus dn f s =
     (let s = s\<lparr>the_dev := (the_dev s)\<lparr>bus_num := ucast bus, device_num := ucast dn, function_num := ucast f\<rparr>\<rparr> in
      bind_r (kprint ''PCI Device Found Bus:0x%x Device:0x%x Function:%x\<newline>'' [Word bus, Word dn, Word f] s) (\<lambda>s.
      let (data, s) = pci_access_config bus dn f 0 s; dev_id = drop_bit 16 data; ven_id = data AND 0xFFFF;
          s = s\<lparr>the_dev := (the_dev s)\<lparr>device_id := dev_id, vendor_id := ven_id\<rparr>\<rparr> in
      bind_r (kprint ''  Device ID:0x%x  Vendor ID:0x%x\<newline>'' [Word dev_id, Word ven_id] s) (\<lambda>s.
      let (data, s) = pci_access_config bus dn f 8 s in
      bind_r (kprint ''  Base Class:0x%x  Sub Class:0x%x  Interface:0x%x  Revision ID:0x%x\<newline>''
                [Word (drop_bit 24 data), Word (drop_bit 16 data AND 0xFF), Word (drop_bit 8 data AND 0xFF),
                 Word (data AND 0xFF)] s) (\<lambda>s.
      let s = s\<lparr>the_dev := (the_dev s)\<lparr>base_class := ucast (drop_bit 24 data),
                sub_class := ucast (drop_bit 16 data AND 0xFF), interface := ucast (drop_bit 8 data AND 0xFF),
                revision_id := ucast (data AND 0xFF)\<rparr>\<rparr>;
          (data, s) = pci_access_config bus dn f 0x10 s;
          s = s\<lparr>the_dev := (the_dev s)\<lparr>bar0 := data\<rparr>\<rparr>;
          (data, s) = pci_access_config bus dn f 0x14 s;
          s = s\<lparr>the_dev := (the_dev s)\<lparr>bar1 := data\<rparr>\<rparr> in
      if dev_id = I8254_DEVICE_ID \<and> ven_id = I8254_VENDOR_ID then
        bind_r (kprint ''E1000 Ethernet NIC Found\<newline>'' [] s) (\<lambda>s.
        let (data, s) = pci_access_config bus dn f 0xF0 s in
        bind_r (kprint ''Message Control:%x\<newline>'' [Word data] s) (i8254_init dv fuel))
      else Inr s))))"

definition pci_functions :: "(u32 \<times> u32 \<times> u32) list" where
  "pci_functions = concat (map (\<lambda>i. concat (map (\<lambda>j. map (\<lambda>k. (of_nat i, of_nat j, of_nat k)) [0..<8]) [0..<32])) [0..<256])"

fun pci_scan :: "nic_dev \<Rightarrow> nat \<Rightarrow> (u32 \<times> u32 \<times> u32) list \<Rightarrow> 'a net_st_scheme \<Rightarrow> 'a net_st_scheme res" where
  "pci_scan dv fuel [] s = Inr s"
| "pci_scan dv fuel ((i, j, k) # fs) s =
     (let (data, s) = pci_access_config i j k 0 s in
      bind_r (if data AND 0xFFFF \<noteq> 0xFFFF then pci_init_device dv fuel i j k s else Inr s) (pci_scan dv fuel fs))"

definition pci_init :: "nic_dev \<Rightarrow> nat \<Rightarrow> 'a net_st_scheme \<Rightarrow> 'a net_st_scheme res" where
  "pci_init dv fuel s = pci_scan dv fuel pci_functions s"

end
