(* ===== verification/Net_Stack.thy ===== *)
theory Net_Stack
  imports Nic
begin

text \<open>
  The protocols above the network card: \<open>xv6/eth.c\<close>, \<open>xv6/arp.c\<close>, \<open>xv6/ipv4.c\<close>, \<open>xv6/icmp.c\<close>,
  \<open>xv6/tcp.c\<close> and \<open>xv6/http.c\<close>, and the receive loop of \<open>xv6/i8254.c\<close> that calls them.

  Packets are written into a page of kernel memory store by store, in the order of the source, and
  handed to \<open>i8254_send\<close>. The global tables and counters are fields of \<open>net_st\<close>.
\<close>

definition ARP_TABLE_MAX :: nat where "ARP_TABLE_MAX = 64"
definition ARP_HARDWARE_TYPE :: u16 where "ARP_HARDWARE_TYPE = 0x0100"
definition ARP_PROTOCOL_TYPE :: u16 where "ARP_PROTOCOL_TYPE = 0x0008"
definition ARP_OPS_REQUEST :: u16 where "ARP_OPS_REQUEST = 0x0100"
definition ARP_OPS_REPLY :: u16 where "ARP_OPS_REPLY = 0x0200"
definition ARP_UPDATED_TABLE :: int where "ARP_UPDATED_TABLE = 1"
definition ARP_CREATED_REPLY :: int where "ARP_CREATED_REPLY = 2"
definition TCP_ACK :: u32 where "TCP_ACK = 0x10"
definition TCP_PSH :: u32 where "TCP_PSH = 0x8"
definition TCP_SYN :: u32 where "TCP_SYN = 0x2"
definition TCP_FIN :: u32 where "TCP_FIN = 0x1"

definition sizeof_eth_pkt :: u32 where "sizeof_eth_pkt = 14"
definition sizeof_arp_pkt :: u32 where "sizeof_arp_pkt = 30"
definition sizeof_ipv4_pkt :: u32 where "sizeof_ipv4_pkt = 20"
definition sizeof_icmp_pkt :: u32 where "sizeof_icmp_pkt = 64"
definition sizeof_tcp_pkt :: u32 where "sizeof_tcp_pkt = 20"

text \<open>\<open>memcmp\<close> on two byte arrays.\<close>

definition memcmp_l :: "u8 list \<Rightarrow> u8 list \<Rightarrow> u32 \<Rightarrow> int" where
  "memcmp_l xs ys n = memcmp (\<lambda>k. xs ! k) (\<lambda>k. ys ! k) n"

section \<open>ARP\<close>

definition print_ipv4 :: "u8 list \<Rightarrow> 'a cons_st_scheme \<Rightarrow> 'a cons_st_scheme res" where
  "print_ipv4 ip s = kprint ''IP address: %d.%d.%d.%d'' (byte_args ip) s"

definition print_mac :: "u8 list \<Rightarrow> 'a cons_st_scheme \<Rightarrow> 'a cons_st_scheme res" where
  "print_mac mac s = kprint ''MAC address: %x:%x:%x:%x:%x:%x'' (byte_args mac) s"

fun print_entries :: "nat \<Rightarrow> arp_entry list \<Rightarrow> 'a cons_st_scheme \<Rightarrow> 'a cons_st_scheme res" where
  "print_entries i [] s = Inr s"
| "print_entries i (e # es) s =
     bind_r (if ent_use e \<noteq> 0 then
               bind_r (kprint ''Entry Num: %d '' [Word (of_nat i)] s) (\<lambda>s.
               bind_r (print_ipv4 (ent_ip e) s) (\<lambda>s.
               bind_r (kprint '' '' [] s) (\<lambda>s.
               bind_r (print_mac (ent_mac e) s) (kprint ''\<newline>'' []))))
             else Inr s) (print_entries (Suc i) es)"

definition print_arp_table :: "'a net_st_scheme \<Rightarrow> 'a net_st_scheme res" where
  "print_arp_table s = print_entries 0 (arp_table s) s"

definition print_arp_info :: "arp_pkt \<Rightarrow> 'a cons_st_scheme \<Rightarrow> 'a cons_st_scheme res" where
  "print_arp_info p s =
     bind_r (kprint ''--------Source-------\<newline>'' [] s) (\<lambda>s.
     bind_r (print_ipv4 (arp_src_ip p) s) (\<lambda>s. bind_r (kprint ''\<newline>'' [] s) (\<lambda>s.
     bind_r (print_mac (arp_src_mac p) s) (\<lambda>s. bind_r (kprint ''\<newline>'' [] s) (\<lambda>s.
     bind_r (kprint ''-----Destination-----\<newline>'' [] s) (\<lambda>s.
     bind_r (print_ipv4 (take 4 (arp_dst_ip p)) s) (\<lambda>s. bind_r (kprint ''\<newline>'' [] s) (\<lambda>s.
     bind_r (print_mac (arp_dst_mac p) s) (\<lambda>s. bind_r (kprint ''\<newline>'' [] s) (\<lambda>s.
     bind_r (kprint ''Operation: '' [] s) (\<lambda>s.
     bind_r (if arp_op p = ARP_OPS_REQUEST then kprint ''Request\<newline>'' [] s
             else if arp_op p = ARP_OPS_REPLY then kprint ''Reply\<newline>'' [] s else Inr s)
       (kprint ''\<newline>'' []))))))))))))"

fun search_from :: "arp_entry list \<Rightarrow> u8 list \<Rightarrow> nat \<Rightarrow> int \<Rightarrow> int" where
  "search_from [] ip i hole = hole - 1"
| "search_from (e # es) ip i hole =
     (if memcmp_l (ent_ip e) ip 4 = 0 then int i
      else search_from es ip (Suc i) (if ent_use e = 0 \<and> hole = 1 then - int i else hole))"

definition arp_table_search :: "arp_entry list \<Rightarrow> u8 list \<Rightarrow> int" where
  "arp_table_search tbl ip = search_from tbl ip 0 1"

definition arp_table_set :: "arp_entry list \<Rightarrow> arp_pkt \<Rightarrow> arp_entry list" where
  "arp_table_set tbl recv_arp =
     (let index = arp_table_search tbl (arp_src_ip recv_arp) in
      if index > - 1 then
        tbl[nat index := (tbl ! nat index)\<lparr>ent_mac := arp_src_mac recv_arp\<rparr>]
      else
        let index = nat (- (index + 1)) in
        tbl[index := (tbl ! index)\<lparr>ent_mac := arp_src_mac recv_arp, ent_ip := arp_src_ip recv_arp, ent_use := 1\<rparr>])"

definition arp_table_update :: "arp_pkt \<Rightarrow> 'a net_st_scheme \<Rightarrow> 'a net_st_scheme res" where
  "arp_table_update recv_arp s = print_arp_table (s\<lparr>arp_table := arp_table_set (arp_table s) recv_arp\<rparr>)"

definition arp_broadcast :: "u32 \<Rightarrow> u32 \<Rightarrow> 'a net_st_scheme \<Rightarrow> u32 \<times> 'a net_st_scheme" where
  "arp_broadcast send ip s =
     (let reply_arp = send + sizeof_eth_pkt;
          m = mem s;
          m = mput m (send + 12) [0x08];
          m = mput m (send + 13) [0x06];
          m = mput m send [0xff, 0xff, 0xff, 0xff, 0xff, 0xff];
          m = mput m (send + 6) (mac_addr s);
          m = put16 m reply_arp ARP_HARDWARE_TYPE;
          m = put16 m (reply_arp + 2) ARP_PROTOCOL_TYPE;
          m = mput m (reply_arp + 4) [6];
          m = mput m (reply_arp + 5) [4];
          m = put16 m (reply_arp + 6) ARP_OPS_REQUEST;
          m = mput m (reply_arp + 18) [0, 0, 0, 0, 0, 0];
          m = mput m (reply_arp + 24) [10, 0, 1, ucast ip];
          m = mput m (reply_arp + 8) (mac_addr s);
          m = mput m (reply_arp + 14) (my_ip s) in
      (sizeof_eth_pkt + sizeof_arp_pkt, s\<lparr>mem := m\<rparr>))"

definition arp_reply_pkt_create :: "u32 \<Rightarrow> u32 \<Rightarrow> 'a net_st_scheme \<Rightarrow> u32 \<times> 'a net_st_scheme" where
  "arp_reply_pkt_create arp_recv send s =
     (let reply_arp = send + sizeof_eth_pkt;
          m = mem s;
          m = mput m (send + 12) [0x08];
          m = mput m (send + 13) [0x06];
          m = memmove m send (arp_recv + 8) 6;
          m = mput m (send + 6) (mac_addr s);
          m = put16 m reply_arp ARP_HARDWARE_TYPE;
          m = put16 m (reply_arp + 2) ARP_PROTOCOL_TYPE;
          m = mput m (reply_arp + 4) [6];
          m = mput m (reply_arp + 5) [4];
          m = put16 m (reply_arp + 6) ARP_OPS_REPLY;
          m = memmove m (reply_arp + 18) (arp_recv + 8) 6;
          m = memmove m (reply_arp + 24) (arp_recv + 14) 4;
          m = mput m (reply_arp + 8) (mac_addr s);
          m = mput m (reply_arp + 14) (my_ip s) in
      (sizeof_eth_pkt + sizeof_arp_pkt, s\<lparr>mem := m\<rparr>))"

definition arp_proc :: "nic_dev \<Rightarrow> u32 \<Rightarrow> 'a net_st_scheme \<Rightarrow> (int \<times> 'a net_st_scheme) res" where
  "arp_proc dv buffer_addr s =
     (let arp_p = arp_pkt_at (mem s) buffer_addr in
      if hrd_type arp_p \<noteq> ARP_HARDWARE_TYPE then Inr (- 1, s)
      else if pro_type arp_p \<noteq> ARP_PROTOCOL_TYPE then Inr (- 1, s)
      else if hrd_len arp_p \<noteq> 6 then Inr (- 1, s)
      else if pro_len arp_p \<noteq> 4 then Inr (- 1, s)
      else if memcmp_l (my_ip s) (arp_dst_ip arp_p) 4 \<noteq> 0 \<and> memcmp_l (my_ip s) (arp_src_ip arp_p) 4 \<noteq> 0 then Inr (- 1, s)
      else if arp_op arp_p = ARP_OPS_REQUEST \<and> memcmp_l (my_ip s) (arp_dst_ip arp_p) 4 = 0 then
        bind_r (kalloc_deref s) (\<lambda>(send, s).
        let (send_size, s) = arp_reply_pkt_create buffer_addr send s in
        bind_r (i8254_send dv send send_size s) (\<lambda>(_, s).
        bind_r (kfree send s) (\<lambda>s. Inr (ARP_CREATED_REPLY, s))))
      else if arp_op arp_p = ARP_OPS_REPLY \<and> memcmp_l (my_ip s) (arp_dst_ip arp_p) 4 = 0 then
        bind_r (kprint ''ARP TABLE UPDATED\<newline>'' [] s) (\<lambda>s.
        bind_r (arp_table_update (arp_pkt_at (mem s) buffer_addr) s) (\<lambda>s.
        Inr (ARP_UPDATED_TABLE, s)))
      else Inr (- 1, s))"

text \<open>
  The retry loop of \<open>arp_scan\<close> ends only when the card frees a descriptor, which no step of the kernel
  does: a refused frame is a spin. (\<open>i8254_send\<close> refuses none.)
\<close>

fun arp_scan_from :: "nic_dev \<Rightarrow> nat list \<Rightarrow> 'a net_st_scheme \<Rightarrow> 'a net_st_scheme res" where
  "arp_scan_from dv [] s = Inr s"
| "arp_scan_from dv (i # is) s =
     bind_r (kalloc_deref s) (\<lambda>(send, s).
     let (send_size, s) = arp_broadcast send (of_nat i) s in
     bind_r (i8254_send dv send send_size s) (\<lambda>(res, s).
     if res = - 1 then Inl Spins
     else bind_r (kfree send s) (arp_scan_from dv is)))"

definition arp_scan :: "nic_dev \<Rightarrow> 'a net_st_scheme \<Rightarrow> 'a net_st_scheme res" where
  "arp_scan dv s = arp_scan_from dv [0..<256] s"

section \<open>ICMP\<close>

text \<open>The address of the payload of an IPv4 packet: its header length is in units of four bytes.\<close>

definition ip_payload :: "mem \<Rightarrow> u32 \<Rightarrow> u32" where
  "ip_payload m ipv4_p = ipv4_p + ucast (m ipv4_p AND 0xF) * 4"

text \<open>
  The Ethernet and the IPv4 header of a reply: the same statements in \<open>icmp_reply_pkt_create\<close> and in
  \<open>tcp_pkt_create\<close>, up to the length, the fragment field and the protocol.
\<close>

definition ip_headers_create :: "u32 \<Rightarrow> u32 \<Rightarrow> u16 \<Rightarrow> u16 \<Rightarrow> u8 \<Rightarrow> 'a net_st_scheme \<Rightarrow> 'a net_st_scheme" where
  "ip_headers_create recv_addr send_addr len frag proto s =
     (let ipv4_recv = recv_addr + sizeof_eth_pkt;
          ipv4_send = send_addr + sizeof_eth_pkt;
          m = memmove (mem s) send_addr (recv_addr + 6) 6;
          m = mput m (send_addr + 6) (mac_addr s);
          m = mput m (send_addr + 12) [0x08];
          m = mput m (send_addr + 13) [0x00];
          m = mput m ipv4_send [0x45];
          m = mput m (ipv4_send + 1) [0];
          m = put16 m (ipv4_send + 2) (H2N_ushort len);
          m = put16 m (ipv4_send + 4) (send_id s);
          m = put16 m (ipv4_send + 6) (H2N_ushort frag);
          m = mput m (ipv4_send + 8) [255];
          m = mput m (ipv4_send + 9) [proto];
          m = mput m (ipv4_send + 12) (my_ip s);
          m = memmove m (ipv4_send + 16) (ipv4_recv + 12) 4;
          m = put16 m (ipv4_send + 10) 0;
          m = put16 m (ipv4_send + 10) (H2N_ushort (ipv4_chksum (rd m ipv4_send))) in
      s\<lparr>mem := m, send_id := send_id s + 1\<rparr>)"

definition icmp_reply_pkt_create :: "u32 \<Rightarrow> u32 \<Rightarrow> 'a net_st_scheme \<Rightarrow> u32 \<times> 'a net_st_scheme" where
  "icmp_reply_pkt_create recv_addr send_addr s =
     (let icmp_recv = ip_payload (mem s) (recv_addr + sizeof_eth_pkt);
          icmp_send = send_addr + sizeof_eth_pkt + sizeof_ipv4_pkt;
          s = ip_headers_create recv_addr send_addr (ucast (sizeof_ipv4_pkt + sizeof_icmp_pkt)) 0x4000 1 s;
          m = mem s;
          m = mput m icmp_send [0];
          m = mput m (icmp_send + 1) [0];
          m = put16 m (icmp_send + 4) (get16 m (icmp_recv + 4));
          m = put16 m (icmp_send + 6) (get16 m (icmp_recv + 6));
          m = memmove m (icmp_send + 8) (icmp_recv + 8) 8;
          m = memmove m (icmp_send + 16) (icmp_recv + 16) 48;
          m = put16 m (icmp_send + 2) 0;
          m = put16 m (icmp_send + 2) (H2N_ushort (icmp_chksum (rd m icmp_send))) in
      (sizeof_eth_pkt + sizeof_ipv4_pkt + sizeof_icmp_pkt, s\<lparr>mem := m\<rparr>))"

definition icmp_proc :: "nic_dev \<Rightarrow> u32 \<Rightarrow> 'a net_st_scheme \<Rightarrow> 'a net_st_scheme res" where
  "icmp_proc dv buffer_addr s =
     (let icmp_p = icmp_echo_pkt_at (mem s) (ip_payload (mem s) (buffer_addr + sizeof_eth_pkt)) in
      if icmp_code icmp_p = 0 \<and> icmp_type icmp_p = 8 then
        bind_r (kalloc_deref s) (\<lambda>(send_addr, s).
        let (send_size, s) = icmp_reply_pkt_create buffer_addr send_addr s in
        bind_r (i8254_send dv send_addr send_size s) (\<lambda>(_, s).
        kfree send_addr s))
      else Inr s)"

definition icmp_proc_req :: "icmp_echo_pkt \<Rightarrow> 'a cons_st_scheme \<Rightarrow> 'a cons_st_scheme res" where
  "icmp_proc_req icmp_p s =
     kprint ''ICMP ID:0x%x SEQ NUM:0x%x\<newline>'' [Word (ucast (N2H_ushort (icmp_id icmp_p))), Word (ucast (N2H_ushort (icmp_seq_num icmp_p)))] s"

section \<open>HTTP over TCP\<close>

fun http_strcpy :: "u32 \<Rightarrow> u8 list \<Rightarrow> nat \<Rightarrow> mem \<Rightarrow> nat \<times> mem" where
  "http_strcpy dst [] start_index m = (0, m)"
| "http_strcpy dst (c # src) start_index m =
     (let (i, m) = http_strcpy dst src (Suc start_index) (m(dst + of_nat start_index := c)) in (Suc i, m))"

definition http_proc :: "u32 \<Rightarrow> 'a net_st_scheme \<Rightarrow> u32 \<times> 'a net_st_scheme" where
  "http_proc send s =
     (let (len, m) = http_strcpy send (map of_char (''HTTP/1.0 200 OK '' @ [CHR 0x0D, CHR 0x0A])) 0 (mem s);
          (n, m) = http_strcpy send (map of_char (''Content-Type: text/html '' @ [CHR 0x0D, CHR 0x0A])) len m;
          len = len + n;
          (n, m) = http_strcpy send (map of_char ([CHR 0x0D, CHR 0x0A] @ ''Hello World!'' @ [CHR 0x0D, CHR 0x0A])) len m;
          len = len + n;
          m = (if len mod 2 \<noteq> 0 then m(send + of_nat len := 0) else m) in
      (of_nat len, s\<lparr>mem := m, fin_flag := True\<rparr>))"

definition tcp_pkt_create :: "u32 \<Rightarrow> u32 \<Rightarrow> u32 \<Rightarrow> u32 \<Rightarrow> 'a net_st_scheme \<Rightarrow> u32 \<times> 'a net_st_scheme" where
  "tcp_pkt_create recv_addr send_addr pkt_type payload_size s =
     (let tcp_recv = ip_payload (mem s) (recv_addr + sizeof_eth_pkt);
          ipv4_send = send_addr + sizeof_eth_pkt;
          tcp_send = ipv4_send + sizeof_ipv4_pkt;
          s = ip_headers_create recv_addr send_addr (ucast (sizeof_ipv4_pkt + sizeof_tcp_pkt + payload_size)) 0 6 s;
          m = mem s;
          m = put16 m tcp_send (get16 m (tcp_recv + 2));
          m = put16 m (tcp_send + 2) (get16 m tcp_recv);
          m = store32 m (tcp_send + 4) (H2N_uint (seq_num s));
          m = store32 m (tcp_send + 8) (load32 m (tcp_recv + 4) + push_bit 24 1);
          m = mput m (tcp_send + 12) [0];
          m = mput m (tcp_send + 13) [0];
          m = mput m (tcp_send + 12) [0x50];
          m = mput m (tcp_send + 13) [ucast pkt_type];
          m = put16 m (tcp_send + 14) (H2N_ushort 14480);
          m = put16 m (tcp_send + 18) 0;
          m = put16 m (tcp_send + 16) 0;
          m = put16 m (tcp_send + 16) (H2N_ushort (tcp_chksum (my_ip s) m ipv4_send + 8)) in
      (sizeof_eth_pkt + sizeof_ipv4_pkt + sizeof_tcp_pkt + payload_size, s\<lparr>mem := m\<rparr>))"

definition tcp_respond :: "nic_dev \<Rightarrow> u32 \<Rightarrow> u32 \<Rightarrow> 'a net_st_scheme \<Rightarrow> 'a net_st_scheme res" where
  "tcp_respond dv buffer_addr send_addr s =
     (let (send_size, s) = tcp_pkt_create buffer_addr send_addr TCP_ACK 0 s in
      bind_r (i8254_send dv send_addr send_size s) (\<lambda>(_, s).
      let send_payload = send_addr + sizeof_eth_pkt + sizeof_ipv4_pkt + sizeof_tcp_pkt;
          (payload_size, s) = http_proc send_payload s;
          (send_size, s) = tcp_pkt_create buffer_addr send_addr (TCP_ACK OR TCP_PSH) payload_size s in
      bind_r (i8254_send dv send_addr send_size s) (\<lambda>(_, s).
      Inr (s\<lparr>seq_num := seq_num s + 1\<rparr>))))"

definition tcp_proc :: "nic_dev \<Rightarrow> u32 \<Rightarrow> 'a net_st_scheme \<Rightarrow> 'a net_st_scheme res" where
  "tcp_proc dv buffer_addr s =
     (let tcp_addr = ip_payload (mem s) (buffer_addr + sizeof_eth_pkt);
          bits = code_bits (tcp_pkt_at (mem s) tcp_addr) ! 1;
          payload = mbytes (mem s) (tcp_addr + 20) 3 in
      bind_r (kalloc s) (\<lambda>(send_addr, s).
      bind_r
        (if ucast bits AND TCP_SYN \<noteq> 0 then
           (if send_addr = 0 then Inl (Faults ''null page'')
            else
              let (send_size, s) = tcp_pkt_create buffer_addr send_addr (TCP_ACK OR TCP_SYN) 0 s in
              bind_r (i8254_send dv send_addr send_size s) (\<lambda>(_, s).
              Inr (s\<lparr>seq_num := seq_num s + 1\<rparr>)))
         else if ucast bits = TCP_PSH OR TCP_ACK then
           (if memcmp_l payload [71, 69, 84] 3 \<noteq> 0 then
              bind_r (kprint ''ACK PSH\<newline>'' [] s) (\<lambda>s.
              if send_addr = 0 then Inl (Faults ''null page'') else tcp_respond dv buffer_addr send_addr s)
            else if send_addr = 0 then Inl (Faults ''null page'') else tcp_respond dv buffer_addr send_addr s)
         else if ucast bits = TCP_ACK \<and> fin_flag s then
           (if send_addr = 0 then Inl (Faults ''null page'')
            else
              let (send_size, s) = tcp_pkt_create buffer_addr send_addr TCP_FIN 0 s in
              bind_r (i8254_send dv send_addr send_size s) (\<lambda>(_, s).
              Inr (s\<lparr>fin_flag := False\<rparr>)))
         else Inr s)
        (kfree send_addr)))"

section \<open>IPv4 and Ethernet\<close>

definition ipv4_proc :: "nic_dev \<Rightarrow> u32 \<Rightarrow> 'a net_st_scheme \<Rightarrow> 'a net_st_scheme res" where
  "ipv4_proc dv buffer_addr s =
     (let ipv4_p = ipv4_pkt_at (mem s) (buffer_addr + 14) in
      if ip_id s \<noteq> int (unat (ip_ident ipv4_p)) \<and> memcmp_l (my_ip s) (ip_src_ip ipv4_p) 4 \<noteq> 0 then
        let s = s\<lparr>ip_id := int (unat (ip_ident ipv4_p))\<rparr> in
        if protocol ipv4_p = 1 then icmp_proc dv buffer_addr s
        else if protocol ipv4_p = 6 then tcp_proc dv buffer_addr s
        else Inr s
      else Inr s)"

definition eth_proc :: "nic_dev \<Rightarrow> u32 \<Rightarrow> 'a net_st_scheme \<Rightarrow> 'a net_st_scheme res" where
  "eth_proc dv buffer_addr s =
     (let pkt_addr = buffer_addr + sizeof_eth_pkt; ty = eth_type (eth_pkt_at (mem s) buffer_addr) in
      if ty ! 0 = 0x08 \<and> ty ! 1 = 0x06 then bind_r (arp_proc dv pkt_addr s) (\<lambda>(_, s). Inr s)
      else if ty ! 0 = 0x08 \<and> ty ! 1 = 0x00 then ipv4_proc dv buffer_addr s
      else Inr s)"

text \<open>One turn of the receive loop, and a given number of turns of it: the loop itself never ends.\<close>

definition recv_turn :: "nic_dev \<Rightarrow> 'a net_st_scheme \<Rightarrow> 'a net_st_scheme res" where
  "recv_turn dv s =
     bind_r (nic_rd RDBAL s) (\<lambda>rdbal. bind_r (nic_rd RDT s) (\<lambda>rdt. bind_r (nic_rd RDH s) (\<lambda>rdh.
     let recv_desc = rdbal + KERNBASE;
         rx_available = (I8254_RECV_DESC_NUM - rdt + rdh) mod I8254_RECV_DESC_NUM in
     bind_r (if sint rx_available > 0 then
               let buffer_addr = load32 (mem s) (recv_desc + 16 * rdt) + KERNBASE in
               bind_r (nic_wr dv RDT ((rdt + 1) mod I8254_RECV_DESC_NUM) s) (eth_proc dv buffer_addr)
             else Inr s) (\<lambda>s.
     bind_r (nic_rd RDT s) (\<lambda>rdt. bind_r (nic_rd RDH s) (\<lambda>rdh.
     if rdt = rdh then nic_wr dv RDT (rdt - 1) s else Inr s))))))"

fun i8254_recv :: "nic_dev \<Rightarrow> nat \<Rightarrow> 'a net_st_scheme \<Rightarrow> 'a net_st_scheme res" where
  "i8254_recv dv 0 s = Inr s"
| "i8254_recv dv (Suc n) s = bind_r (recv_turn dv s) (\<lambda>s. i8254_recv dv n (s\<lparr>nic := passes dv (nic s)\<rparr>))"

end
