(* ===== verification/Net_Frames.thy ===== *)
theory Net_Frames
  imports Net_Stack
begin

text \<open>
  Lemmas on the network stack: what the packet builders leave in memory, what \<open>i8254_send\<close> does to
  the transmit ring, how a search of the ARP table ends. \<open>buf_sep\<close> and \<open>tx_ready\<close> say that the buffers
  involved do not overlap; \<open>built_page\<close> is the sequence all replies share, from the page taken from the
  allocator to the page given back.
\<close>

section \<open>Writing a packet in a page, reading one from a receive buffer\<close>

text \<open>
  The page at \<open>send\<close> and the \<open>K\<close> bytes at \<open>recv\<close> do not overlap, and neither wraps around the end of
  the address space.
\<close>

definition buf_sep :: "u32 \<Rightarrow> u32 \<Rightarrow> nat \<Rightarrow> bool" where
  "buf_sep send recv K \<longleftrightarrow> apart send 4096 recv K \<and> unat send + 4096 \<le> 2 ^ 32 \<and> unat recv + K < 2 ^ 32"

lemma buf_sep_sub:
  assumes "buf_sep send recv K" "unat k + L \<le> K" "0 < L"
  shows "buf_sep send (recv + k) L"
proof -
  have "unat (recv + k) = unat recv + unat k" using assms by (simp add: buf_sep_def unat_word_ariths)
  moreover have "apart (send + 0) 4096 (recv + k) L"
    by (rule apart_within [of send 4096 recv K]) (use assms in \<open>simp_all add: buf_sep_def\<close>)
  ultimately show ?thesis using assms by (simp add: buf_sep_def)
qed

lemma send_offset: "buf_sep send recv K \<Longrightarrow> unat j < 4096 \<Longrightarrow> unat (send + j) = unat send + unat j"
  by (simp add: buf_sep_def unat_word_ariths)

lemma recv_kept:
  assumes "buf_sep send recv K" "unat j + length bs \<le> 4096" "bs \<noteq> []" "unat k + n \<le> K" "0 < n"
  shows "mbytes (mput m (send + j) bs) (recv + k) n = mbytes m (recv + k) n"
  using assms by (intro mbytes_mput_apart apart_within [of send 4096 recv K]) (auto simp: buf_sep_def)

lemma recv_kept_0:
  assumes "buf_sep send recv K" "bs \<noteq> []" "0 < n"
  shows "unat j + length bs \<le> 4096 \<Longrightarrow> n \<le> K \<Longrightarrow> mbytes (mput m (send + j) bs) recv n = mbytes m recv n"
    and "length bs \<le> 4096 \<Longrightarrow> unat k + n \<le> K \<Longrightarrow> mbytes (mput m send bs) (recv + k) n = mbytes m (recv + k) n"
    and "length bs \<le> 4096 \<Longrightarrow> n \<le> K \<Longrightarrow> mbytes (mput m send bs) recv n = mbytes m recv n"
  using recv_kept [OF assms(1) _ assms(2) _ assms(3), of j 0 m] recv_kept [OF assms(1) _ assms(2) _ assms(3), of 0 k m]
    recv_kept [OF assms(1) _ assms(2) _ assms(3), of 0 0 m] by simp_all

lemma copy_in:
  assumes "buf_sep send recv K" "unat k + unat n \<le> K"
  shows "unat j + unat n \<le> 4096 \<Longrightarrow> unat j < 4096 \<Longrightarrow>
      memmove m (send + j) (recv + k) n = mput m (send + j) (mbytes m (recv + k) (unat n))"
    and "unat n \<le> 4096 \<Longrightarrow> memmove m send (recv + k) n = mput m send (mbytes m (recv + k) (unat n))"
proof -
  have "unat (recv + k) = unat recv + unat k" using assms by (simp add: buf_sep_def unat_word_ariths)
  then have r: "unat (recv + k) + unat n < 2 ^ 32" using assms by (simp add: buf_sep_def)
  show "memmove m (send + j) (recv + k) n = mput m (send + j) (mbytes m (recv + k) (unat n))"
    if "unat j + unat n \<le> 4096" "unat j < 4096"
    using r that assms(1) send_offset [OF assms(1) that(2)] by (intro memmove_mput) (auto simp: buf_sep_def)
  show "memmove m send (recv + k) n = mput m send (mbytes m (recv + k) (unat n))" if "unat n \<le> 4096"
    using r that assms(1) by (intro memmove_mput) (auto simp: buf_sep_def)
qed

lemma put16_bytes [pkt_simps]: "put16 m a w = mput m a (le16 w)"
  by (simp add: put16_def)

lemma store32_mput [pkt_simps]: "store32 m a w = mput m a (le32 w)"
  by (rule ext) (simp add: store32_apply mput_apply)

lemma load32_mbytes [pkt_simps]: "load32 m a = of_le32 (mbytes m a 4)"
  by (simp add: load32_def mbytes_def rd_def eval_nat_numeral upt_rec)

lemmas field_simps_pkt = pkt_simps mbytes_mput_apart byte_mput_apart get16_def

lemma mbytes_2: "mbytes m a 2 = [m a, m (a + 1)]"
  by (simp add: mbytes_def rd_def eval_nat_numeral upt_rec)

lemma take_mbytes: "k \<le> n \<Longrightarrow> take k (mbytes m a n) = mbytes m a k"
  by (simp add: mbytes_def take_map)

lemmas layout = sizeof_eth_pkt_def sizeof_arp_pkt_def sizeof_ipv4_pkt_def sizeof_icmp_pkt_def sizeof_tcp_pkt_def

text \<open>
  The reply to an ARP request: addresses swapped, our own as the source.
\<close>

lemma arp_reply_frame:
  assumes sep: "buf_sep send recv 30" and len: "length (mac_addr s) = 6" "length (my_ip s) = 4"
    and "arp_reply_pkt_create recv send s = (n, s')"
  shows "n = 44" "s' = s\<lparr>mem := mem s'\<rparr>"
    "eth_pkt_at (mem s') send = \<lparr>eth_dst_mac = arp_src_mac (arp_pkt_at (mem s) recv), eth_src_mac = mac_addr s, eth_type = [8, 6]\<rparr>"
    "arp_op (arp_pkt_at (mem s') (send + 14)) = ARP_OPS_REPLY"
    "arp_src_mac (arp_pkt_at (mem s') (send + 14)) = mac_addr s"
    "arp_src_ip (arp_pkt_at (mem s') (send + 14)) = my_ip s"
    "arp_dst_mac (arp_pkt_at (mem s') (send + 14)) = arp_src_mac (arp_pkt_at (mem s) recv)"
    "take 4 (arp_dst_ip (arp_pkt_at (mem s') (send + 14))) = arp_src_ip (arp_pkt_at (mem s) recv)"
    "4096 \<le> unat (a - send) \<Longrightarrow> mem s' a = mem s a"
proof -
  note d = assms(4) [unfolded arp_reply_pkt_create_def Let_def layout prod.inject]
  show "n = 44" "s' = s\<lparr>mem := mem s'\<rparr>" using d by auto
  have ne: "mac_addr s \<noteq> []" "my_ip s \<noteq> []" using len by auto
  have m: "mem s' = mput (mput (mput (mput (mput (mput (mput (mput (mput (mput (mput (mput (mput (mem s)
      (send + 12) [8]) (send + 13) [6]) send (mbytes (mem s) (recv + 8) 6)) (send + 6) (mac_addr s))
      (send + 14) (le16 ARP_HARDWARE_TYPE)) (send + 16) (le16 ARP_PROTOCOL_TYPE)) (send + 18) [6]) (send + 19) [4])
      (send + 20) (le16 ARP_OPS_REPLY)) (send + 32) (mbytes (mem s) (recv + 8) 6)) (send + 38) (mbytes (mem s) (recv + 14) 4))
      (send + 22) (mac_addr s)) (send + 28) (my_ip s)"
    using d by (auto simp: add.assoc put16_bytes copy_in [OF sep] recv_kept [OF sep] recv_kept_0 [OF sep] len ne)
  show "eth_pkt_at (mem s') send = \<lparr>eth_dst_mac = arp_src_mac (arp_pkt_at (mem s) recv), eth_src_mac = mac_addr s, eth_type = [8, 6]\<rparr>"
    by (simp add: m eth_pkt_at_def arp_pkt_at_def field_simps_pkt len mbytes_2 add.assoc)
  show "arp_op (arp_pkt_at (mem s') (send + 14)) = ARP_OPS_REPLY"
    "arp_src_mac (arp_pkt_at (mem s') (send + 14)) = mac_addr s"
    "arp_src_ip (arp_pkt_at (mem s') (send + 14)) = my_ip s"
    "arp_dst_mac (arp_pkt_at (mem s') (send + 14)) = arp_src_mac (arp_pkt_at (mem s) recv)"
    "take 4 (arp_dst_ip (arp_pkt_at (mem s') (send + 14))) = arp_src_ip (arp_pkt_at (mem s) recv)"
    by (simp_all add: m arp_pkt_at_def field_simps_pkt len take_mbytes add.assoc)
  show "mem s' a = mem s a" if "4096 \<le> unat (a - send)"
    using that by (simp add: m mput_outside [of _ _ 4096] mput_outside_0 [of _ 4096] len)
qed

section \<open>The transmit ring\<close>

text \<open>
  The descriptor and the buffer that the next frame goes to. \<open>tx_ready s n ys\<close>: they lie clear of each
  other and of the pages \<open>ys\<close>, for a frame of \<open>n\<close> bytes; \<open>plain_tail\<close>: the card keeps what is stored
  in its tail register, and nothing else changes.
\<close>

definition tx_desc :: "'a net_st_scheme \<Rightarrow> u32" where
  "tx_desc s = nic s TDBAL + KERNBASE + 16 * (nic s TDT mod I8254_SEND_DESC_NUM)"

definition tx_buf :: "'a net_st_scheme \<Rightarrow> u32" where
  "tx_buf s = load32 (mem s) (tx_desc s) + KERNBASE"

definition tx_ready :: "'a net_st_scheme \<Rightarrow> nat \<Rightarrow> u32 list \<Rightarrow> bool" where
  "tx_ready s n ys \<longleftrightarrow> base_addr s \<noteq> 0 \<and> unat (tx_buf s) + n \<le> 2 ^ 32 \<and> apart (tx_buf s) n (tx_desc s) 16 \<and>
     (\<forall>y\<in>set ys. apart (tx_buf s) n y 4096 \<and> apart (tx_desc s) 16 y 4096)"

definition plain_tail :: "nic_dev \<Rightarrow> bool" where
  "plain_tail dv \<longleftrightarrow> (\<forall>v r. v < 256 \<longrightarrow> on_write dv TDT v r = r(TDT := v))"

lemma tx_available_pos: "0 < sint (I8254_SEND_DESC_NUM - x mod I8254_SEND_DESC_NUM)"
proof -
  have "unat (x mod 256) < 256" by (simp add: unat_mod)
  moreover from this have "unat (256 - x mod 256) = 256 - unat (x mod 256)"
    by (subst unat_sub) (simp_all add: word_le_nat_alt)
  ultimately have "uint (256 - x mod 256) = int (256 - unat (x mod 256))" "unat (x mod 256) < 256"
    by (metis uint_nat)+
  then have "0 < uint (256 - x mod 256)" "uint (256 - x mod 256) \<le> 256" by linarith+
  then show ?thesis by (simp add: sint32 I8254_SEND_DESC_NUM_def)
qed

lemma mod_256_less: "x mod 256 < (256 :: u32)"
  by (simp add: word_less_nat_alt unat_mod)

lemma i8254_send_spec:
  assumes "tx_ready s (unat len) ys" "plain_tail dv" "unat pkt + unat len < 2 ^ 32"
  shows "\<exists>s'. i8254_send dv pkt len s = Inr (sint len, s') \<and>
    s' = s\<lparr>mem := mem s', nic := (nic s)(TDT := (nic s TDT + 1) mod I8254_SEND_DESC_NUM)\<rparr> \<and>
    mbytes (mem s') (tx_buf s) (unat len) = mbytes (mem s) pkt (unat len) \<and>
    load32 (mem s') (tx_desc s) = load32 (mem s) (tx_desc s) \<and>
    get16 (mem s') (tx_desc s + 8) = ucast len \<and> mem s' (tx_desc s + 11) = 0xb \<and>
    (\<forall>a. unat len \<le> unat (a - tx_buf s) \<longrightarrow> 16 \<le> unat (a - tx_desc s) \<longrightarrow> mem s' a = mem s a)"
proof -
  let ?d = "tx_desc s" let ?b = "tx_buf s"
  define m where "m = mput (mem s) ?b (mbytes (mem s) pkt (unat len))"
  define m' where "m' = mput (mput (mput (mput (mput (mput m (?d + 8) (le16 (ucast len))) (?d + 12) [0]) (?d + 13) [0])
    (?d + 11) [0xb]) (?d + 14) (le16 0)) (?d + 10) [0]"
  have r: "base_addr s \<noteq> 0" "unat ?b + unat len \<le> 2 ^ 32" "apart ?b (unat len) ?d 16"
    using assms(1) by (auto simp: tx_ready_def)
  have mv: "memmove (mem s) ?b pkt len = m"
    unfolding m_def by (rule memmove_mput) (use assms(3) r(2) in auto)
  have tail: "on_write dv TDT ((t + 1) mod I8254_SEND_DESC_NUM) r = r(TDT := (t + 1) mod I8254_SEND_DESC_NUM)" for t r
    using assms(2) mod_256_less by (simp add: plain_tail_def I8254_SEND_DESC_NUM_def)
  have db: "nic s TDBAL + KERNBASE + 16 * (nic s TDT mod I8254_SEND_DESC_NUM) = ?d"
    "load32 (mem s) ?d + KERNBASE = ?b"
    by (simp_all add: tx_desc_def tx_buf_def)
  have send: "i8254_send dv pkt len s =
      Inr (sint len, s\<lparr>mem := m', nic := (nic s)(TDT := (nic s TDT + 1) mod I8254_SEND_DESC_NUM)\<rparr>)"
    using r(1) by (simp add: i8254_send_def nic_rd_def nic_wr_def Let_def tail m'_def put16_bytes
        db mv tx_available_pos)
  have out: "m' a = m a" if "16 \<le> unat (a - ?d)" for a
    using that by (simp add: m'_def mput_outside [of _ _ 16])
  have out': "m a = mem s a" if "unat len \<le> unat (a - ?b)" for a
    using that unat32_lt [of len] by (simp add: m_def mput_apply)
  have "mbytes m' ?b (unat len) = mbytes m ?b (unat len)"
    using apart_byte [of ?d 16 ?b "unat len"] r(3) by (intro mbytes_cong out) (simp add: apart_sym)
  then have payload: "mbytes m' ?b (unat len) = mbytes (mem s) pkt (unat len)"
    using unat32_lt [of len] by (simp add: m_def mbytes_mput_same)
  have "mbytes m ?d 4 = mbytes (mem s) ?d 4"
    using apart_byte [OF r(3)] by (intro mbytes_cong out') simp
  then have desc: "load32 m' ?d = load32 (mem s) ?d" "get16 m' (?d + 8) = ucast len" "m' (?d + 11) = 0xb"
    by (simp_all add: m'_def field_simps_pkt)
  show ?thesis
    by (rule exI [of _ "s\<lparr>mem := m', nic := (nic s)(TDT := (nic s TDT + 1) mod I8254_SEND_DESC_NUM)\<rparr>"])
      (use payload desc out out' in \<open>simp add: send\<close>)
qed

text \<open>
  Every reply is built in a page \<open>x\<close> taken from the allocator, sent, and the page given back: the frame
  is then in the transmit buffer and the pool is as before.
\<close>

lemma kpool_frame:
  assumes "kpool s xs" "held s' = held s" "kend s' = kend s" "freelist s' = freelist s"
    and "\<And>y. y \<in> set xs \<Longrightarrow> mbytes (mem s') y 4 = mbytes (mem s) y 4"
  shows "kpool s' xs"
proof -
  have "flist (mem s') (freelist s) xs"
    using assms(1,5) by (auto simp: kpool_def load32_mbytes intro: flist_frame)
  then show ?thesis using assms by (simp add: kpool_def page_ok_def)
qed

lemma send_and_free:
  assumes pool: "kpool s1 xs" and x: "page_ok s1 x" "x \<notin> set xs"
    and ready: "tx_ready s1 (unat len) (x # xs)" and dv: "plain_tail dv" and len: "unat len \<le> 4096"
  shows "\<exists>s2 s3. i8254_send dv x len s1 = Inr (sint len, s2) \<and> kfree x s2 = Inr s3 \<and> kpool s3 (x # xs) \<and>
    mbytes (mem s3) (tx_buf s1) (unat len) = mbytes (mem s1) x (unat len) \<and>
    get16 (mem s3) (tx_desc s1 + 8) = ucast len \<and>
    nic s3 = (nic s1)(TDT := (nic s1 TDT + 1) mod I8254_SEND_DESC_NUM) \<and>
    send_id s3 = send_id s1 \<and> seq_num s3 = seq_num s1 \<and> fin_flag s3 = fin_flag s1"
proof -
  have "unat x < 2 ^ 32 - 4096" using x(1) V2P_bound [of x] by (auto simp: page_ok_def KERNBASE_def PHYSTOP_def)
  then obtain s2 where s2: "i8254_send dv x len s1 = Inr (sint len, s2)"
    "s2 = s1\<lparr>mem := mem s2, nic := (nic s1)(TDT := (nic s1 TDT + 1) mod I8254_SEND_DESC_NUM)\<rparr>"
    "mbytes (mem s2) (tx_buf s1) (unat len) = mbytes (mem s1) x (unat len)" "get16 (mem s2) (tx_desc s1 + 8) = ucast len"
    "\<And>a. unat len \<le> unat (a - tx_buf s1) \<Longrightarrow> 16 \<le> unat (a - tx_desc s1) \<Longrightarrow> mem s2 a = mem s1 a"
    using i8254_send_spec [OF ready dv, of x] len by auto
  have eq: "held s2 = held s1" "kend s2 = kend s1" "freelist s2 = freelist s1"
    "nic s2 = (nic s1)(TDT := (nic s1 TDT + 1) mod I8254_SEND_DESC_NUM)"
    "send_id s2 = send_id s1" "seq_num s2 = seq_num s1" "fin_flag s2 = fin_flag s1"
    by (subst s2(2), simp)+
  have clear: "apart (tx_buf s1) (unat len) y 4096" "apart (tx_desc s1) 16 y 4096" if "y = x \<or> y \<in> set xs" for y
    using ready that by (auto simp: tx_ready_def)
  have "kpool s2 xs"
  proof (rule kpool_frame [OF pool eq(1-3)])
    fix y assume "y \<in> set xs"
    then show "mbytes (mem s2) y 4 = mbytes (mem s1) y 4"
      using apart_byte [OF clear(1)] apart_byte [OF clear(2)] by (intro mbytes_cong s2(5)) auto
  qed
  moreover have "page_ok s2 x" using x(1) eq by (simp add: page_ok_def)
  ultimately obtain s3 where s3: "kfree x s2 = Inr s3" "kpool s3 (x # xs)"
    "\<And>a. 4096 \<le> unat (a - x) \<Longrightarrow> mem s3 a = mem s2 a"
    using kfree_kpool x(2) by metis
  have n3: "nic s3 = nic s2" "send_id s3 = send_id s2" "seq_num s3 = seq_num s2" "fin_flag s3 = fin_flag s2"
    using s3(1) kfree_Inr [OF \<open>page_ok s2 x\<close>] \<open>kpool s2 xs\<close> by (auto simp: kpool_def)
  have "mbytes (mem s3) (tx_buf s1) (unat len) = mbytes (mem s2) (tx_buf s1) (unat len)"
    using apart_byte [of x 4096 "tx_buf s1" "unat len"] clear(1) [of x] by (intro mbytes_cong s3(3)) (simp add: apart_sym)
  moreover have "mbytes (mem s3) (tx_desc s1 + 8) 2 = mbytes (mem s2) (tx_desc s1 + 8) 2"
    using apart_byte [OF apart_within [of x 4096 "tx_desc s1" 16 0 4096 8 2]] clear(2) [of x]
    by (intro mbytes_cong s3(3)) (simp add: apart_sym)
  ultimately show ?thesis using s2(1,3,4) s3(1,2) n3 eq(4-7) by (auto simp: get16_def)
qed

lemma built_page:
  assumes pool: "kpool s (x # xs)" and ready: "tx_ready s (unat len) (x # xs)" and dv: "plain_tail dv"
    and len: "unat len \<le> 4096"
    and s1: "held s1 = held s" "kend s1 = kend s" "freelist s1 = load32 (mem s) x" "nic s1 = nic s" "base_addr s1 = base_addr s"
    and m1: "\<And>a. 4096 \<le> unat (a - x) \<Longrightarrow> mem s1 a = mem s a"
  shows "\<exists>s2 s3. i8254_send dv x len s1 = Inr (sint len, s2) \<and> kfree x s2 = Inr s3 \<and> kpool s3 (x # xs) \<and>
    mbytes (mem s3) (tx_buf s) (unat len) = mbytes (mem s1) x (unat len) \<and>
    get16 (mem s3) (tx_desc s + 8) = ucast len \<and>
    nic s3 = (nic s)(TDT := (nic s TDT + 1) mod I8254_SEND_DESC_NUM) \<and>
    send_id s3 = send_id s1 \<and> seq_num s3 = seq_num s1 \<and> fin_flag s3 = fin_flag s1"
proof -
  let ?s0 = "s\<lparr>freelist := load32 (mem s) x\<rparr>"
  have p0: "kpool ?s0 xs" "page_ok ?s0 x" "x \<notin> set xs"
    using kalloc_kpool_Cons [OF pool] pool by (auto simp: kpool_def page_ok_def)
  then have "kpool (?s0\<lparr>mem := mem s1\<rparr>) xs" using m1 by (intro kpool_page_write) auto
  then have p1: "kpool s1 xs" using s1 by (auto simp: kpool_def page_ok_def)
  have d: "tx_desc s1 = tx_desc s" using s1(4) by (simp add: tx_desc_def)
  have "apart x 4096 (tx_desc s) 16" using ready by (auto simp: tx_ready_def apart_sym)
  then have "mbytes (mem s1) (tx_desc s) 4 = mbytes (mem s) (tx_desc s) 4"
    using apart_byte by (intro mbytes_cong m1) fastforce
  then have b: "tx_buf s1 = tx_buf s" by (simp add: tx_buf_def d load32_mbytes)
  have "tx_ready s1 (unat len) (x # xs)" using ready s1(5) by (simp add: tx_ready_def d b)
  moreover have "page_ok s1 x" using p0(2) s1(2) by (simp add: page_ok_def)
  ultimately show ?thesis using send_and_free [OF p1 _ p0(3) _ dv len] b d s1(4) by metis
qed

lemma mbytes_sub:
  assumes "mbytes m a n = mbytes m' b n" "unat k + l \<le> n"
  shows "mbytes m (a + k) l = mbytes m' (b + k) l"
proof (rule nth_equalityI)
  fix j assume "j < length (mbytes m (a + k) l)"
  then have "mbytes m a n ! (unat k + j) = mbytes m' b n ! (unat k + j)" "unat k + j < n" "j < l" using assms by auto
  then show "mbytes m (a + k) l ! j = mbytes m' (b + k) l ! j" by (simp add: add.assoc)
qed simp

lemma byte_sub:
  assumes "mbytes m a n = mbytes m' b n" "unat k < n"
  shows "m (a + k) = m' (b + k)"
  using mbytes_sub [OF assms(1), of k 1] assms(2) by (simp add: mbytes_def)

lemma arp_frame_cong:
  assumes "mbytes m a 44 = mbytes m' b 44"
  shows "eth_pkt_at m a = eth_pkt_at m' b" "arp_pkt_at m (a + 14) = arp_pkt_at m' (b + 14)"
  using mbytes_sub [OF assms, of 0] mbytes_sub [OF assms] byte_sub [OF assms]
  by (simp_all add: eth_pkt_at_def arp_pkt_at_def get16_def add.assoc)

lemma memcmp_l_0: "memcmp_l xs ys n = 0 \<longleftrightarrow> (\<forall>j<unat n. xs ! j = ys ! j)"
  by (simp add: memcmp_l_def memcmp_eq_0_iff)

lemma memcmp_l_take: "unat n \<le> length xs \<Longrightarrow> unat n \<le> length ys \<Longrightarrow> memcmp_l xs ys n = 0 \<longleftrightarrow> take (unat n) xs = take (unat n) ys"
  by (auto simp: memcmp_l_0 list_eq_iff_nth_eq)

definition request_for :: "u8 list \<Rightarrow> arp_pkt \<Rightarrow> bool" where
  "request_for ip p \<longleftrightarrow> hrd_type p = ARP_HARDWARE_TYPE \<and> pro_type p = ARP_PROTOCOL_TYPE \<and> hrd_len p = 6 \<and> pro_len p = 4 \<and>
     arp_op p = ARP_OPS_REQUEST \<and> take 4 (arp_dst_ip p) = ip"

section \<open>ICMP\<close>

lemma ipv4_chksum_cong: "unat (bin 0 AND 0xF) = 5 \<Longrightarrow> (\<And>k. k < 20 \<Longrightarrow> bin' k = bin k) \<Longrightarrow> ipv4_chksum bin' = ipv4_chksum bin"
  using chksum_from_cong [of 0 10 bin' bin 0] by (simp add: ipv4_chksum_def unat_word_ariths)

lemma stamped_ipv4_header:
  assumes "mbytes m' a 20 = mbytes (mput m (a + 10) (le16 (H2N_ushort (ipv4_chksum (rd m a))))) a 20"
    and "m a = 0x45" "m (a + 10) = 0" "m (a + 11) = 0"
  shows "ipv4_chksum (rd m' a) = 0"
proof -
  have z: "be_word (rd m a) 5 = 0" using assms(3,4) by (simp add: be_word_def rd_def)
  have "ipv4_chksum (rd m' a) = ipv4_chksum (stamp 5 (ipv4_chksum (rd m a)) (rd m a))"
    using stamped_bytes [of m' a 20 m 5] assms(1,2) by (intro ipv4_chksum_cong) (simp_all add: stamp_def rd_def)
  then show ?thesis using stamped_ipv4 [OF _ z] assms(2) by (simp add: rd_def)
qed

lemma stamped_icmp_packet:
  assumes "mbytes m' a 64 = mbytes (mput m (a + 2) (le16 (H2N_ushort (icmp_chksum (rd m a))))) a 64"
    and "m (a + 2) = 0" "m (a + 3) = 0"
  shows "icmp_chksum (rd m' a) = 0"
proof -
  have z: "be_word (rd m a) 1 = 0" using assms(2,3) by (simp add: be_word_def rd_def)
  have "icmp_chksum (rd m' a) = icmp_chksum (stamp 1 (icmp_chksum (rd m a)) (rd m a))"
    using stamped_bytes [of m' a 64 m 1] assms(1) chksum_from_cong [of 0 32 "rd m' a"]
    by (simp add: icmp_chksum_def)
  then show ?thesis using stamped_icmp [OF z] by simp
qed

lemma ip_payload_sep:
  assumes "buf_sep send recv (74 + n)" "0 < n"
  shows "buf_sep send (ip_payload m (recv + 14)) n"
proof -
  let ?k = "14 + ucast (m (recv + 14) AND 0xF) * 4 :: u32"
  have "unat (m (recv + 14) AND 0xF) \<le> unat (0xF :: u8)" by (metis word_and_le1 word_le_nat_alt)
  then have "unat (ucast (m (recv + 14) AND 0xF) :: u32) \<le> 15"
    unfolding unsigned_ucast_eq by (intro order_trans [OF take_bit_nat_less_eq_self]) simp
  then have "unat ?k \<le> 74" by (simp add: unat_word_ariths)
  then have "buf_sep send (recv + ?k) n" using assms by (intro buf_sep_sub [OF assms(1)]) simp_all
  then show ?thesis by (simp add: ip_payload_def add.assoc)
qed

lemma ip_headers_frame:
  assumes sep: "buf_sep send recv 34" and len: "length (mac_addr s) = 6" "length (my_ip s) = 4"
    and s': "s' = ip_headers_create recv send tlen frag proto s"
  shows "s' = s\<lparr>mem := mem s', send_id := send_id s + 1\<rparr>"
    "eth_pkt_at (mem s') send = \<lparr>eth_dst_mac = eth_src_mac (eth_pkt_at (mem s) recv), eth_src_mac = mac_addr s, eth_type = [8, 0]\<rparr>"
    "ipv4_pkt_at (mem s') (send + 14) = \<lparr>ip_ver = 0x45, srv_type = 0, total_len = H2N_ushort tlen, ip_ident = send_id s,
       fragment = H2N_ushort frag, ttl = 255, protocol = proto, ip_chk_sum = get16 (mem s') (send + 24), ip_src_ip = my_ip s,
       ip_dst_ip = ip_src_ip (ipv4_pkt_at (mem s) (recv + 14))\<rparr>"
    "ipv4_chksum (rd (mem s') (send + 14)) = 0"
    "34 \<le> unat (a - send) \<Longrightarrow> mem s' a = mem s a"
proof -
  have ne: "mac_addr s \<noteq> []" "my_ip s \<noteq> []" using len by auto
  define m1 where "m1 = mput (mput (mput (mput (mput (mput (mput (mput (mput (mput (mput (mput (mput (mput (mem s)
      send (mbytes (mem s) (recv + 6) 6)) (send + 6) (mac_addr s)) (send + 12) [8]) (send + 13) [0])
      (send + 14) [0x45]) (send + 15) [0]) (send + 16) (le16 (H2N_ushort tlen))) (send + 18) (le16 (send_id s)))
      (send + 20) (le16 (H2N_ushort frag))) (send + 22) [255]) (send + 23) [proto]) (send + 26) (my_ip s))
      (send + 30) (mbytes (mem s) (recv + 26) 4)) (send + 24) (le16 0)"
  have m: "mem s' = mput m1 (send + 24) (le16 (H2N_ushort (ipv4_chksum (rd m1 (send + 14)))))"
    unfolding s' ip_headers_create_def m1_def
    by (simp add: Let_def layout add.assoc put16_bytes copy_in [OF sep] recv_kept [OF sep] recv_kept_0 [OF sep] len ne)
  show "s' = s\<lparr>mem := mem s', send_id := send_id s + 1\<rparr>" unfolding s' ip_headers_create_def by (simp add: Let_def)
  show "34 \<le> unat (a - send) \<Longrightarrow> mem s' a = mem s a"
    by (simp add: m m1_def mput_outside [of _ _ 34] mput_outside_0 [of _ 34] len)
  have "mbytes m1 (send + 24) 2 = le16 0" "m1 (send + 14) = 0x45" by (simp_all add: m1_def field_simps_pkt len)
  then show "ipv4_chksum (rd (mem s') (send + 14)) = 0"
    by (intro stamped_ipv4_header [of _ _ m1]) (simp_all add: m mbytes_2 le16_def add.assoc)
  show "eth_pkt_at (mem s') send = \<lparr>eth_dst_mac = eth_src_mac (eth_pkt_at (mem s) recv), eth_src_mac = mac_addr s, eth_type = [8, 0]\<rparr>"
    by (simp add: m m1_def eth_pkt_at_def field_simps_pkt len mbytes_2 add.assoc)
  show "ipv4_pkt_at (mem s') (send + 14) = \<lparr>ip_ver = 0x45, srv_type = 0, total_len = H2N_ushort tlen, ip_ident = send_id s,
       fragment = H2N_ushort frag, ttl = 255, protocol = proto, ip_chk_sum = get16 (mem s') (send + 24), ip_src_ip = my_ip s,
       ip_dst_ip = ip_src_ip (ipv4_pkt_at (mem s) (recv + 14))\<rparr>"
    by (simp add: m m1_def ipv4_pkt_at_def field_simps_pkt len add.assoc)
qed

lemma le16_of_le16: "length bs = 2 \<Longrightarrow> le16 (of_le16 bs) = bs"
proof -
  assume "length bs = 2"
  then obtain x y where "bs = [x, y]" by (auto simp: length_Suc_conv numeral_2_eq_2)
  then show ?thesis by (auto simp: le16_def of_le16_def intro!: bit_word_eqI) (auto simp: bit_simps dest: bit_imp_le_length)
qed

lemma rd_sub:
  assumes "mbytes m a n = mbytes m' b n" "unat k + j < n"
  shows "rd m (a + k) j = rd m' (b + k) j"
  using byte_sub [OF assms(1), of "k + of_nat j"] assms(2) mbytes_sub [OF assms(1), of k "Suc j"]
  by (auto simp: mbytes_def)

lemma headers_cong:
  assumes "mbytes m a 34 = mbytes m' b 34"
  shows "eth_pkt_at m a = eth_pkt_at m' b" "ipv4_pkt_at m (a + 14) = ipv4_pkt_at m' (b + 14)"
    "m (a + 14) = 0x45 \<Longrightarrow> ipv4_chksum (rd m (a + 14)) = ipv4_chksum (rd m' (b + 14))"
proof -
  show "eth_pkt_at m a = eth_pkt_at m' b" "ipv4_pkt_at m (a + 14) = ipv4_pkt_at m' (b + 14)"
    using mbytes_sub [OF assms, of 0] mbytes_sub [OF assms] byte_sub [OF assms]
    by (simp_all add: eth_pkt_at_def ipv4_pkt_at_def get16_def add.assoc)
  show "ipv4_chksum (rd m (a + 14)) = ipv4_chksum (rd m' (b + 14))" if "m (a + 14) = 0x45"
    using that rd_sub [OF assms, of 14]
    by (intro ipv4_chksum_cong [symmetric]) (simp_all add: byte_sub [OF assms] rd_def)
qed

lemma icmp_cong:
  assumes "mbytes m a 98 = mbytes m' b 98"
  shows "icmp_echo_pkt_at m (a + 34) = icmp_echo_pkt_at m' (b + 34)"
    "icmp_chksum (rd m (a + 34)) = icmp_chksum (rd m' (b + 34))"
proof -
  show "icmp_echo_pkt_at m (a + 34) = icmp_echo_pkt_at m' (b + 34)"
    using mbytes_sub [OF assms] byte_sub [OF assms] by (simp add: icmp_echo_pkt_at_def get16_def add.assoc)
  have "chksum_from (rd m (a + 34)) 0 32 0 = chksum_from (rd m' (b + 34)) 0 32 0"
    by (rule chksum_from_cong) (rule rd_sub [OF assms], simp)
  then show "icmp_chksum (rd m (a + 34)) = icmp_chksum (rd m' (b + 34))" by (simp add: icmp_chksum_def)
qed

lemma page_kept:
  assumes "buf_sep send recv K" "\<And>a. 4096 \<le> unat (a - send) \<Longrightarrow> m' a = m a"
  shows "n \<le> K \<Longrightarrow> mbytes m' recv n = mbytes m recv n"
    and "unat k + n \<le> K \<Longrightarrow> 0 < n \<Longrightarrow> mbytes m' (recv + k) n = mbytes m (recv + k) n"
proof -
  have f: "mbytes m' r n = mbytes m r n" if "apart send 4096 r n" for r n
    using apart_byte [OF that] by (intro mbytes_cong assms(2)) simp
  show "mbytes m' recv n = mbytes m recv n" if "n \<le> K"
    using that assms(1) by (intro f) (auto simp: buf_sep_def apart_def)
  show "mbytes m' (recv + k) n = mbytes m (recv + k) n" if "unat k + n \<le> K" "0 < n"
    using that buf_sep_sub [OF assms(1) that] by (intro f) (simp add: buf_sep_def)
qed

lemma icmp_reply_frame:
  assumes sep: "buf_sep send recv 138" and len: "length (mac_addr s) = 6" "length (my_ip s) = 4"
    and c: "icmp_reply_pkt_create recv send s = (n, s')"
    and req: "req = icmp_echo_pkt_at (mem s) (ip_payload (mem s) (recv + 14))"
  shows "n = 98" "s' = s\<lparr>mem := mem s', send_id := send_id s + 1\<rparr>"
    "eth_pkt_at (mem s') send = \<lparr>eth_dst_mac = eth_src_mac (eth_pkt_at (mem s) recv), eth_src_mac = mac_addr s, eth_type = [8, 0]\<rparr>"
    "ipv4_pkt_at (mem s') (send + 14) = \<lparr>ip_ver = 0x45, srv_type = 0, total_len = H2N_ushort 84, ip_ident = send_id s,
       fragment = H2N_ushort 0x4000, ttl = 255, protocol = 1, ip_chk_sum = get16 (mem s') (send + 24), ip_src_ip = my_ip s,
       ip_dst_ip = ip_src_ip (ipv4_pkt_at (mem s) (recv + 14))\<rparr>"
    "icmp_echo_pkt_at (mem s') (send + 34) =
       req\<lparr>icmp_type := 0, icmp_code := 0, icmp_chk_sum := get16 (mem s') (send + 36)\<rparr>"
    "ipv4_chksum (rd (mem s') (send + 14)) = 0" "icmp_chksum (rd (mem s') (send + 34)) = 0"
    "4096 \<le> unat (a - send) \<Longrightarrow> mem s' a = mem s a"
proof -
  define icmp where "icmp = ip_payload (mem s) (recv + 14)"
  define s1 where "s1 = ip_headers_create recv send (ucast (sizeof_ipv4_pkt + sizeof_icmp_pkt)) 0x4000 1 s"
  have sep0: "buf_sep send recv 34" using buf_sep_sub [OF sep, of 0 34] by simp
  have sep2: "buf_sep send icmp 64" unfolding icmp_def by (rule ip_payload_sep) (use sep in simp_all)
  note h = ip_headers_frame [OF sep0 len s1_def]
  have kept: "mbytes (mem s1) (icmp + k) l = mbytes (mem s) (icmp + k) l" if "unat k + l \<le> 64" "0 < l" for k l
    using h(5) by (intro page_kept(2) [OF sep2 _ that]) simp
  define m3 where "m3 = mput (mput (mput (mput (mput (mput (mput (mem s1) (send + 34) [0]) (send + 35) [0])
      (send + 38) (mbytes (mem s) (icmp + 4) 2)) (send + 40) (mbytes (mem s) (icmp + 6) 2))
      (send + 42) (mbytes (mem s) (icmp + 8) 8)) (send + 50) (mbytes (mem s) (icmp + 16) 48)) (send + 36) (le16 0)"
  have d: "n = 98" "s' = s1\<lparr>mem := mput m3 (send + 36) (le16 (H2N_ushort (icmp_chksum (rd m3 (send + 34)))))\<rparr>"
    using c [unfolded icmp_reply_pkt_create_def Let_def prod.inject, folded s1_def]
    by (simp_all add: layout add.assoc put16_bytes get16_def icmp_def [symmetric] copy_in [OF sep2] recv_kept [OF sep2] kept le16_of_le16 m3_def)
  have m: "mem s' = mput m3 (send + 36) (le16 (H2N_ushort (icmp_chksum (rd m3 (send + 34)))))" using d by simp
  show "n = 98" by (rule d)
  show "s' = s\<lparr>mem := mem s', send_id := send_id s + 1\<rparr>" unfolding d by (subst h(1)) simp
  show "4096 \<le> unat (a - send) \<Longrightarrow> mem s' a = mem s a"
    by (simp add: m m3_def mput_outside [of _ _ 4096] h(5))
  have "mbytes m3 (send + 36) 2 = le16 0" by (simp add: m3_def field_simps_pkt)
  then show "icmp_chksum (rd (mem s') (send + 34)) = 0"
    by (intro stamped_icmp_packet [of _ _ m3]) (simp_all add: m mbytes_2 le16_def add.assoc)
  have hd: "mbytes (mem s') send 34 = mbytes (mem s1) send 34" by (simp add: m m3_def field_simps_pkt)
  show "icmp_echo_pkt_at (mem s') (send + 34) =
      req\<lparr>icmp_type := 0, icmp_code := 0, icmp_chk_sum := get16 (mem s') (send + 36)\<rparr>"
    by (simp add: m m3_def req icmp_def [symmetric] icmp_echo_pkt_at_def field_simps_pkt add.assoc)
  have "mem s1 (send + 14) = 0x45" using arg_cong [OF h(3), of ip_ver] by (simp add: ipv4_pkt_at_def)
  then show "ipv4_chksum (rd (mem s') (send + 14)) = 0"
    using headers_cong(3) [OF hd [symmetric]] h(4) by simp
  show "eth_pkt_at (mem s') send = \<lparr>eth_dst_mac = eth_src_mac (eth_pkt_at (mem s) recv), eth_src_mac = mac_addr s, eth_type = [8, 0]\<rparr>"
    using headers_cong(1) [OF hd] h(2) by simp
  show "ipv4_pkt_at (mem s') (send + 14) = \<lparr>ip_ver = 0x45, srv_type = 0, total_len = H2N_ushort 84, ip_ident = send_id s,
       fragment = H2N_ushort 0x4000, ttl = 255, protocol = 1, ip_chk_sum = get16 (mem s') (send + 24), ip_src_ip = my_ip s,
       ip_dst_ip = ip_src_ip (ipv4_pkt_at (mem s) (recv + 14))\<rparr>"
    using headers_cong(2) [OF hd] h(3) mbytes_sub [OF hd, of 24 2] by (simp add: layout get16_def)
qed

section \<open>The ARP table\<close>

text \<open>
  The table as a map from protocol to hardware addresses. \<open>arp_ok\<close>: the addresses in use are distinct,
  not all zero, and a free entry has the zero address, as the zero-initialised array has.
\<close>

definition arp_map :: "arp_entry list \<Rightarrow> u8 list \<rightharpoonup> u8 list" where
  "arp_map tbl = map_of (map (\<lambda>e. (ent_ip e, ent_mac e)) (filter (\<lambda>e. ent_use e \<noteq> 0) tbl))"

definition arp_ok :: "arp_entry list \<Rightarrow> bool" where
  "arp_ok tbl \<longleftrightarrow> length tbl = ARP_TABLE_MAX \<and> distinct (map ent_ip (filter (\<lambda>e. ent_use e \<noteq> 0) tbl)) \<and>
     (\<forall>e\<in>set tbl. length (ent_ip e) = 4 \<and> (ent_use e = 0 \<longleftrightarrow> ent_ip e = [0, 0, 0, 0]))"

definition arp_table_init :: "arp_entry list" where
  "arp_table_init = replicate ARP_TABLE_MAX \<lparr>ent_ip = [0, 0, 0, 0], ent_mac = [0, 0, 0, 0, 0, 0], ent_use = 0\<rparr>"

lemma memcmp_l_ip: "length xs = 4 \<Longrightarrow> length ys = 4 \<Longrightarrow> memcmp_l xs ys 4 = 0 \<longleftrightarrow> xs = ys"
  by (simp add: memcmp_l_take)

text \<open>The three ways a search ends: an entry with the address, the first free entry, a full table.\<close>

lemma search_skip:
  assumes "\<And>e. e \<in> set as \<Longrightarrow> memcmp_l (ent_ip e) ip 4 \<noteq> 0 \<and> (h = 1 \<longrightarrow> ent_use e \<noteq> 0)"
  shows "search_from (as @ bs) ip i h = search_from bs ip (i + length as) h"
  using assms by (induction as arbitrary: i) auto

lemma search_hole:
  "(\<And>e. e \<in> set es \<Longrightarrow> memcmp_l (ent_ip e) ip 4 \<noteq> 0) \<Longrightarrow> h \<noteq> 1 \<Longrightarrow> search_from es ip i h = h - 1"
  by (induction es arbitrary: i) auto

lemma search_found:
  "(\<And>e. e \<in> set as \<Longrightarrow> memcmp_l (ent_ip e) ip 4 \<noteq> 0) \<Longrightarrow> memcmp_l (ent_ip e) ip 4 = 0 \<Longrightarrow>
   search_from (as @ e # bs) ip i h = int (i + length as)"
  by (induction as arbitrary: i h) auto

lemma search_free:
  assumes "\<And>f. f \<in> set (as @ e # bs) \<Longrightarrow> memcmp_l (ent_ip f) ip 4 \<noteq> 0" "\<And>f. f \<in> set as \<Longrightarrow> ent_use f \<noteq> 0" "ent_use e = 0"
  shows "arp_table_search (as @ e # bs) ip = - int (length as) - 1"
proof -
  have "search_from (as @ e # bs) ip 0 1 = search_from (e # bs) ip (length as) 1"
    using search_skip [of as ip 1 "e # bs" 0] assms by simp
  also have "\<dots> = - int (length as) - 1"
    using assms search_hole [of bs ip "- int (length as)"] by simp
  finally show ?thesis by (simp add: arp_table_search_def)
qed

lemma arp_map_Cons_mid:
  assumes "\<And>e. e \<in> set as \<Longrightarrow> ent_use e \<noteq> 0 \<Longrightarrow> ent_ip e \<noteq> ent_ip f" "ent_use f \<noteq> 0" "\<And>k. k \<noteq> ent_ip f \<Longrightarrow> arp_map [e] k = None"
  shows "arp_map (as @ f # bs) = (arp_map (as @ e # bs))(ent_ip f \<mapsto> ent_mac f)"
proof
  fix k
  have "map_of (map (\<lambda>e. (ent_ip e, ent_mac e)) (filter (\<lambda>e. ent_use e \<noteq> 0) as)) (ent_ip f) = None"
    using assms(1) by (force simp: map_of_eq_None_iff)
  moreover have "arp_map (e # bs) k = arp_map bs k" if "k \<noteq> ent_ip f"
    using assms(3) [OF that] by (auto simp: arp_map_def split: if_splits)
  ultimately show "arp_map (as @ f # bs) k = ((arp_map (as @ e # bs))(ent_ip f \<mapsto> ent_mac f)) k"
    using assms(2) by (auto simp: arp_map_def map_add_def split: option.splits)
qed

section \<open>Where the stack falls short of its protocols\<close>

lemma nibble_masks:
  "(0xF :: u32) = mask 4" "(0xF0 :: u32) = push_bit 4 (mask 4)" "(0xF00 :: u32) = push_bit 8 (mask 4)" "(0xF000 :: u32) = push_bit 12 (mask 4)"
  "(0xFF :: u32) = mask 8" "(0xFF00 :: u32) = push_bit 8 (mask 8)" "(0xFF0000 :: u32) = push_bit 16 (mask 8)" "(0xFF000000 :: u32) = push_bit 24 (mask 8)"
  by (simp_all add: mask_eq_exp_minus_1 push_bit_eq_mult)

lemma bit_H2N_uint:
  "bit (H2N_uint v) n \<longleftrightarrow> n < 32 \<and> (24 \<le> n \<and> n < 28 \<and> bit v (n - 24) \<or> 12 \<le> n \<and> n < 16 \<and> bit v (n - 8) \<or> n < 4 \<and> bit v (8 + n))"
proof -
  have z: "drop_bit 24 (v AND 0xF000) = 0" unfolding nibble_masks by (rule bit_word_eqI) (auto simp: bit_simps)
  have "H2N_uint v = push_bit 24 (v AND 0xF) OR push_bit 8 (v AND 0xF0) OR drop_bit 8 (v AND 0xF00)"
    unfolding H2N_uint_def z unfolding nibble_masks
    by (simp, subst disjunctive_add; (subst disjunctive_add)?) (auto simp: bit_simps or.assoc)
  then have e: "bit (H2N_uint v) n = bit (push_bit 24 (v AND mask 4) OR push_bit 8 (v AND push_bit 4 (mask 4)) OR drop_bit 8 (v AND push_bit 8 (mask 4))) n"
    unfolding nibble_masks by simp
  consider "n < 4" | "4 \<le> n" "n < 12" | "12 \<le> n" "n < 16" | "16 \<le> n" "n < 24" | "24 \<le> n" "n < 28" | "28 \<le> n" by linarith
  then show ?thesis unfolding e by cases (auto simp: bit_simps)
qed

lemma bit_N2H_uint:
  "bit (N2H_uint v) n \<longleftrightarrow> n < 32 \<and> (if 24 \<le> n then bit v (n - 24) else if 16 \<le> n then bit v (n - 8) else if 8 \<le> n then bit v (8 + n) else bit v (24 + n))"
proof -
  have "N2H_uint v = push_bit 24 (v AND 0xFF) OR push_bit 8 (v AND 0xFF00) OR drop_bit 8 (v AND 0xFF0000) OR drop_bit 24 (v AND 0xFF000000)"
    unfolding N2H_uint_def nibble_masks
    by (subst disjunctive_add; (subst disjunctive_add)?; (subst disjunctive_add)?) (auto simp: bit_simps or.assoc)
  then have e: "bit (N2H_uint v) n = bit (push_bit 24 (v AND mask 8) OR push_bit 8 (v AND push_bit 8 (mask 8)) OR drop_bit 8 (v AND push_bit 16 (mask 8)) OR
      drop_bit 24 (v AND push_bit 24 (mask 8))) n"
    unfolding nibble_masks by simp
  consider "n < 8" | "8 \<le> n" "n < 16" | "16 \<le> n" "n < 24" | "24 \<le> n" "n < 32" | "32 \<le> n" by linarith
  then show ?thesis unfolding e by cases (auto simp: bit_simps)
qed

lemma tcp_sum_from_cong:
  "(\<And>k. k < 2 * (i + n) \<Longrightarrow> bin' k = bin k) \<Longrightarrow> tcp_sum_from bin' i n c = tcp_sum_from bin i n c"
proof (induction n arbitrary: i c)
  case (Suc n)
  have "be_word bin' i = be_word bin i" using Suc.prems by (simp add: be_word_def)
  moreover have "tcp_sum_from bin' (Suc i) n c = tcp_sum_from bin (Suc i) n c" for c
    by (rule Suc.IH) (use Suc.prems in simp)
  ultimately show ?case by simp
qed simp

section \<open>Formatted output of words\<close>

lemma digits_of_chars: "1 < b \<Longrightarrow> b \<le> 16 \<Longrightarrow> c \<in> set (digits_of b x) \<Longrightarrow> 0x20 \<le> c \<and> c \<le> 0x7E"
proof (induction b x rule: digits_of.induct)
  case (1 b x)
  have "0x20 \<le> digit_char (x mod b) \<and> digit_char (x mod b) \<le> 0x7E"
    using 1(2,3) less_le_trans [OF mod_less_divisor [of b x], of 16] by (simp add: digit_char_def)
  then show ?case using 1 digits_of.simps [of b x] by (auto split: if_splits)
qed

definition shows_ok :: "int \<Rightarrow> bool" where
  "shows_ok c \<longleftrightarrow> c = ch_nl \<or> 0x20 \<le> c \<and> c \<le> 0x7E"

lemma printint_hex_ok: "list_all shows_ok (printint_chars w 16 False)"
  using digits_of_chars [of 16] by (auto simp: list_all_iff printint_chars_def shows_ok_def)

lemma consputs_ok:
  assumes "cons_ready s" "list_all shows_ok cs"
  shows "\<exists>s'. consputs cs s = Inr s' \<and> cframe s s'"
  using assms
proof (induction cs arbitrary: s)
  case Nil
  then show ?case by (simp add: cframe_refl)
next
  case (Cons c cs)
  obtain s1 where s1: "consputc c s = Inr s1" "cframe s s1"
    using consputc_ok [of s c] Cons.prems by (auto simp: shows_ok_def)
  then have "cons_ready s1" using Cons.prems(1) cons_abs_frame(2) by blast
  then obtain s2 where "consputs cs s1 = Inr s2" "cframe s1 s2" using Cons by auto
  then show ?case using s1 cframe_trans [OF s1(2)] by auto
qed

lemma kprint_ok:
  assumes "cons_ready s" "LK_cons \<notin> set (held s)" "cprintf_chars (map of_char fmt) args = Inr cs" "list_all shows_ok cs"
  shows "\<exists>s'. kprint fmt args s = Inr s' \<and> cframe s s'"
proof (cases "cons_locking s")
  case True
  let ?s = "s\<lparr>held := LK_cons # held s\<rparr>"
  have "cons_ready ?s" using assms(1) by (simp add: cons_ready_def)
  then obtain m p u where "consputs cs ?s = Inr (?s\<lparr>mem := m, console_pos := p, uart_out := u\<rparr>)"
    using consputs_ok [OF _ assms(4)] unfolding cframe_def by blast
  moreover have "removeAll LK_cons (held s) = held s" using assms(2) by simp
  ultimately show ?thesis using True assms(2,3) by (auto simp: kprint_def cprintf_def Let_def cframe_def)
next
  case False
  then show ?thesis using consputs_ok [OF assms(1,4)] assms(3) by (simp add: kprint_def cprintf_def Let_def bind_r_Inr_right)
qed

lemma pci_formats:
  "\<exists>cs. cprintf_chars (map of_char ''PCI Device Found Bus:0x%x Device:0x%x Function:%x\<newline>'') [Word a, Word b, Word c] = Inr cs \<and> list_all shows_ok cs"
  "\<exists>cs. cprintf_chars (map of_char ''  Device ID:0x%x  Vendor ID:0x%x\<newline>'') [Word a, Word b] = Inr cs \<and> list_all shows_ok cs"
  "\<exists>cs. cprintf_chars (map of_char ''  Base Class:0x%x  Sub Class:0x%x  Interface:0x%x  Revision ID:0x%x\<newline>'')
     [Word a, Word b, Word c, Word d] = Inr cs \<and> list_all shows_ok cs"
  by (simp_all add: printint_hex_ok) (simp_all add: shows_ok_def ch_nl_def)

text \<open>What the scan of the bus leaves alone when it finds no card it knows.\<close>

definition scan_frame :: "'a net_st_scheme \<Rightarrow> 'a net_st_scheme \<Rightarrow> bool" where
  "scan_frame s s' \<longleftrightarrow> base_addr s' = base_addr s \<and> pci_cfg s' = pci_cfg s \<and> held s' = held s \<and>
     freelist s' = freelist s \<and> use_lock s' = use_lock s \<and> (cons_ready s' \<longleftrightarrow> cons_ready s)"

lemma scan_frame_trans: "scan_frame s s1 \<Longrightarrow> scan_frame s1 s2 \<Longrightarrow> scan_frame s s2"
  by (simp add: scan_frame_def)

lemma scan_frame_upd [simp]:
  "scan_frame s (s'\<lparr>pci_addr := a\<rparr>) = scan_frame s s'" "scan_frame s (s'\<lparr>the_dev := d\<rparr>) = scan_frame s s'"
  by (simp_all add: scan_frame_def cons_ready_def)

lemma scan_frame_refl: "scan_frame s s"
  by (simp add: scan_frame_def)

lemma cframe_scan_frame: "cframe s s' \<Longrightarrow> scan_frame s s'"
  by (auto simp: cframe_def scan_frame_def cons_ready_def)

lemma scan_print:
  assumes "scan_frame s s1" "cons_ready s" "LK_cons \<notin> set (held s)"
    and "\<exists>cs. cprintf_chars (map of_char fmt) args = Inr cs \<and> list_all shows_ok cs"
  obtains s2 where "kprint fmt args s1 = Inr s2" "scan_frame s s2" "\<And>a. pci_cfg s2 a = pci_cfg s a"
proof -
  have "cons_ready s1" "LK_cons \<notin> set (held s1)" using assms(1-3) by (simp_all add: scan_frame_def)
  then obtain s2 where "kprint fmt args s1 = Inr s2" "cframe s1 s2" using assms(4) kprint_ok by blast
  moreover have "scan_frame s s2" by (rule scan_frame_trans [OF assms(1) cframe_scan_frame [OF calculation(2)]])
  ultimately show thesis using that by (simp add: scan_frame_def)
qed

definition other_card :: "u32 \<Rightarrow> bool" where
  "other_card d \<longleftrightarrow> \<not> (drop_bit 16 d = I8254_DEVICE_ID \<and> d AND 0xFFFF = I8254_VENDOR_ID)"

lemmas pci_access_defs = pci_access_config_def pci_write_config_def pci_read_config_def

lemma pci_init_device_other:
  assumes "cons_ready s" "LK_cons \<notin> set (held s)" "other_card (pci_cfg s (pci_config_addr i j k 0))"
  shows "\<exists>s'. pci_init_device dv fuel i j k s = Inr s' \<and> scan_frame s s'"
proof -
  let ?s = "s\<lparr>the_dev := (the_dev s)\<lparr>bus_num := ucast i, device_num := ucast j, function_num := ucast k\<rparr>\<rparr>"
  obtain s1 where s1: "kprint ''PCI Device Found Bus:0x%x Device:0x%x Function:%x\<newline>'' [Word i, Word j, Word k] ?s = Inr s1"
    "scan_frame s s1" "\<And>a. pci_cfg s1 a = pci_cfg s a"
    by (rule scan_print [OF _ assms(1,2) pci_formats(1) [of i j k], of ?s]) (simp add: scan_frame_refl, rule that)
  define d where "d = pci_cfg s (pci_config_addr i j k 0)"
  let ?s1 = "s1\<lparr>pci_addr := pci_config_addr i j k 0, the_dev := (the_dev s1)\<lparr>device_id := drop_bit 16 d, vendor_id := d AND 0xFFFF\<rparr>\<rparr>"
  obtain s2 where s2: "kprint ''  Device ID:0x%x  Vendor ID:0x%x\<newline>'' [Word (drop_bit 16 d), Word (d AND 0xFFFF)] ?s1 = Inr s2"
    "scan_frame s s2" "\<And>a. pci_cfg s2 a = pci_cfg s a"
    by (rule scan_print [OF _ assms(1,2) pci_formats(2) [of "drop_bit 16 d" "d AND 0xFFFF"], of ?s1]) (use s1(2) in simp, rule that)
  define e where "e = pci_cfg s (pci_config_addr i j k 8)"
  let ?s2 = "s2\<lparr>pci_addr := pci_config_addr i j k 8\<rparr>"
  obtain s3 where s3: "kprint ''  Base Class:0x%x  Sub Class:0x%x  Interface:0x%x  Revision ID:0x%x\<newline>''
      [Word (drop_bit 24 e), Word (drop_bit 16 e AND 0xFF), Word (drop_bit 8 e AND 0xFF), Word (e AND 0xFF)] ?s2 = Inr s3"
    "scan_frame s s3" "\<And>a. pci_cfg s3 a = pci_cfg s a"
    by (rule scan_print [OF _ assms(1,2) pci_formats(3) [of "drop_bit 24 e" "drop_bit 16 e AND 0xFF" "drop_bit 8 e AND 0xFF" "e AND 0xFF"],
          of ?s2]) (use s2(2) in simp, rule that)
  have "\<not> (drop_bit 16 d = I8254_DEVICE_ID \<and> d AND 0xFFFF = I8254_VENDOR_ID)" using assms(3) by (simp add: other_card_def d_def)
  then show ?thesis using s1 s2 s3 unfolding pci_init_device_def pci_access_defs Let_def prod.case
    by (simp add: d_def [symmetric] e_def [symmetric]) blast
qed

lemma pci_scan_other:
  assumes "cons_ready s" "LK_cons \<notin> set (held s)" "\<forall>(i, j, k) \<in> set fs. other_card (pci_cfg s (pci_config_addr i j k 0))"
  shows "\<exists>s'. pci_scan dv fuel fs s = Inr s' \<and> scan_frame s s'"
  using assms
proof (induction fs arbitrary: s)
  case Nil
  then show ?case by (simp add: scan_frame_refl)
next
  case (Cons f fs)
  obtain i j k where f: "f = (i, j, k)" by (cases f)
  let ?s = "s\<lparr>pci_addr := pci_config_addr i j k 0\<rparr>"
  have r: "cons_ready ?s" "scan_frame s ?s" using Cons.prems(1) by (simp_all add: cons_ready_def scan_frame_refl)
  obtain s1 where s1: "(if pci_cfg s (pci_config_addr i j k 0) AND 0xFFFF \<noteq> 0xFFFF then pci_init_device dv fuel i j k ?s else Inr ?s) = Inr s1"
    "scan_frame ?s s1"
  proof (cases "pci_cfg s (pci_config_addr i j k 0) AND 0xFFFF = 0xFFFF")
    case True
    then show thesis by (intro that [of ?s]) (simp_all only: scan_frame_refl simp_thms if_False)
  next
    case False
    obtain s1 where "pci_init_device dv fuel i j k ?s = Inr s1" "scan_frame ?s s1"
      using pci_init_device_other [of ?s i j k dv fuel] r(1) Cons.prems(2,3) f by auto
    then show thesis using False that by simp
  qed
  then have s: "scan_frame s s1" using scan_frame_trans r(2) by blast
  then obtain s2 where "pci_scan dv fuel fs s1 = Inr s2" "scan_frame s1 s2"
    using Cons.IH [of s1] Cons.prems by (auto simp: scan_frame_def)
  then show ?case using s1(1) scan_frame_trans [OF s] by (auto simp: f pci_access_defs)
qed

lemma desc_buffers_frame:
  assumes "kpool s xs" "page_ok s base" "base \<notin> set xs" "k \<le> n" "n - k \<le> length xs" "n < 256"
  shows "\<exists>s'. desc_buffers base [k..<n] s = Inr s' \<and> (\<forall>a. 16 * n + 4 \<le> unat (a - base) \<longrightarrow> mem s' a = mem s a)"
  using assms
proof (induction "n - k" arbitrary: k s xs)
  case (Suc d)
  then obtain x ys where xs: "xs = x # ys" by (cases xs) auto
  have dk: "d = n - Suc k" "n - Suc k \<le> length ys" using Suc(2) Suc.prems(5) by (simp_all add: xs)
  have kn: "k < n" "[k..<n] = k # [Suc k..<n]" using Suc(2) by (auto simp: upt_conv_Cons)
  let ?s0 = "s\<lparr>freelist := load32 (mem s) x\<rparr>"
  define m where "m = store32 (store32 (mem s) (base + 16 * of_nat k) (V2P x)) (base + 16 * (of_nat k + 1)) (V2P (x + 0x800))"
  have u: "unat (16 * of_nat k :: u32) = 16 * k" "unat (16 * (of_nat k + 1) :: u32) = 16 * k + 16"
    using kn Suc.prems(6) by (simp_all add: unat_word_ariths unat_of_nat)
  have out: "m a = mem s a" if "16 * n + 4 \<le> unat (a - base)" for a
    unfolding m_def store32_mput using that kn Suc.prems(6)
    by (subst mput_outside [of _ _ "16 * n + 4"]; (subst mput_outside [of _ _ "16 * n + 4"])?) 
      (simp_all only: u length_le32, simp_all)
  have p: "kalloc s = Inr (x, ?s0)" "kpool ?s0 ys" "x \<noteq> 0"
    using kalloc_kpool_Cons [of s x ys] Suc.prems(1) page_ok_nonzero [of s x] unfolding xs by (auto simp: kpool_def)
  have "kpool (?s0\<lparr>mem := m\<rparr>) ys"
    using p(2) Suc.prems(2,3,6) out by (intro kpool_page_write) (auto simp: page_ok_def xs)
  then obtain s' where "desc_buffers base [Suc k..<n] (?s0\<lparr>mem := m\<rparr>) = Inr s'"
    "\<forall>a. 16 * n + 4 \<le> unat (a - base) \<longrightarrow> mem s' a = m a"
    using Suc(1) [of "Suc k" "?s0\<lparr>mem := m\<rparr>" ys] dk Suc.prems kn by (auto simp: page_ok_def xs)
  then show ?case using p(1,3) kn out by (auto simp: m_def Let_def)
qed auto

end
