(* ===== verification/Net_Props.thy ===== *)
theory Net_Props
  imports Net_Frames Kernel_Props
begin

text \<open>
  Properties of the network stack, each applied to a concrete state: \<open>net_demo bs\<close> has the frame \<open>bs\<close> in
  a receive buffer, one free page, an idle transmit ring with one buffer and a card that keeps what is
  stored in its registers.
\<close>

section \<open>A concrete network\<close>

definition plain_nic :: nic_dev where
  "plain_nic = \<lparr>on_write = (\<lambda>off v r. r(off := v)), on_cfg = (\<lambda>a v r. r(a := v)), passes = (\<lambda>r. r)\<rparr>"

definition rx_demo :: u32 where "rx_demo = 0x80400000"

definition net_mem :: "u8 list \<Rightarrow> mem" where
  "net_mem bs = mput (mput (\<lambda>_. 0) rx_demo bs) 0x80500000 (le32 0x600000)"

definition net_demo :: "u8 list \<Rightarrow> net_st" where
  "net_demo bs = kern_st.extend (kern_of \<lparr>held = [], mem = net_mem bs, kend = 0x80100000, use_lock = True, freelist = 0x80200000\<rparr>)
     (net_st.fields ((\<lambda>_. 0)(TDBAL := 0x500000)) 0xC0000000 [82, 84, 0, 18, 52, 86] [10, 0, 1, 10] 0 0 (\<lambda>_. 0)
        \<lparr>bus_num = 0, device_num = 0, function_num = 0, device_id = 0, vendor_id = 0, base_class = 0, sub_class = 0,
          interface = 0, revision_id = 0, bar0 = 0, bar1 = 0\<rparr> arp_table_init (- 1) 0 0 False)"

definition arp_req :: "u8 list" where
  "arp_req = [0, 1, 8, 0, 6, 4, 0, 1, 82, 84, 0, 1, 2, 3, 10, 0, 1, 2, 0, 0, 0, 0, 0, 0, 10, 0, 1, 10, 0, 0]"

lemma net_demo_sel [simp]:
  "held (net_demo bs) = []" "mem (net_demo bs) = net_mem bs" "kend (net_demo bs) = 0x80100000" "freelist (net_demo bs) = 0x80200000"
  "nic (net_demo bs) = (\<lambda>_. 0)(TDBAL := 0x500000)" "base_addr (net_demo bs) = 0xC0000000"
  "mac_addr (net_demo bs) = [82, 84, 0, 18, 52, 86]" "my_ip (net_demo bs) = [10, 0, 1, 10]" "send_id (net_demo bs) = 0"
  by (simp_all add: net_demo_def kern_st.defs net_st.defs)

lemma net_demo_pool:
  assumes "length bs \<le> 4096"
  shows "kpool (net_demo bs) [0x80200000]"
proof -
  have "mbytes (net_mem bs) 0x80200000 4 = [0, 0, 0, 0]"
    using assms by (simp add: net_mem_def rx_demo_def field_simps_pkt) (simp add: mbytes_def rd_def eval_nat_numeral upt_rec)
  then have "load32 (net_mem bs) 0x80200000 = 0" by (simp add: load32_mbytes of_le32_def)
  then show ?thesis by (simp add: kpool_def page_ok_def PGSIZE_def V2P_def KERNBASE_def PHYSTOP_def)
qed

lemma net_demo_tx:
  "tx_desc (net_demo bs) = 0x80500000" "tx_buf (net_demo bs) = 0x80600000"
  "n \<le> 4096 \<Longrightarrow> tx_ready (net_demo bs) n [0x80200000]"
proof -
  show d: "tx_desc (net_demo bs) = 0x80500000"
    by (simp add: tx_desc_def TDBAL_def TDT_def KERNBASE_def I8254_SEND_DESC_NUM_def)
  show b: "tx_buf (net_demo bs) = 0x80600000"
    unfolding tx_buf_def d by (simp add: net_mem_def load32_mbytes mbytes_mput_same KERNBASE_def)
  show "n \<le> 4096 \<Longrightarrow> tx_ready (net_demo bs) n [0x80200000]" by (simp add: tx_ready_def d b pkt_simps)
qed

lemma plain_nic_tail: "plain_tail plain_nic"
  by (simp add: plain_tail_def plain_nic_def)

lemma net_demo_nth:
  assumes "length bs \<le> 4096" "j < length bs"
  shows "net_mem bs (rx_demo + of_nat j) = bs ! j"
proof -
  have "mbytes (net_mem bs) rx_demo (length bs) = bs"
    unfolding net_mem_def using assms(1)
    by (subst mbytes_mput_apart) (simp_all add: rx_demo_def pkt_simps mbytes_mput_same)
  then show ?thesis using assms(2) by (metis nth_mbytes)
qed

lemma net_demo_byte: "length bs \<le> 4096 \<Longrightarrow> unat k < length bs \<Longrightarrow> net_mem bs (rx_demo + k) = bs ! unat k"
  using net_demo_nth [of bs "unat k"] by simp

lemma net_demo_bytes:
  assumes "length bs \<le> 4096" "unat k + n \<le> length bs"
  shows "mbytes (net_mem bs) (rx_demo + k) n = get_bytes (unat k) n bs"
proof (rule nth_equalityI)
  fix j assume "j < length (mbytes (net_mem bs) (rx_demo + k) n)"
  then show "mbytes (net_mem bs) (rx_demo + k) n ! j = get_bytes (unat k) n bs ! j"
    using net_demo_nth [of bs "unat k + j"] assms by (simp add: nth_get_bytes add.assoc)
qed (use assms in simp)

lemma net_demo_bytes_0: "length bs \<le> 4096 \<Longrightarrow> n \<le> length bs \<Longrightarrow> mbytes (net_mem bs) rx_demo n = take n bs"
  using net_demo_bytes [of bs 0 n] by (simp add: get_bytes_def)

lemmas net_demo_simps = net_demo_bytes net_demo_bytes_0 net_demo_byte

lemma net_demo_sep: "K \<le> 4096 \<Longrightarrow> buf_sep 0x80200000 rx_demo K"
  by (simp add: buf_sep_def rx_demo_def pkt_simps)

definition echo_req :: "u8 list" where
  "echo_req = [82, 84, 0, 18, 52, 86, 82, 84, 0, 1, 2, 3, 8, 0] @
     [0x45, 0, 0, 84, 0, 1, 0, 0, 64, 1, 0, 0, 10, 0, 1, 2, 10, 0, 1, 10] @
     [8, 0, 0, 0, 0, 7, 0, 1] @ replicate 56 42"

definition demo_host :: "u8 \<Rightarrow> arp_entry" where
  "demo_host b = \<lparr>ent_ip = [10, 0, 1, b], ent_mac = [82, 84, 0, 0, 0, b], ent_use = 1\<rparr>"

definition demo_arp :: "u8 \<Rightarrow> arp_pkt" where
  "demo_arp b = \<lparr>hrd_type = ARP_HARDWARE_TYPE, pro_type = ARP_PROTOCOL_TYPE, hrd_len = 6, pro_len = 4, arp_op = ARP_OPS_REPLY,
     arp_src_mac = [82, 84, 0, 0, 0, b], arp_src_ip = [10, 0, 1, b], arp_dst_mac = [], arp_dst_ip = []\<rparr>"

definition full_table :: "arp_entry list" where
  "full_table = map (\<lambda>i. demo_host (of_nat i)) [1..<65]"

section \<open>Properties\<close>

text \<open>
  C31: an ARP request for our address is answered. \<open>arp_proc\<close> returns \<open>ARP_CREATED_REPLY\<close>; the next
  transmit buffer holds an Ethernet frame to the sender's hardware address that carries an ARP reply
  from our hardware and protocol addresses to the sender's; its descriptor has the length of the
  frame, the tail register has moved to the next descriptor, and the page the reply was built in is
  back in the allocator's pool.
\<close>

theorem arp_request_answered:
  assumes "kpool s (x # xs)" "tx_ready s 44 (x # xs)" "plain_tail dv" "buf_sep x recv 30"
    and "length (mac_addr s) = 6" "length (my_ip s) = 4"
    and "req = arp_pkt_at (mem s) recv" "request_for (my_ip s) req"
  shows "\<exists>s'. arp_proc dv recv s = Inr (ARP_CREATED_REPLY, s') \<and> kpool s' (x # xs) \<and>
    nic s' = (nic s)(TDT := (nic s TDT + 1) mod I8254_SEND_DESC_NUM) \<and> get16 (mem s') (tx_desc s + 8) = 44 \<and>
    eth_pkt_at (mem s') (tx_buf s) = \<lparr>eth_dst_mac = arp_src_mac req, eth_src_mac = mac_addr s, eth_type = [8, 6]\<rparr> \<and>
    (let rep = arp_pkt_at (mem s') (tx_buf s + 14) in
       arp_op rep = ARP_OPS_REPLY \<and> arp_src_mac rep = mac_addr s \<and> arp_src_ip rep = my_ip s \<and>
       arp_dst_mac rep = arp_src_mac req \<and> take 4 (arp_dst_ip rep) = arp_src_ip req)"
proof -
  let ?s0 = "s\<lparr>freelist := load32 (mem s) x\<rparr>"
  obtain n s1 where c: "arp_reply_pkt_create recv x ?s0 = (n, s1)" by fastforce
  note fr = arp_reply_frame [OF assms(4) _ _ c]
  have len: "length (mac_addr ?s0) = 6" "length (my_ip ?s0) = 4" using assms by simp_all
  have n: "n = 44" by (rule fr(1) [OF len])
  have s1: "held s1 = held s" "kend s1 = kend s" "freelist s1 = load32 (mem s) x" "nic s1 = nic s" "base_addr s1 = base_addr s"
    by (subst fr(2) [OF len], simp)+
  obtain s2 s3 where s3: "i8254_send dv x 44 s1 = Inr (sint (44 :: u32), s2)" "kfree x s2 = Inr s3" "kpool s3 (x # xs)"
    "mbytes (mem s3) (tx_buf s) 44 = mbytes (mem s1) x 44" "get16 (mem s3) (tx_desc s + 8) = 44"
    "nic s3 = (nic s)(TDT := (nic s TDT + 1) mod I8254_SEND_DESC_NUM)"
    using built_page [of s x xs 44 dv s1] assms(1-3) s1 fr(9) [OF len] by auto
  have cmp: "memcmp_l (my_ip s) (arp_dst_ip req) 4 = 0"
    using assms(6-8) by (simp add: memcmp_l_take request_for_def arp_pkt_at_def)
  have "arp_proc dv recv s = Inr (ARP_CREATED_REPLY, s3)"
    using assms(7,8) cmp kalloc_kpool_Cons [OF assms(1)] page_ok_nonzero [of s x] assms(1) c n s3(1,2)
    by (auto simp: arp_proc_def request_for_def kalloc_deref_def kpool_def)
  moreover note fr(3-8) [OF len] arp_frame_cong [OF s3(4)]
  ultimately show ?thesis using s3(3,5,6) assms(7) by (auto simp: Let_def)
qed

theorem arp_request_answered_witness:
  "request_for (my_ip (net_demo arp_req)) (arp_pkt_at (mem (net_demo arp_req)) rx_demo) \<and>
   (\<exists>s'. arp_proc plain_nic rx_demo (net_demo arp_req) = Inr (ARP_CREATED_REPLY, s') \<and> kpool s' [0x80200000] \<and>
     arp_dst_mac (arp_pkt_at (mem s') 0x8060000E) = [82, 84, 0, 1, 2, 3])"
proof -
  have r: "request_for (my_ip (net_demo arp_req)) (arp_pkt_at (mem (net_demo arp_req)) rx_demo)"
    "arp_src_mac (arp_pkt_at (mem (net_demo arp_req)) rx_demo) = [82, 84, 0, 1, 2, 3]"
    by (simp_all add: request_for_def arp_pkt_at_def get16_def net_demo_simps arp_req_def get_bytes_def of_le16_def
        ARP_HARDWARE_TYPE_def ARP_PROTOCOL_TYPE_def ARP_OPS_REQUEST_def)
  show ?thesis
    using arp_request_answered [OF net_demo_pool net_demo_tx(3) plain_nic_tail net_demo_sep _ _ refl r(1)] r
    by (auto simp: arp_req_def net_demo_tx Let_def)
qed

text \<open>
  C30: an ICMP echo request is answered. \<open>icmp_proc\<close> hands the card a frame of 98 bytes to the sender's
  hardware address that carries an IPv4 packet from our address to the sender's and in it an echo
  reply with the identifier, the sequence number, the time stamp and the data of the request. Both
  the header checksum and the ICMP checksum verify: recomputed over the packet as sent, they give 0.
  The page the reply was built in is back in the pool, and the IPv4 identification has advanced.
\<close>

theorem icmp_echo_answered:
  assumes "kpool s (x # xs)" "tx_ready s 98 (x # xs)" "plain_tail dv" "buf_sep x recv 138"
    and "length (mac_addr s) = 6" "length (my_ip s) = 4"
    and "req = icmp_echo_pkt_at (mem s) (ip_payload (mem s) (recv + 14))" "icmp_type req = 8" "icmp_code req = 0"
  shows "\<exists>s'. icmp_proc dv recv s = Inr s' \<and> kpool s' (x # xs) \<and> send_id s' = send_id s + 1 \<and>
    nic s' = (nic s)(TDT := (nic s TDT + 1) mod I8254_SEND_DESC_NUM) \<and>
    eth_dst_mac (eth_pkt_at (mem s') (tx_buf s)) = eth_src_mac (eth_pkt_at (mem s) recv) \<and>
    (let ip = ipv4_pkt_at (mem s') (tx_buf s + 14); rep = icmp_echo_pkt_at (mem s') (tx_buf s + 34) in
       ip_src_ip ip = my_ip s \<and> ip_dst_ip ip = ip_src_ip (ipv4_pkt_at (mem s) (recv + 14)) \<and> protocol ip = 1 \<and>
       ipv4_chksum (rd (mem s') (tx_buf s + 14)) = 0 \<and>
       rep = req\<lparr>icmp_type := 0, icmp_chk_sum := icmp_chk_sum rep\<rparr> \<and> icmp_chksum (rd (mem s') (tx_buf s + 34)) = 0)"
proof -
  let ?s0 = "s\<lparr>freelist := load32 (mem s) x\<rparr>"
  obtain n s1 where c: "icmp_reply_pkt_create recv x ?s0 = (n, s1)" by fastforce
  have len: "length (mac_addr ?s0) = 6" "length (my_ip ?s0) = 4" using assms by simp_all
  note fr = icmp_reply_frame [OF assms(4) len c refl]
  have s1: "held s1 = held s" "kend s1 = kend s" "freelist s1 = load32 (mem s) x" "nic s1 = nic s" "base_addr s1 = base_addr s"
      "send_id s1 = send_id s + 1"
    by (subst fr(2), simp)+
  obtain s2 s3 where s3: "i8254_send dv x 98 s1 = Inr (sint (98 :: u32), s2)" "kfree x s2 = Inr s3" "kpool s3 (x # xs)"
    "mbytes (mem s3) (tx_buf s) 98 = mbytes (mem s1) x 98"
    "nic s3 = (nic s)(TDT := (nic s TDT + 1) mod I8254_SEND_DESC_NUM)" "send_id s3 = send_id s1"
    using built_page [of s x xs 98 dv s1] assms(1-3) s1 fr(8) by auto
  have run: "icmp_proc dv recv s = Inr s3"
    using assms(7-9) kalloc_kpool_Cons [OF assms(1)] page_ok_nonzero [of s x] assms(1) c fr(1) s3(1,2)
    by (auto simp: icmp_proc_def kalloc_deref_def kpool_def layout)
  have hd: "mbytes (mem s3) (tx_buf s) 34 = mbytes (mem s1) x 34" using mbytes_sub [OF s3(4), of 0 34] by simp
  show ?thesis
    using run s3(3,5,6) s1(6) headers_cong [OF hd] icmp_cong [OF s3(4)] fr(3-7) assms(7,9)
    by (auto simp: Let_def ipv4_pkt_at_def)
qed

theorem icmp_echo_answered_witness:
  "\<exists>s'. icmp_proc plain_nic rx_demo (net_demo echo_req) = Inr s' \<and> kpool s' [0x80200000] \<and>
     ip_dst_ip (ipv4_pkt_at (mem s') 0x8060000E) = [10, 0, 1, 2] \<and> icmp_chksum (rd (mem s') 0x80600022) = 0"
proof -
  have len: "length echo_req = 98" by (simp add: echo_req_def)
  have pay: "ip_payload (mem (net_demo echo_req)) (rx_demo + 14) = rx_demo + 34"
    by (simp add: ip_payload_def net_demo_byte len) (simp add: echo_req_def)
  have r: "icmp_type (icmp_echo_pkt_at (mem (net_demo echo_req)) (rx_demo + 34)) = 8"
    "icmp_code (icmp_echo_pkt_at (mem (net_demo echo_req)) (rx_demo + 34)) = 0"
    "ip_src_ip (ipv4_pkt_at (mem (net_demo echo_req)) (rx_demo + 14)) = [10, 0, 1, 2]"
    by (simp_all add: icmp_echo_pkt_at_def ipv4_pkt_at_def net_demo_byte net_demo_bytes len add.assoc)
      (simp_all add: echo_req_def get_bytes_def)
  show ?thesis
    using icmp_echo_answered [OF net_demo_pool [of echo_req] net_demo_tx(3) plain_nic_tail net_demo_sep _ _ refl, unfolded pay, OF _ _ _ _ _ r(1,2)] r(3)
    by (auto simp: len net_demo_tx Let_def)
qed

text \<open>
  C32: as long as the table has room, \<open>arp_table_update\<close> implements an update of the map from protocol
  to hardware addresses: afterwards the sender's address is bound to the sender's hardware address and
  every other binding is as before. A sender that has no address yet (0.0.0.0, an ARP probe) is the
  exception: the search takes an unused entry for its own, and the map does not change. The invariant
  of the table is kept.
\<close>

theorem arp_table_refines_map:
  assumes "arp_ok tbl" "length (arp_src_ip p) = 4"
    and "arp_map tbl (arp_src_ip p) \<noteq> None \<or> (\<exists>e\<in>set tbl. ent_use e = 0)"
  shows "arp_map (arp_table_set tbl p) =
      (if arp_src_ip p = [0, 0, 0, 0] then arp_map tbl else (arp_map tbl)(arp_src_ip p \<mapsto> arp_src_mac p)) \<and>
    arp_ok (arp_table_set tbl p)"
proof -
  let ?ip = "arp_src_ip p"
  have cmp: "memcmp_l (ent_ip e) ?ip 4 = 0 \<longleftrightarrow> ent_ip e = ?ip" if "e \<in> set tbl" for e
    using assms(1,2) that by (auto simp: arp_ok_def memcmp_l_ip)
  show ?thesis
  proof (cases "\<exists>e\<in>set tbl. ent_ip e = ?ip")
    case True
    then obtain as e bs where t: "tbl = as @ e # bs" "ent_ip e = ?ip" "\<forall>a\<in>set as. ent_ip a \<noteq> ?ip"
      using split_list_first_prop [OF True] by blast
    have use: "ent_use e = 0 \<longleftrightarrow> ?ip = [0, 0, 0, 0]" using assms(1) t by (auto simp: arp_ok_def)
    have "arp_table_search tbl ?ip = int (length as)"
      unfolding arp_table_search_def t(1) by (subst search_found) (use cmp t memcmp_l_ip [OF assms(2) assms(2)] in auto)
    then have set: "arp_table_set tbl p = as @ (e\<lparr>ent_mac := arp_src_mac p\<rparr>) # bs"
      using t by (simp add: arp_table_set_def)
    have "arp_map (as @ (e\<lparr>ent_mac := arp_src_mac p\<rparr>) # bs) = (arp_map tbl)(?ip \<mapsto> arp_src_mac p)" if "?ip \<noteq> [0, 0, 0, 0]"
      using arp_map_Cons_mid [of as "e\<lparr>ent_mac := arp_src_mac p\<rparr>" e bs] t use that by (auto simp: arp_map_def)
    moreover have "arp_map (as @ (e\<lparr>ent_mac := arp_src_mac p\<rparr>) # bs) = arp_map tbl" if "?ip = [0, 0, 0, 0]"
      using use that by (simp add: arp_map_def t(1))
    moreover have "arp_ok (as @ (e\<lparr>ent_mac := arp_src_mac p\<rparr>) # bs)"
      using assms(1) unfolding t(1) by (cases "ent_use e = 0") (simp_all add: arp_ok_def)
    ultimately show ?thesis unfolding set by presburger
  next
    case False
    then have "arp_map tbl ?ip = None" by (auto simp: arp_map_def map_of_eq_None_iff)
    then obtain as e bs where t: "tbl = as @ e # bs" "ent_use e = 0" "\<forall>a\<in>set as. ent_use a \<noteq> 0"
      using assms(3) split_list_first_prop [of tbl "\<lambda>e. ent_use e = 0"] by blast
    have ip: "?ip \<noteq> [0, 0, 0, 0]" using False assms(1) t(2) unfolding t(1) by (auto simp: arp_ok_def)
    have "arp_table_search tbl ?ip = - int (length as) - 1"
      using False cmp t by (simp only: t(1)) (rule search_free, auto)
    then have set: "arp_table_set tbl p = as @ (e\<lparr>ent_mac := arp_src_mac p, ent_ip := ?ip, ent_use := 1\<rparr>) # bs"
      using t(1) by (simp add: arp_table_set_def Let_def)
    have "arp_map (as @ (e\<lparr>ent_mac := arp_src_mac p, ent_ip := ?ip, ent_use := 1\<rparr>) # bs) = (arp_map tbl)(?ip \<mapsto> arp_src_mac p)"
      using arp_map_Cons_mid [of as "e\<lparr>ent_mac := arp_src_mac p, ent_ip := ?ip, ent_use := 1\<rparr>" e bs] t False
      by (auto simp: arp_map_def)
    moreover have "arp_ok (as @ (e\<lparr>ent_mac := arp_src_mac p, ent_ip := ?ip, ent_use := 1\<rparr>) # bs)"
      using assms(1,2) ip t(2) False unfolding t(1) by (auto simp: arp_ok_def)
    ultimately show ?thesis unfolding set using ip by simp
  qed
qed

theorem arp_table_refines_map_witness:
  "arp_ok arp_table_init \<and> arp_map (arp_table_set arp_table_init (demo_arp 2)) [10, 0, 1, 2] = Some [82, 84, 0, 0, 0, 2]"
proof -
  have "arp_ok arp_table_init" by (simp add: arp_ok_def arp_table_init_def ARP_TABLE_MAX_def)
  moreover have "\<exists>e\<in>set arp_table_init. ent_use e = 0" by (simp add: arp_table_init_def ARP_TABLE_MAX_def)
  ultimately show ?thesis using arp_table_refines_map [of arp_table_init "demo_arp 2"] by (simp add: demo_arp_def)
qed

text \<open>
  C33: a full table that does not know the sender is corrupted: the search answers 0, which the update
  takes for the index of the sender's entry, so the host in entry 0 is bound to the sender's hardware
  address and the sender is not entered.
\<close>

theorem arp_full_table_corrupts:
  assumes "arp_ok tbl" "\<forall>e\<in>set tbl. ent_use e \<noteq> 0" "length (arp_src_ip p) = 4" "arp_map tbl (arp_src_ip p) = None"
  shows "arp_map (arp_table_set tbl p) = (arp_map tbl)(ent_ip (tbl ! 0) \<mapsto> arp_src_mac p)"
proof -
  let ?ip = "arp_src_ip p"
  obtain e es where t: "tbl = e # es" using assms(1) by (cases tbl) (auto simp: arp_ok_def ARP_TABLE_MAX_def)
  have "ent_ip f \<noteq> ?ip" if "f \<in> set tbl" for f
    using assms(2,4) that by (force simp: arp_map_def map_of_eq_None_iff)
  then have "memcmp_l (ent_ip f) ?ip 4 \<noteq> 0" if "f \<in> set tbl" for f
    using assms(1,3) that by (auto simp: arp_ok_def memcmp_l_ip)
  then have "arp_table_search tbl ?ip = 0"
    using search_skip [of tbl ?ip 1 "[]" 0] assms(2) by (simp add: arp_table_search_def)
  then have "arp_table_set tbl p = (e\<lparr>ent_mac := arp_src_mac p\<rparr>) # es" by (simp add: arp_table_set_def t)
  then show ?thesis
    using arp_map_Cons_mid [of "[]" "e\<lparr>ent_mac := arp_src_mac p\<rparr>" e es] assms(2) t by (auto simp: arp_map_def)
qed

theorem arp_full_table_corrupts_witness:
  "arp_map full_table [10, 0, 1, 1] = Some [82, 84, 0, 0, 0, 1] \<and>
   arp_map (arp_table_set full_table (demo_arp 99)) [10, 0, 1, 1] = Some [82, 84, 0, 0, 0, 99] \<and>
   arp_map (arp_table_set full_table (demo_arp 99)) [10, 0, 1, 99] = None"
proof -
  have ok: "arp_ok full_table" "\<forall>e\<in>set full_table. ent_use e \<noteq> 0" "arp_map full_table [10, 0, 1, 99] = None"
    "arp_map full_table [10, 0, 1, 1] = Some [82, 84, 0, 0, 0, 1]" "ent_ip (full_table ! 0) = [10, 0, 1, 1]"
    by code_simp+
  show ?thesis using arp_full_table_corrupts [OF ok(1,2), of "demo_arp 99"] ok by (simp add: demo_arp_def)
qed

text \<open>
  C34: the send ring is overrun. With 255 frames waiting, one less than there are descriptors, the
  test for a free descriptor still passes; the next frame is accepted and the tail meets the head,
  which to the card is an empty ring.
\<close>

theorem i8254_send_overruns_ring:
  assumes "tx_ready s (unat len) []" "plain_tail dv" "unat pkt + unat len < 2 ^ 32"
    and "nic s TDH = (nic s TDT + 1) mod I8254_SEND_DESC_NUM"
  shows "\<exists>s'. i8254_send dv pkt len s = Inr (sint len, s') \<and> nic s' TDT = nic s' TDH"
proof -
  obtain s' where "i8254_send dv pkt len s = Inr (sint len, s')"
    "s' = s\<lparr>mem := mem s', nic := (nic s)(TDT := (nic s TDT + 1) mod I8254_SEND_DESC_NUM)\<rparr>"
    using i8254_send_spec [OF assms(1-3)] by blast
  moreover have "nic s' TDT = nic s' TDH"
    by (subst calculation(2), subst (2) calculation(2)) (use assms(4) in \<open>simp add: TDT_def TDH_def\<close>)
  ultimately show ?thesis by blast
qed

theorem i8254_send_overruns_ring_witness:
  "\<exists>s'. i8254_send plain_nic rx_demo 42 ((net_demo [])\<lparr>nic := (\<lambda>_. 0)(TDBAL := 0x500000, TDH := 1)\<rparr>) = Inr (42, s') \<and>
     nic s' TDT = nic s' TDH"
proof -
  let ?s = "(net_demo [])\<lparr>nic := (\<lambda>_. 0)(TDBAL := 0x500000, TDH := 1)\<rparr>"
  have d: "tx_desc ?s = tx_desc (net_demo [])" by (simp add: tx_desc_def TDBAL_def TDT_def TDH_def)
  then have "tx_buf ?s = tx_buf (net_demo [])" by (simp add: tx_buf_def)
  with d have "tx_ready ?s 42 []" using net_demo_tx(3) [of 42 "[]"] by (simp add: tx_ready_def)
  then show ?thesis using i8254_send_overruns_ring [of ?s 42 plain_nic rx_demo] plain_nic_tail
    by (simp add: rx_demo_def TDH_def TDT_def TDBAL_def I8254_SEND_DESC_NUM_def)
qed

text \<open>
  C36: on a machine whose PCI functions are absent or other devices than the 82540EM network card, the
  boot sequence \<open>pci_init(); arp_scan();\<close> of \<open>main\<close> ends in a fault: nothing has set \<open>base_addr\<close> when
  the first ARP request is sent. (The console must be able to print what the scan finds, and a page
  must be free for the request.)
\<close>

theorem boot_without_nic_faults:
  assumes "\<forall>(i, j, k) \<in> set pci_functions. other_card (pci_cfg s (pci_config_addr i j k 0))"
    and "cons_ready s" "LK_cons \<notin> set (held s)" "LK_kmem \<notin> set (held s)" "freelist s \<noteq> 0" "base_addr s = 0"
  shows "bind_r (pci_init dv fuel s) (arp_scan dv) = Inl (Faults ''NIC registers'')"
proof -
  obtain s1 where s1: "pci_scan dv fuel pci_functions s = Inr s1" "scan_frame s s1"
    using pci_scan_other [OF assms(2,3,1)] by blast
  then have f: "freelist s1 \<noteq> 0" "LK_kmem \<notin> set (held s1)" "base_addr s1 = 0"
    using assms(4-6) by (simp_all add: scan_frame_def)
  obtain m where "kalloc_deref s1 = Inr (freelist s1, s1\<lparr>freelist := m\<rparr>)"
    using f by (auto simp: kalloc_deref_def kalloc_def lock_kmem_def unlock_kmem_def Let_def)
  then show ?thesis using f(3)
    by (simp add: s1(1) pci_init_def arp_scan_def upt_conv_Cons arp_broadcast_def Let_def i8254_send_def nic_rd_def)
qed

text \<open>The only device is a host bridge (8086:1237).\<close>

theorem boot_without_nic_faults_witness:
  "bind_r (pci_init plain_nic 0 ((net_demo [])\<lparr>base_addr := 0, pci_cfg := (\<lambda>_. 0xFFFFFFFF)(0x80000000 := 0x12378086)\<rparr>)) (arp_scan plain_nic) =
     Inl (Faults ''NIC registers'')"
proof (rule boot_without_nic_faults)
  show "cons_ready ((net_demo [])\<lparr>base_addr := 0, pci_cfg := (\<lambda>_. 0xFFFFFFFF)(0x80000000 := 0x12378086)\<rparr>)"
    by (simp add: cons_ready_def net_demo_def kern_of_def kern_st.defs net_st.defs file_st.defs file_demo_def cons_st.defs cons_demo_def)
qed (auto simp: other_card_def I8254_DEVICE_ID_def I8254_VENDOR_ID_def)

text \<open>
  C35: the TCP checksum does not depend on the address of the peer: the pseudo header takes its
  destination from the source field of the packet being sent. (The constant 8 that \<open>tcp_pkt_create\<close>
  adds makes up for the difference between our address and 10.0.1.2 only.)
\<close>

theorem tcp_chksum_ignores_peer:
  "tcp_chksum own (mput m (a + 16) [i, j, k, l]) a = tcp_chksum own m a"
proof -
  define ip where "ip = [i, j, k, l]"
  have len: "length ip = 4" by (simp add: ip_def)
  let ?m = "mput m (a + 16) ip"
  have hdr: "total_len (ipv4_pkt_at ?m a) = total_len (ipv4_pkt_at m a)" "ip_src_ip (ipv4_pkt_at ?m a) = ip_src_ip (ipv4_pkt_at m a)"
    using len by (simp_all add: ipv4_pkt_at_def field_simps_pkt)
  have "rd ?m (a + 20) k = rd m (a + 20) k" if "k < 2 ^ 17" for k
  proof -
    have "apart (a + 16) (length ip) (a + (20 + of_nat k)) 1"
      using len that by (simp add: pkt_simps unat_word_ariths unat_of_nat)
    then show ?thesis using byte_mput_apart len by (fastforce simp: rd_def add.assoc)
  qed
  then have "tcp_sum_from (rd ?m (a + 20)) 0 (unat (w :: u16) div 2) c = tcp_sum_from (rd m (a + 20)) 0 (unat w div 2) c" for w c
    using unat16_lt [of w] by (intro tcp_sum_from_cong) auto
  then show ?thesis by (simp add: tcp_chksum_def Let_def hdr flip: ip_def)
qed

text \<open>
  \<open>H2N_uint\<close> masks nibbles where it should mask bytes: the receiver's conversion gives back a
  sequence number only if it is below 16. (The 16-bit conversions are inverse to each other.)
\<close>

lemma H2N_uint_only_small:
  "N2H_uint (H2N_uint v) = v \<longleftrightarrow> v < 16"
proof -
  have b: "bit (N2H_uint (H2N_uint v)) n \<longleftrightarrow> n < 4 \<and> bit v n \<or> 20 \<le> n \<and> n < 28 \<and> bit v (n - 16)" if "n < 32" for n
    using that by (auto simp: bit_N2H_uint bit_H2N_uint)
  have "v < 16 \<longleftrightarrow> (\<forall>n. 4 \<le> n \<longrightarrow> n < 32 \<longrightarrow> \<not> bit v n)"
  proof -
    have "v < 16 \<longleftrightarrow> take_bit 4 v = v"
      by (simp add: word_unat_eq_iff unsigned_take_bit_eq take_bit_nat_eq_self_iff word_less_nat_alt)
    also have "\<dots> \<longleftrightarrow> (\<forall>n. 4 \<le> n \<longrightarrow> n < 32 \<longrightarrow> \<not> bit v n)"
      by (auto simp: bit_eq_iff bit_take_bit_iff) (metis not_le bit_imp_le_length)+
    finally show ?thesis .
  qed
  moreover have "N2H_uint (H2N_uint v) = v \<longleftrightarrow> (\<forall>n. 4 \<le> n \<longrightarrow> n < 32 \<longrightarrow> \<not> bit v n)"
  proof
    assume e: "N2H_uint (H2N_uint v) = v"
    have low: "\<not> bit v n" if "4 \<le> n" "n < 12" for n using b [of n] e that by auto
    show "\<forall>n. 4 \<le> n \<longrightarrow> n < 32 \<longrightarrow> \<not> bit v n"
    proof (intro allI impI)
      fix n :: nat assume n: "4 \<le> n" "n < 32"
      show "\<not> bit v n" using b [of n] e n low [of "n - 16"] by auto
    qed
  next
    assume z: "\<forall>n. 4 \<le> n \<longrightarrow> n < 32 \<longrightarrow> \<not> bit v n"
    show "N2H_uint (H2N_uint v) = v"
    proof (rule bit_word_eqI)
      fix n assume "n < LENGTH(32)"
      then show "bit (N2H_uint (H2N_uint v)) n = bit v n" using b [of n] z by (cases "n < 4") auto
    qed
  qed
  ultimately show ?thesis by simp
qed

text \<open>
  The loop that gives the send descriptors their buffers runs over half of them and stores to a
  descriptor and its neighbour, so descriptors 129 to 255 keep whatever the freshly allocated page
  held as their buffer address.
\<close>

lemma send_descriptors_uninitialised:
  assumes "kpool s xs" "page_ok s base" "base \<notin> set xs" "128 \<le> length xs" "129 \<le> i" "i < 256"
  shows "\<exists>s'. desc_buffers base [0..<128] s = Inr s' \<and>
    load32 (mem s') (base + 16 * of_nat i) = load32 (mem s) (base + 16 * of_nat i)"
proof -
  obtain s' where s': "desc_buffers base [0..<128] s = Inr s'" "\<And>a. 2052 \<le> unat (a - base) \<Longrightarrow> mem s' a = mem s a"
    using desc_buffers_frame [OF assms(1-3), of 0 128] assms(4) by auto
  have "unat (16 * of_nat i + of_nat j :: u32) = 16 * i + j" if "j < 4" for j
    using assms(6) that by (simp add: unat_word_ariths unat_of_nat)
  then have "mbytes (mem s') (base + 16 * of_nat i) 4 = mbytes (mem s) (base + 16 * of_nat i) 4"
    using assms(5) by (intro mbytes_cong s'(2)) (simp add: add.assoc)
  then show ?thesis using s'(1) by (auto simp: load32_mbytes)
qed

end
