(* ===== verification/User_Lib.thy ===== *)
theory User_Lib
  imports Console
begin

text \<open>
  \<open>xv6/ulib.c\<close> and \<open>xv6/printf.c\<close>, the library of the user programs.

  A C string argument is the list of its bytes before the NUL. What a program reads from a
  descriptor is a list of chunks, one per \<open>read\<close> the kernel answers (a chunk longer than the request
  is answered in parts, no chunk left is end of file); what it prints is a list of bytes. The
  formatted output reuses the argument type of the kernel's \<open>cprintf\<close>.
\<close>

section \<open>Strings\<close>

fun strcpy_from :: "mem \<Rightarrow> u32 \<Rightarrow> u8 list \<Rightarrow> mem" where
  "strcpy_from m s [] = m(s := 0)"
| "strcpy_from m s (c # t) = strcpy_from (m(s := c)) (s + 1) t"

fun strcmp :: "u8 list \<Rightarrow> u8 list \<Rightarrow> int" where
  "strcmp [] [] = 0"
| "strcmp [] (d # q) = 0 - uint d"
| "strcmp (c # p) [] = uint c"
| "strcmp (c # p) (d # q) = (if c = d then strcmp p q else uint c - uint d)"

text \<open>The rest of the string from the first occurrence on; \<open>None\<close> is the null pointer.\<close>

fun strchr :: "u8 list \<Rightarrow> u8 \<Rightarrow> u8 list option" where
  "strchr [] c = None"
| "strchr (x # s) c = (if x = c then Some (x # s) else strchr s c)"

text \<open>\<open>atoi\<close> computes in 32-bit arithmetic.\<close>

fun atoi_from :: "u8 list \<Rightarrow> u32 \<Rightarrow> u32" where
  "atoi_from [] n = n"
| "atoi_from (c # s) n = (if 48 \<le> c \<and> c \<le> 57 then atoi_from s (n * 10 + ucast c - 48) else n)"

definition atoi :: "u8 list \<Rightarrow> int" where
  "atoi s = sint (atoi_from s 0)"

fun memmove_user :: "mem \<Rightarrow> u32 \<Rightarrow> u32 \<Rightarrow> nat \<Rightarrow> mem" where
  "memmove_user m dst src 0 = m"
| "memmove_user m dst src (Suc n) = memmove_user (m(dst := m src)) (dst + 1) (src + 1) n"

section \<open>Input\<close>

fun uread :: "nat \<Rightarrow> u8 list list \<Rightarrow> u8 list \<times> u8 list list" where
  "uread n [] = ([], [])"
| "uread n (c # cs) = (if length c \<le> n then (c, cs) else (take n c, drop n c # cs))"

fun gets_from :: "nat \<Rightarrow> u8 list list \<Rightarrow> u8 list \<times> u8 list list" where
  "gets_from 0 inp = ([], inp)"
| "gets_from (Suc n) inp =
     (case uread 1 inp of
        ([], inp) \<Rightarrow> ([], inp)
      | (c # _, inp) \<Rightarrow>
          if c = 10 \<or> c = 13 then ([c], inp)
          else let (bs, inp) = gets_from n inp in (c # bs, inp))"

text \<open>The bytes \<open>gets(buf, nbuf)\<close> stores before the NUL, for \<open>nbuf > 0\<close>.\<close>

definition gets :: "nat \<Rightarrow> u8 list list \<Rightarrow> u8 list \<times> u8 list list" where
  "gets nbuf inp = gets_from (nbuf - 1) inp"

section \<open>Formatted output\<close>

definition udigit :: "nat \<Rightarrow> u8" where
  "udigit d = of_nat (if d < 10 then 48 + d else 55 + d)"

function udigits :: "nat \<Rightarrow> nat \<Rightarrow> u8 list" where
  "udigits base x = udigit (x mod base) # (if x div base \<noteq> 0 \<and> 1 < base then udigits base (x div base) else [])"
  by pat_completeness auto
termination
proof (relation "measure (\<lambda>(b, x). x)")
  fix base x :: nat
  assume *: "x div base \<noteq> 0 \<and> 1 < base"
  then have "0 < x" by (metis div_0 gr0I)
  then show "((base, x div base), base, x) \<in> measure (\<lambda>(b, x). x)" using * by simp
qed simp

declare udigits.simps [simp del]

definition uprintint :: "u32 \<Rightarrow> nat \<Rightarrow> bool \<Rightarrow> u8 list" where
  "uprintint xx base sg =
     (let neg = (sg \<and> sint xx < 0); x = (if neg then - xx else xx) in
      rev (udigits base (unat x) @ (if neg then [45] else [])))"

text \<open>\<open>pct\<close> (\<open>state\<close> in the source) is whether the last character was an unfinished \<open>%\<close>.\<close>

fun uprintf :: "u8 list \<Rightarrow> bool \<Rightarrow> parg list \<Rightarrow> u8 list res" where
  "uprintf [] pct args = Inr []"
| "uprintf (c # fmt) False args =
     (if c = 37 then uprintf fmt True args
      else bind_r (uprintf fmt False args) (\<lambda>cs. Inr (c # cs)))"
| "uprintf (c # fmt) True args =
     (if c = 100 \<or> c = 120 \<or> c = 112 \<or> c = 115 \<or> c = 99 then
        (case args of [] \<Rightarrow> Inl (Faults ''printf argument'') | a # args \<Rightarrow>
         bind_r (if c = 100 then bind_r (arg_word a) (\<lambda>w. Inr (uprintint w 10 True))
                 else if c = 120 \<or> c = 112 then bind_r (arg_word a) (\<lambda>w. Inr (uprintint w 16 False))
                 else if c = 115 then arg_str a
                 else bind_r (arg_word a) (\<lambda>w. Inr [ucast w])) (\<lambda>out.
         bind_r (uprintf fmt False args) (\<lambda>cs. Inr (out @ cs))))
      else bind_r (uprintf fmt False args) (\<lambda>cs. Inr ((if c = 37 then [c] else [37, c]) @ cs)))"

text \<open>
  One \<open>printf(fd, fmt, ...)\<close> of a program. What a program writes is a list of pairs of a descriptor and
  bytes, in order; \<open>putc\<close> writes them one by one.
\<close>

type_synonym uout = "(nat \<times> u8 list) list"

definition cstr :: "string \<Rightarrow> u8 list" where
  "cstr cs = map of_char cs"

definition say :: "nat \<Rightarrow> string \<Rightarrow> parg list \<Rightarrow> uout res" where
  "say fd fmt args = bind_r (uprintf (cstr fmt) False args) (\<lambda>bs. Inr [(fd, bs)])"

definition out_of :: "nat \<Rightarrow> uout \<Rightarrow> u8 list" where
  "out_of fd out = concat (map snd (filter (\<lambda>w. fst w = fd) out))"

section \<open>Lemmas\<close>

lemma strcmp_eq_0: "strcmp p q = 0 \<longleftrightarrow> p = q" if "0 \<notin> set p" "0 \<notin> set q"
  using that by (induction p q rule: strcmp.induct) (auto simp: uint_0_iff)

lemma strchr_Some: "strchr s c = Some r \<longleftrightarrow> (\<exists>pre post. s = pre @ c # post \<and> c \<notin> set pre \<and> r = c # post)"
proof (induction s)
  case (Cons x s)
  show ?case
  proof (cases "x = c")
    case False
    then show ?thesis using Cons by (auto simp: Cons_eq_append_conv)
  qed (auto simp: Cons_eq_append_conv)
qed simp

lemma strchr_None: "strchr s c = None \<longleftrightarrow> c \<notin> set s"
  by (induction s) auto

lemma uread_append: "uread n inp = (bs, inp') \<Longrightarrow> bs @ concat inp' = concat inp \<and> length bs \<le> n"
  by (cases inp) (auto split: if_splits simp: append_assoc [symmetric] simp del: append_assoc)

lemma uread_shorter: "uread n inp = (bs, inp') \<Longrightarrow> bs \<noteq> [] \<Longrightarrow> length (concat inp') < length (concat inp)"
  by (metis append_Nil2 append_self_conv2 length_append length_greater_0_conv less_add_same_cancel2 uread_append)

lemma uread_nonempty: "uread n inp = (bs, inp') \<Longrightarrow> [] \<notin> set inp \<Longrightarrow> [] \<notin> set inp'"
  by (cases inp) (auto split: if_splits)

end
