(* ===== verification/User_Progs.thy ===== *)
theory User_Progs
  imports User_Lib Fs
begin

text \<open>
  The small programs of \<open>xv6/\<close>: \<open>cat\<close>, \<open>echo\<close>, \<open>wc\<close>, \<open>kill\<close>, \<open>ln\<close>, \<open>mkdir\<close>, \<open>rm\<close>, \<open>ls\<close> and \<open>hello\<close>.

  A program is a function of its arguments (without \<open>argv[0]\<close>), of the files \<open>open\<close> finds and of the
  input of descriptor 0; system calls that change the world are parameters that act on a state
  \<open>'w\<close>. The result is what the program writes, and the state where it changes it.
\<close>

type_synonym files = "u8 list \<Rightarrow> u8 list list option"

definition nl :: string where "nl = [CHR 0x0A]"

section \<open>cat, echo, hello\<close>

text \<open>\<open>writes n\<close> is what \<open>write(1, buf, n)\<close> returns.\<close>

function cat :: "(nat \<Rightarrow> int) \<Rightarrow> u8 list list \<Rightarrow> uout \<times> bool" where
  "cat writes inp =
     (let (b, inp) = uread 512 inp in
      if b = [] then ([], True)
      else if writes (length b) \<noteq> int (length b) then ([(1, b), (1, cstr (''cat: write error'' @ nl))], False)
      else let (out, ok) = cat writes inp in ((1, b) # out, ok))"
  by pat_completeness auto
termination
proof (relation "measure (\<lambda>(w, inp). length (concat inp))")
  fix writes :: "nat \<Rightarrow> int" and inp x b inp'
  assume "x = uread 512 inp" "(b, inp') = x" "b \<noteq> []"
  then have "length (concat inp') < length (concat inp)" using uread_shorter by metis
  then show "((writes, inp'), writes, inp) \<in> measure (\<lambda>(w, inp). length (concat inp))" by simp
qed simp

declare cat.simps [simp del]

fun cat_files :: "(nat \<Rightarrow> int) \<Rightarrow> files \<Rightarrow> u8 list list \<Rightarrow> uout res" where
  "cat_files writes opens [] = Inr []"
| "cat_files writes opens (f # fs) =
     (case opens f of
        None \<Rightarrow> say 1 (''cat: cannot open %s'' @ nl) [Str (Some f)]
      | Some inp \<Rightarrow>
          let (out, ok) = cat writes inp in
          if ok then bind_r (cat_files writes opens fs) (\<lambda>out'. Inr (out @ out')) else Inr out)"

definition cat_main :: "(nat \<Rightarrow> int) \<Rightarrow> files \<Rightarrow> u8 list list \<Rightarrow> u8 list list \<Rightarrow> uout res" where
  "cat_main writes opens stdin args =
     (if args = [] then Inr (fst (cat writes stdin)) else cat_files writes opens args)"

fun echo_main :: "u8 list list \<Rightarrow> uout res" where
  "echo_main [] = Inr []"
| "echo_main (a # args) =
     bind_r (say 1 ''%s%s'' [Str (Some a), Str (Some (cstr (if args \<noteq> [] then '' '' else nl)))]) (\<lambda>out.
     bind_r (echo_main args) (\<lambda>out'. Inr (out @ out')))"

definition hello_main :: "uout res" where
  "hello_main =
     bind_r (say 1 (''Hello world!'' @ nl) []) (\<lambda>out.
     bind_r (say 1 (''My student # is 202001567'' @ nl) []) (\<lambda>out'. Inr (out @ out')))"

section \<open>wc\<close>

record wc_st =
  wc_l :: u32
  wc_w :: u32
  wc_c :: u32
  inword :: bool

definition wc_space :: "u8 \<Rightarrow> bool" where
  "wc_space b \<longleftrightarrow> strchr [32, 13, 9, 10, 11] b \<noteq> None"

definition wc_byte :: "u8 \<Rightarrow> wc_st \<Rightarrow> wc_st" where
  "wc_byte b t =
     (let t = t\<lparr>wc_c := wc_c t + 1\<rparr>;
          t = (if b = 10 then t\<lparr>wc_l := wc_l t + 1\<rparr> else t) in
      if wc_space b then t\<lparr>inword := False\<rparr>
      else if \<not> inword t then t\<lparr>wc_w := wc_w t + 1, inword := True\<rparr>
      else t)"

function wc_loop :: "u8 list list \<Rightarrow> wc_st \<Rightarrow> wc_st" where
  "wc_loop inp t =
     (let (b, inp) = uread 512 inp in
      if b = [] then t else wc_loop inp (fold wc_byte b t))"
  by pat_completeness auto
termination
proof (relation "measure (\<lambda>(inp, t). length (concat inp))")
  fix inp x b inp' and t :: wc_st
  assume "x = uread 512 inp" "(b, inp') = x" "b \<noteq> []"
  then have "length (concat inp') < length (concat inp)" using uread_shorter by metis
  then show "((inp', fold wc_byte b t), inp, t) \<in> measure (\<lambda>(inp, t). length (concat inp))" by simp
qed simp

declare wc_loop.simps [simp del]

definition wc :: "u8 list list \<Rightarrow> u8 list \<Rightarrow> uout res" where
  "wc inp name =
     (let t = wc_loop inp \<lparr>wc_l = 0, wc_w = 0, wc_c = 0, inword = False\<rparr> in
      say 1 (''%d %d %d %s'' @ nl) [Word (wc_l t), Word (wc_w t), Word (wc_c t), Str (Some name)])"

fun wc_files :: "files \<Rightarrow> u8 list list \<Rightarrow> uout res" where
  "wc_files opens [] = Inr []"
| "wc_files opens (f # fs) =
     (case opens f of
        None \<Rightarrow> say 1 (''wc: cannot open %s'' @ nl) [Str (Some f)]
      | Some inp \<Rightarrow> bind_r (wc inp f) (\<lambda>out. bind_r (wc_files opens fs) (\<lambda>out'. Inr (out @ out'))))"

definition wc_main :: "files \<Rightarrow> u8 list list \<Rightarrow> u8 list list \<Rightarrow> uout res" where
  "wc_main opens stdin args = (if args = [] then wc stdin [] else wc_files opens args)"

section \<open>kill, ln, mkdir, rm\<close>

fun kill_loop :: "(int \<Rightarrow> 'w \<Rightarrow> 'w) \<Rightarrow> u8 list list \<Rightarrow> 'w \<Rightarrow> 'w" where
  "kill_loop do_kill [] w = w"
| "kill_loop do_kill (a # args) w = kill_loop do_kill args (do_kill (atoi a) w)"

definition kill_main :: "(int \<Rightarrow> 'w \<Rightarrow> 'w) \<Rightarrow> u8 list list \<Rightarrow> 'w \<Rightarrow> (uout \<times> 'w) res" where
  "kill_main do_kill args w =
     (if args = [] then bind_r (say 2 (''usage: kill pid...'' @ nl) []) (\<lambda>out. Inr (out, w))
      else Inr ([], kill_loop do_kill args w))"

definition ln_main :: "(u8 list \<Rightarrow> u8 list \<Rightarrow> 'w \<Rightarrow> int \<times> 'w) \<Rightarrow> u8 list list \<Rightarrow> 'w \<Rightarrow> (uout \<times> 'w) res" where
  "ln_main do_link args w =
     (case args of
        [old, new] \<Rightarrow>
          let (r, w) = do_link old new w in
          if r < 0 then bind_r (say 2 (''link %s %s: failed'' @ nl) [Str (Some old), Str (Some new)]) (\<lambda>out. Inr (out, w))
          else Inr ([], w)
      | _ \<Rightarrow> bind_r (say 2 (''Usage: ln old new'' @ nl) []) (\<lambda>out. Inr (out, w)))"

text \<open>The loop of \<open>mkdir\<close> and of \<open>rm\<close>: the first failure is reported and ends it.\<close>

fun mkdir_loop :: "(u8 list \<Rightarrow> 'w \<Rightarrow> int \<times> 'w) \<Rightarrow> u8 list list \<Rightarrow> 'w \<Rightarrow> (uout \<times> 'w) res" where
  "mkdir_loop do_mkdir [] w = Inr ([], w)"
| "mkdir_loop do_mkdir (a # args) w =
     (let (r, w) = do_mkdir a w in
      if r < 0 then bind_r (say 2 (''mkdir: %s failed to create'' @ nl) [Str (Some a)]) (\<lambda>out. Inr (out, w))
      else mkdir_loop do_mkdir args w)"

definition mkdir_main :: "(u8 list \<Rightarrow> 'w \<Rightarrow> int \<times> 'w) \<Rightarrow> u8 list list \<Rightarrow> 'w \<Rightarrow> (uout \<times> 'w) res" where
  "mkdir_main do_mkdir args w =
     (if args = [] then bind_r (say 2 (''Usage: mkdir files...'' @ nl) []) (\<lambda>out. Inr (out, w))
      else mkdir_loop do_mkdir args w)"

fun rm_loop :: "(u8 list \<Rightarrow> 'w \<Rightarrow> int \<times> 'w) \<Rightarrow> u8 list list \<Rightarrow> 'w \<Rightarrow> (uout \<times> 'w) res" where
  "rm_loop do_unlink [] w = Inr ([], w)"
| "rm_loop do_unlink (a # args) w =
     (let (r, w) = do_unlink a w in
      if r < 0 then bind_r (say 2 (''rm: %s failed to delete'' @ nl) [Str (Some a)]) (\<lambda>out. Inr (out, w))
      else rm_loop do_unlink args w)"

definition rm_main :: "(u8 list \<Rightarrow> 'w \<Rightarrow> int \<times> 'w) \<Rightarrow> u8 list list \<Rightarrow> 'w \<Rightarrow> (uout \<times> 'w) res" where
  "rm_main do_unlink args w =
     (if args = [] then bind_r (say 2 (''Usage: rm files...'' @ nl) []) (\<lambda>out. Inr (out, w))
      else rm_loop do_unlink args w)"

section \<open>ls\<close>

text \<open>
  \<open>opens\<close> gives for a path what \<open>fstat\<close> answers on the descriptor (\<open>None\<close> is an error) and what reads of
  the descriptor return.
\<close>

record ustat =
  us_type :: u16
  us_ino :: u32
  us_size :: u32

type_synonym nodes = "u8 list \<Rightarrow> (ustat option \<times> u8 list list) option"

definition ustat_of :: "nodes \<Rightarrow> u8 list \<Rightarrow> ustat option" where
  "ustat_of opens path = (case opens path of None \<Rightarrow> None | Some (st, _) \<Rightarrow> st)"

definition fmtname :: "u8 list \<Rightarrow> u8 list" where
  "fmtname path =
     (let p = rev (takeWhile (\<lambda>c. c \<noteq> 47) (rev path)) in
      if length p \<ge> DIRSIZ then p else p @ replicate (DIRSIZ - length p) 32)"

definition ls_line :: "u8 list \<Rightarrow> ustat \<Rightarrow> uout res" where
  "ls_line path st =
     say 1 (''%s %d %d %d'' @ nl) [Str (Some (fmtname path)), Word (scast (us_type st)), Word (us_ino st), Word (us_size st)]"

text \<open>One directory entry: nothing for a free one, else the line of the file it names.\<close>

definition ls_entry :: "nodes \<Rightarrow> u8 list \<Rightarrow> u8 list \<Rightarrow> uout res" where
  "ls_entry opens path de =
     (if de ! 0 = 0 \<and> de ! 1 = 0 then Inr []
      else
        let buf = path @ [47] @ takeWhile (\<lambda>c. c \<noteq> 0) (take DIRSIZ (drop 2 de)) in
        case ustat_of opens buf of
          None \<Rightarrow> say 1 (''ls: cannot stat %s'' @ nl) [Str (Some buf)]
        | Some st \<Rightarrow> ls_line buf st)"

function ls_dir :: "nodes \<Rightarrow> u8 list \<Rightarrow> u8 list list \<Rightarrow> uout res" where
  "ls_dir opens path inp =
     (let (de, inp) = uread 16 inp in
      if length de \<noteq> 16 then Inr []
      else bind_r (ls_entry opens path de) (\<lambda>out. bind_r (ls_dir opens path inp) (\<lambda>out'. Inr (out @ out'))))"
  by pat_completeness auto
termination
proof (relation "measure (\<lambda>(opens, path, inp). length (concat inp))")
  fix opens :: nodes and path inp x de inp'
  assume "x = uread 16 inp" "(de, inp') = x" "\<not> length de \<noteq> 16"
  then have "length (concat inp') < length (concat inp)"
    using uread_shorter by (metis list.size(3) zero_neq_numeral)
  then show "((opens, path, inp'), opens, path, inp) \<in> measure (\<lambda>(opens, path, inp). length (concat inp))" by simp
qed simp

declare ls_dir.simps [simp del]

definition ls :: "nodes \<Rightarrow> u8 list \<Rightarrow> uout res" where
  "ls opens path =
     (case opens path of
        None \<Rightarrow> say 2 (''ls: cannot open %s'' @ nl) [Str (Some path)]
      | Some (None, inp) \<Rightarrow> say 2 (''ls: cannot stat %s'' @ nl) [Str (Some path)]
      | Some (Some st, inp) \<Rightarrow>
          if us_type st = 2 then ls_line path st
          else if us_type st = 1 then
            (if length path + 1 + DIRSIZ + 1 > 512 then say 1 (''ls: path too long'' @ nl) []
             else ls_dir opens path inp)
          else Inr [])"

fun ls_loop :: "nodes \<Rightarrow> u8 list list \<Rightarrow> uout res" where
  "ls_loop opens [] = Inr []"
| "ls_loop opens (a # args) = bind_r (ls opens a) (\<lambda>out. bind_r (ls_loop opens args) (\<lambda>out'. Inr (out @ out')))"

definition ls_main :: "nodes \<Rightarrow> u8 list list \<Rightarrow> uout res" where
  "ls_main opens args = (if args = [] then ls opens [46] else ls_loop opens args)"

section \<open>Lemmas\<close>

text \<open>\<open>cat\<close> writes what it reads.\<close>

lemma cat_copies:
  assumes "\<And>n. writes n = int n" "[] \<notin> set inp"
  shows "out_of 1 (fst (cat writes inp)) = concat inp \<and> snd (cat writes inp)"
  using assms(2)
proof (induction "length (concat inp)" arbitrary: inp rule: less_induct)
  case less
  obtain b r where u: "uread 512 inp = (b, r)" by fastforce
  show ?case
  proof (cases "b = []")
    case True
    then have "inp = []" using u less.prems by (cases inp) (auto split: if_splits)
    then show ?thesis by (simp add: cat.simps [of writes "[]"] out_of_def)
  next
    case False
    have "length (concat r) < length (concat inp)" "[] \<notin> set r"
      using uread_shorter [OF u False] uread_nonempty [OF u] less.prems by auto
    then have "out_of 1 (fst (cat writes r)) = concat r \<and> snd (cat writes r)" by (rule less.hyps)
    then show ?thesis using u False uread_append [OF u]
      by (simp add: cat.simps [of writes inp] assms(1) out_of_def split_def)
  qed
qed

text \<open>\<open>wc\<close> counts newlines, beginnings of words and bytes, however the input is cut into reads.\<close>

fun words_from :: "bool \<Rightarrow> u8 list \<Rightarrow> nat" where
  "words_from inside [] = 0"
| "words_from inside (b # bs) = (if \<not> wc_space b \<and> \<not> inside then 1 else 0) + words_from (\<not> wc_space b) bs"

lemma wc_fold:
  "fold wc_byte bs t =
     \<lparr>wc_l = wc_l t + of_nat (count_list bs 10), wc_w = wc_w t + of_nat (words_from (inword t) bs),
      wc_c = wc_c t + of_nat (length bs), inword = (if bs = [] then inword t else \<not> wc_space (last bs))\<rparr>"
proof (induction bs arbitrary: t)
  case (Cons b bs)
  have *: "wc_space 10" by (simp add: wc_space_def)
  have "wc_l (wc_byte b t) = wc_l t + (if b = 10 then 1 else 0)" "wc_c (wc_byte b t) = wc_c t + 1"
    "wc_w (wc_byte b t) = wc_w t + (if \<not> wc_space b \<and> \<not> inword t then 1 else 0)"
    "inword (wc_byte b t) \<longleftrightarrow> \<not> wc_space b"
    by (auto simp: wc_byte_def Let_def)
  then show ?case using * by (simp add: Cons)
qed simp

lemma wc_loop_fold: "[] \<notin> set inp \<Longrightarrow> wc_loop inp t = fold wc_byte (concat inp) t"
proof (induction "length (concat inp)" arbitrary: inp t rule: less_induct)
  case less
  obtain b r where u: "uread 512 inp = (b, r)" by fastforce
  show ?case
  proof (cases "b = []")
    case True
    then have "inp = []" using u less.prems by (cases inp) (auto split: if_splits)
    then show ?thesis by (simp add: wc_loop.simps [of "[]"])
  next
    case False
    have "length (concat r) < length (concat inp)" "[] \<notin> set r"
      using uread_shorter [OF u False] uread_nonempty [OF u] less.prems by auto
    then have "wc_loop r (fold wc_byte b t) = fold wc_byte (concat r) (fold wc_byte b t)" by (rule less.hyps)
    moreover have "concat inp = b @ concat r" using uread_append [OF u] by simp
    ultimately show ?thesis using u False by (simp add: wc_loop.simps [of inp])
  qed
qed

lemma fmtname_length: "DIRSIZ \<le> length (fmtname path)"
  by (simp add: fmtname_def Let_def)

end
