(* ===== verification/Grep.thy ===== *)
theory Grep
  imports User_Lib
begin

text \<open>
  \<open>xv6/grep.c\<close>: the regular-expression matcher and the loop that reads a file and prints the lines that
  match. Patterns and lines are C strings (lists without NUL). The reference semantics of a pattern
  is a language: \<open>pat_toks\<close> reads the pattern as a sequence of single characters, starred characters and
  a final end-of-line anchor, \<open>pat_lang\<close> is the set of texts that start with a match.
\<close>

definition ch_star :: u8 where "ch_star = 42"
definition ch_dot :: u8 where "ch_dot = 46"
definition ch_dollar :: u8 where "ch_dollar = 36"
definition ch_caret :: u8 where "ch_caret = 94"
definition ch_newline :: u8 where "ch_newline = 10"

section \<open>The matcher\<close>

function matchhere :: "u8 list \<Rightarrow> u8 list \<Rightarrow> bool" and matchstar :: "u8 \<Rightarrow> u8 list \<Rightarrow> u8 list \<Rightarrow> bool" where
  "matchhere [] tx = True"
| "matchhere (c # re) tx =
     (if re \<noteq> [] \<and> hd re = ch_star then matchstar c (tl re) tx
      else if c = ch_dollar \<and> re = [] then tx = []
      else if tx \<noteq> [] \<and> (c = ch_dot \<or> c = hd tx) then matchhere re (tl tx)
      else False)"
| "matchstar c re tx =
     (if matchhere re tx then True
      else if tx \<noteq> [] \<and> (hd tx = c \<or> c = ch_dot) then matchstar c re (tl tx)
      else False)"
  by pat_completeness auto
termination
  by (relation "measure (\<lambda>x. case x of Inl (re, tx) \<Rightarrow> 2 * (length re + length tx)
                                 | Inr (c, re, tx) \<Rightarrow> 2 * (length re + length tx) + 1)")
    (auto simp: neq_Nil_conv)

declare matchstar.simps [simp del]

fun match_from :: "u8 list \<Rightarrow> u8 list \<Rightarrow> bool" where
  "match_from re [] = matchhere re []"
| "match_from re (c # tx) = (matchhere re (c # tx) \<or> match_from re tx)"

definition grep_match :: "u8 list \<Rightarrow> u8 list \<Rightarrow> bool" where
  "grep_match re tx = (if re \<noteq> [] \<and> hd re = ch_caret then matchhere (tl re) tx else match_from re tx)"

section \<open>Reading lines\<close>

text \<open>
  The inner loop of \<open>grep\<close>: what it prints for the lines in \<open>p\<close>, and the rest of the buffer that \<open>p\<close>
  points to at the end. \<open>strchr\<close> stops at a NUL.
\<close>

function grep_lines :: "u8 list \<Rightarrow> u8 list \<Rightarrow> u8 list \<times> u8 list" where
  "grep_lines pattern p =
     (case strchr (takeWhile (\<lambda>x. x \<noteq> 0) p) ch_newline of
        None \<Rightarrow> ([], p)
      | Some q \<Rightarrow>
          let line = take (length (takeWhile (\<lambda>x. x \<noteq> 0) p) - length q) p;
              (out, p') = grep_lines pattern (drop (length line + 1) p) in
          ((if grep_match pattern line then line @ [ch_newline] else []) @ out, p'))"
  by pat_completeness auto
termination
proof (relation "measure (\<lambda>(pat, p). length p)")
  fix pattern p q and line :: "u8 list"
  assume "strchr (takeWhile (\<lambda>x. x \<noteq> 0) p) ch_newline = Some q"
  then have "p \<noteq> []" by (auto simp: strchr_Some)
  then show "((pattern, drop (length line + 1) p), pattern, p) \<in> measure (\<lambda>(pat, p). length p)"
    by (cases p) auto
qed simp

declare grep_lines.simps [simp del]

text \<open>\<open>b\<close> is what is left in \<open>buf\<close>: its \<open>m\<close> first bytes.\<close>

function grep_loop :: "u8 list \<Rightarrow> u8 list \<Rightarrow> u8 list list \<Rightarrow> u8 list" where
  "grep_loop pattern b inp =
     (let (c, inp) = uread (1024 - length b - 1) inp in
      if c = [] then []
      else
        let (out, p) = grep_lines pattern (b @ c) in
        out @ grep_loop pattern (if length p = length (b @ c) then [] else p) inp)"
  by pat_completeness auto
termination
proof (relation "measure (\<lambda>(pat, b, inp). length (concat inp))")
  fix pattern b inp x c inp'
  assume "x = uread (1024 - length b - 1) inp" "(c, inp') = x" "c \<noteq> []"
  then have "length (concat inp') < length (concat inp)" using uread_shorter by metis
  then show "((pattern, b', inp'), pattern, b, inp) \<in> measure (\<lambda>(pat, b, inp). length (concat inp))" for b'
    by simp
qed simp

declare grep_loop.simps [simp del]

definition grep :: "u8 list \<Rightarrow> u8 list list \<Rightarrow> u8 list" where
  "grep pattern inp = grep_loop pattern [] inp"

text \<open>
  \<open>main\<close>: the arguments after the program name, the input of descriptor 0 and the files \<open>open\<close> finds;
  the result is what is written.
\<close>

fun grep_files :: "(u8 list \<Rightarrow> u8 list list option) \<Rightarrow> u8 list \<Rightarrow> u8 list list \<Rightarrow> uout res" where
  "grep_files opens pattern [] = Inr []"
| "grep_files opens pattern (f # fs) =
     (case opens f of
        None \<Rightarrow> say 1 (''grep: cannot open %s'' @ [CHR 0x0A]) [Str (Some f)]
      | Some inp \<Rightarrow> bind_r (grep_files opens pattern fs) (\<lambda>out. Inr ((1, grep pattern inp) # out)))"

definition grep_main :: "(u8 list \<Rightarrow> u8 list list option) \<Rightarrow> u8 list list \<Rightarrow> u8 list list \<Rightarrow> uout res" where
  "grep_main opens stdin args =
     (case args of
        [] \<Rightarrow> say 2 (''usage: grep pattern [file ...]'' @ [CHR 0x0A]) []
      | [pattern] \<Rightarrow> Inr [(1, grep pattern stdin)]
      | pattern # fs \<Rightarrow> grep_files opens pattern fs)"

section \<open>The language of a pattern\<close>

datatype tok = One u8 | Many u8 | End

fun pat_toks :: "u8 list \<Rightarrow> tok list" where
  "pat_toks [] = []"
| "pat_toks [c] = [if c = ch_dollar then End else One c]"
| "pat_toks (c # d # re) = (if d = ch_star then Many c # pat_toks re else One c # pat_toks (d # re))"

definition chars :: "u8 \<Rightarrow> u8 set" where
  "chars c = (if c = ch_dot then UNIV else {c})"

definition singles :: "u8 set \<Rightarrow> u8 list set" where
  "singles C = {[x] | x. x \<in> C}"

definition conc :: "u8 list set \<Rightarrow> u8 list set \<Rightarrow> u8 list set" where
  "conc A B = {xs @ ys | xs ys. xs \<in> A \<and> ys \<in> B}"

fun pat_lang :: "tok list \<Rightarrow> u8 list set" where
  "pat_lang [] = UNIV"
| "pat_lang (One c # ts) = conc (singles (chars c)) (pat_lang ts)"
| "pat_lang (Many c # ts) = conc (lists (chars c)) (pat_lang ts)"
| "pat_lang (End # ts) = {[]}"

definition matches :: "u8 list \<Rightarrow> u8 list \<Rightarrow> bool" where
  "matches re tx =
     (case re of c # re' \<Rightarrow>
        if c = ch_caret then tx \<in> pat_lang (pat_toks re') else tx \<in> conc UNIV (pat_lang (pat_toks re))
      | [] \<Rightarrow> True)"

lemma conc_One: "x \<in> conc (singles C) L \<longleftrightarrow> (\<exists>c xs. x = c # xs \<and> c \<in> C \<and> xs \<in> L)"
  by (auto simp: conc_def singles_def) (metis append_Cons append_Nil)

lemma conc_lists: "x \<in> conc (lists C) L \<longleftrightarrow> x \<in> L \<or> (\<exists>c xs. x = c # xs \<and> c \<in> C \<and> xs \<in> conc (lists C) L)"
proof
  assume "x \<in> conc (lists C) L"
  then obtain u v where x: "x = u @ v" "u \<in> lists C" "v \<in> L" by (auto simp: conc_def)
  then show "x \<in> L \<or> (\<exists>c xs. x = c # xs \<and> c \<in> C \<and> xs \<in> conc (lists C) L)"
    by (cases u) (auto simp: conc_def)
next
  assume "x \<in> L \<or> (\<exists>c xs. x = c # xs \<and> c \<in> C \<and> xs \<in> conc (lists C) L)"
  then show "x \<in> conc (lists C) L"
  proof (elim disjE exE conjE)
    assume "x \<in> L"
    then show ?thesis by (auto simp: conc_def intro: exI [of _ "[]"])
  next
    fix c xs assume "x = c # xs" "c \<in> C" "xs \<in> conc (lists C) L"
    then obtain u v where "x = (c # u) @ v" "c # u \<in> lists C" "v \<in> L" by (auto simp: conc_def)
    then show ?thesis unfolding conc_def by blast
  qed
qed

lemma in_chars: "x \<in> chars c \<longleftrightarrow> c = ch_dot \<or> x = c"
  by (simp add: chars_def)

lemma match_lang:
  "matchhere re tx \<longleftrightarrow> tx \<in> pat_lang (pat_toks re)"
  "matchstar c re tx \<longleftrightarrow> tx \<in> conc (lists (chars c)) (pat_lang (pat_toks re))"
proof (induction re tx and c re tx rule: matchhere_matchstar.induct)
  case (2 c re tx)
  show ?case
  proof (cases "re \<noteq> [] \<and> hd re = ch_star")
    case True
    then show ?thesis using 2(1) by (cases re) auto
  next
    case False
    show ?thesis
    proof (cases "c = ch_dollar \<and> re = []")
      case True then show ?thesis by simp
    next
      case no: False
      then have "pat_toks (c # re) = One c # pat_toks re" using False by (cases re) auto
      then show ?thesis using False no 2(2) by (cases tx) (auto simp: conc_One in_chars)
    qed
  qed
next
  case (3 c re tx)
  then show ?case
    by (subst matchstar.simps, subst conc_lists, cases tx) (auto simp: in_chars)
qed simp

lemma conc_UNIV_Cons: "c # xs \<in> conc UNIV L \<longleftrightarrow> c # xs \<in> L \<or> xs \<in> conc UNIV L"
  by (auto simp: conc_def Cons_eq_append_conv intro: exI [of _ "[]"])

lemma conc_UNIV_Nil: "[] \<in> conc UNIV L \<longleftrightarrow> [] \<in> L"
  by (simp add: conc_def)

lemma match_from_lang: "match_from re tx \<longleftrightarrow> tx \<in> conc UNIV (pat_lang (pat_toks re))"
  by (induction tx) (simp_all add: match_lang conc_UNIV_Cons conc_UNIV_Nil)

lemma grep_match_matches: "grep_match re tx \<longleftrightarrow> matches re tx"
  by (cases re) (auto simp: grep_match_def matches_def match_lang match_from_lang conc_def)

section \<open>The lines of a file\<close>

text \<open>The complete lines of a file; bytes after the last newline are not a line.\<close>

function complete_lines :: "u8 list \<Rightarrow> u8 list list" where
  "complete_lines bs =
     (if ch_newline \<in> set bs then takeWhile (\<lambda>c. c \<noteq> ch_newline) bs # complete_lines (tl (dropWhile (\<lambda>c. c \<noteq> ch_newline) bs))
      else [])"
  by pat_completeness auto
termination
proof (relation "measure length")
  fix bs :: "u8 list" assume "ch_newline \<in> set bs"
  then have "length (tl (dropWhile (\<lambda>c. c \<noteq> ch_newline) bs)) < length bs"
    using length_dropWhile_le [of "\<lambda>c. c \<noteq> ch_newline" bs] by (cases bs) auto
  then show "(tl (dropWhile (\<lambda>c. c \<noteq> ch_newline) bs), bs) \<in> measure length" by simp
qed simp

declare complete_lines.simps [simp del]

definition expected :: "u8 list \<Rightarrow> u8 list \<Rightarrow> u8 list" where
  "expected pattern bs = concat (map (\<lambda>l. l @ [ch_newline]) (filter (matches pattern) (complete_lines bs)))"

definition short_lines :: "u8 list \<Rightarrow> bool" where
  "short_lines bs \<longleftrightarrow> (\<forall>xs ys zs. bs = xs @ ys @ zs \<longrightarrow> ch_newline \<notin> set ys \<longrightarrow> length ys < 1023)"

lemma complete_lines_none: "ch_newline \<notin> set bs \<Longrightarrow> complete_lines bs = []"
  by (simp add: complete_lines.simps)

lemma complete_lines_line: "ch_newline \<notin> set l \<Longrightarrow> complete_lines (l @ ch_newline # bs) = l # complete_lines bs"
proof -
  assume "ch_newline \<notin> set l"
  then have "takeWhile (\<lambda>c. c \<noteq> ch_newline) (l @ ch_newline # bs) = l"
    "dropWhile (\<lambda>c. c \<noteq> ch_newline) (l @ ch_newline # bs) = ch_newline # bs"
    by (auto simp: takeWhile_append dropWhile_append)
  then show ?thesis by (subst complete_lines.simps) simp
qed

lemma expected_line:
  "ch_newline \<notin> set l \<Longrightarrow>
   expected pattern (l @ ch_newline # bs) = (if matches pattern l then l @ [ch_newline] else []) @ expected pattern bs"
  by (simp add: expected_def complete_lines_line)

text \<open>The inner loop prints what is expected of the complete lines and leaves the rest.\<close>

lemma grep_lines_none: "0 \<notin> set p \<Longrightarrow> ch_newline \<notin> set p \<Longrightarrow> grep_lines pattern p = ([], p)"
proof -
  assume "0 \<notin> set p" "ch_newline \<notin> set p"
  then have t: "takeWhile (\<lambda>x. x \<noteq> 0) p = p" "strchr p ch_newline = None"
    by (auto simp: strchr_None takeWhile_eq_all_conv)
  show ?thesis unfolding grep_lines.simps [of pattern p] t by simp
qed

lemma grep_lines_line:
  assumes "0 \<notin> set l" "0 \<notin> set p" "ch_newline \<notin> set l"
  shows "grep_lines pattern (l @ ch_newline # p) =
    ((if matches pattern l then l @ [ch_newline] else []) @ fst (grep_lines pattern p), snd (grep_lines pattern p))"
proof -
  have t: "takeWhile (\<lambda>x. x \<noteq> 0) (l @ ch_newline # p) = l @ ch_newline # p"
    using assms(1,2) by (auto simp: takeWhile_eq_all_conv ch_newline_def)
  have "strchr (l @ ch_newline # p) ch_newline = Some (ch_newline # p)" using assms(3) by (auto simp: strchr_Some)
  then show ?thesis by (subst grep_lines.simps) (simp add: t split_def Let_def grep_match_matches)
qed

lemma grep_lines_spec:
  assumes "0 \<notin> set p"
  shows "\<exists>q. grep_lines pattern (p) = (expected pattern p, q) \<and> ch_newline \<notin> set q \<and> (\<exists>pre. p = pre @ q) \<and>
    (length q = length p \<longleftrightarrow> ch_newline \<notin> set p) \<and> (\<forall>bs. expected pattern (p @ bs) = expected pattern p @ expected pattern (q @ bs))"
  using assms
proof (induction p rule: length_induct)
  case (1 p)
  show ?case
  proof (cases "ch_newline \<in> set p")
    case False
    then show ?thesis using grep_lines_none [OF 1(2) False] by (simp add: expected_def complete_lines_none)
  next
    case True
    obtain l r where p: "p = l @ ch_newline # r" "ch_newline \<notin> set l" using split_list_first [OF True] by metis
    have "length r < length p" "0 \<notin> set r" using 1(2) p by auto
    then obtain q where q: "grep_lines pattern r = (expected pattern r, q)" "ch_newline \<notin> set q" "\<exists>pre. r = pre @ q"
      "\<And>bs. expected pattern (r @ bs) = expected pattern r @ expected pattern (q @ bs)"
      using 1(1) by meson
    have "grep_lines pattern p = (expected pattern p, q)"
      using grep_lines_line [of l r pattern] 1(2) p q(1) by (simp add: expected_line)
    moreover have "length q \<le> length r" using q(3) by auto
    ultimately show ?thesis using p q(2-4) by (auto simp: expected_line)
  qed
qed

lemma short_lines_suffix: "short_lines (xs @ ys) \<Longrightarrow> short_lines ys"
  unfolding short_lines_def by (metis append.assoc)

lemma grep_loop_eof: "grep_loop pattern b [] = []"
  by (subst grep_loop.simps) simp

lemma grep_file:
  assumes "0 \<notin> set (b @ bs)" "short_lines (b @ bs)" "ch_newline \<notin> set b"
  shows "grep_loop pattern b [bs] = expected pattern (b @ bs)"
  using assms
proof (induction bs arbitrary: b rule: length_induct)
  case (1 bs)
  have b: "length b < 1023" using 1(3,4) unfolding short_lines_def by (metis append_Nil)
  define n where "n = 1024 - length b - 1"
  define inp where "inp = (if length bs \<le> n then [] else [drop n bs])"
  have rd: "uread n [bs] = (take n bs, inp)" by (simp add: inp_def)
  show ?case
  proof (cases "bs = []")
    case True
    then show ?thesis using 1(4) by (subst grep_loop.simps) (simp add: expected_def complete_lines_none)
  next
    case False
    have c: "take n bs \<noteq> []" using False b by (simp add: n_def)
    obtain q where q: "grep_lines pattern (b @ take n bs) = (expected pattern (b @ take n bs), q)" "ch_newline \<notin> set q"
      "\<exists>pre. b @ take n bs = pre @ q" "length q = length (b @ take n bs) \<longleftrightarrow> ch_newline \<notin> set (b @ take n bs)"
      "\<And>zs. expected pattern ((b @ take n bs) @ zs) = expected pattern (b @ take n bs) @ expected pattern (q @ zs)"
      using grep_lines_spec [of "b @ take n bs" pattern] 1(2) by (auto dest: in_set_takeD)
    have step: "grep_loop pattern b [bs] =
        expected pattern (b @ take n bs) @ grep_loop pattern (if length q = length (b @ take n bs) then [] else q) inp"
      using c rd q(1) by (subst grep_loop.simps) (simp add: n_def)
    have e: "expected pattern (b @ bs) = expected pattern (b @ take n bs) @ expected pattern (q @ drop n bs)"
      using q(5) [of "drop n bs"] by simp
    show ?thesis
    proof (cases "length bs \<le> n")
      case True
      then show ?thesis using step e q(2) by (simp add: inp_def grep_loop_eof expected_def complete_lines_none)
    next
      case long: False
      then have "length (b @ take n bs) = 1023" using b by (simp add: n_def)
      then have "ch_newline \<in> set (b @ take n bs)" using 1(3) unfolding short_lines_def
        by (metis append.assoc append_Nil append_take_drop_id less_irrefl)
      moreover have "grep_loop pattern q [drop n bs] = expected pattern (q @ drop n bs)"
      proof -
        obtain pre where pre: "b @ take n bs = pre @ q" using q(3) by blast
        then have eq: "b @ bs = pre @ (q @ drop n bs)" by (metis append.assoc append_take_drop_id)
        have "0 < n" using b by (simp add: n_def)
        then have "length (drop n bs) < length bs" using False by simp
        moreover have "0 \<notin> set (q @ drop n bs)" using 1(2) eq by (metis Un_iff set_append)
        moreover have "short_lines (q @ drop n bs)" using 1(3) short_lines_suffix eq by metis
        ultimately show ?thesis using 1(1) q(2) by blast
      qed
      ultimately show ?thesis using step e q(4) long by (simp add: inp_def)
    qed
  qed
qed

text \<open>
  C37: \<open>grep\<close> prints the lines that match. On a file without NUL bytes whose lines are shorter than the
  buffer, read in whatever portions fit the buffer, the output is exactly the complete lines that
  belong to the language of the pattern, in order, each with its newline.
\<close>

theorem grep_prints_matching_lines:
  assumes "0 \<notin> set bs" "short_lines bs"
  shows "grep pattern [bs] = concat (map (\<lambda>l. l @ [ch_newline]) (filter (matches pattern) (complete_lines bs)))"
  using grep_file [of "[]" bs pattern] assms by (simp add: grep_def expected_def)

theorem grep_prints_matching_lines_witness:
  "grep [97, 46] [[97, 98, 10, 98, 10, 99, 97, 99, 10, 97]] = [97, 98, 10, 99, 97, 99, 10]"
proof -
  have "short_lines [97, 98, 10, 98, 10, 99, 97, 99, 10, 97]"
    unfolding short_lines_def by (auto dest!: arg_cong [of _ _ length])
  moreover have "complete_lines [97, 98, 10, 98, 10, 99, 97, 99, 10, 97] = [[97, 98], [98], [99, 97, 99]]"
    by (simp add: complete_lines.simps ch_newline_def)
  moreover have "matches [97, 46] [97, 98]" "\<not> matches [97, 46] [98]" "matches [97, 46] [99, 97, 99]"
    by (simp_all add: grep_match_matches [symmetric] grep_match_def ch_caret_def ch_star_def ch_dot_def ch_dollar_def)
  ultimately show ?thesis using grep_prints_matching_lines [of "[97, 98, 10, 98, 10, 99, 97, 99, 10, 97]" "[97, 46]"]
    by (simp add: ch_newline_def)
qed

text \<open>
  C40: text is lost when a read ends inside a line, as it can on a pipe: bytes that contain no newline
  are thrown away when the buffer is searched, so \<open>grep\<close> continues as if it had not read them.
\<close>

theorem grep_forgets_partial_line:
  assumes "c \<noteq> []" "length c \<le> 1023" "0 \<notin> set c" "ch_newline \<notin> set c"
  shows "grep pattern (c # inp) = grep pattern inp"
  using assms grep_lines_none [OF assms(3,4)] unfolding grep_def by (subst grep_loop.simps) simp

theorem grep_forgets_partial_line_witness:
  "grep [97] [[97, 98], [99, 10]] = [] \<and> grep [97] [[97, 98, 99, 10]] = [97, 98, 99, 10]"
proof -
  have "grep [97] [[97, 98], [99, 10]] = grep [97] [[99, 10]]"
    by (rule grep_forgets_partial_line) (simp_all add: ch_newline_def)
  also have "\<dots> = []" by code_simp
  finally have lost: "grep [97] [[97, 98], [99, 10]] = []" .
  have "grep [97] [[97, 98, 99, 10]] = [97, 98, 99, 10]" by code_simp
  with lost show ?thesis by (rule conjI)
qed

end
