(* ===== verification/Shell.thy ===== *)
theory Shell
  imports User_Lib
begin

text \<open>
  The parser of \<open>xv6/sh.c\<close>. The command line is a list of bytes without NUL; a pointer into it is an
  index, and the byte at the index behind the last one is the NUL. A word is the pair of pointers
  \<open>q\<close>, \<open>eq\<close> the source stores. \<open>Panic s\<close> is the shell's own \<open>panic(s)\<close>, which prints \<open>s\<close> and exits.
\<close>

definition MAXARGS :: nat where "MAXARGS = 10"

definition SH_RDONLY :: u32 where "SH_RDONLY = 0"
definition SH_WRONLY_CREATE :: u32 where "SH_WRONLY_CREATE = 0x201"

text \<open>\<open>struct cmd\<close> and the structures it is cast to; \<open>EXEC\<close> keeps the arguments before the null pointer.\<close>

datatype 'w cmd =
    EXEC "'w list"
  | REDIR "'w cmd" 'w u32 nat
  | PIPE "'w cmd" "'w cmd"
  | LIST "'w cmd" "'w cmd"
  | BACK "'w cmd"

type_synonym word_pos = "nat \<times> nat"

section \<open>Constructors\<close>

definition execcmd :: "'w cmd" where "execcmd = EXEC []"

definition redircmd :: "'w cmd \<Rightarrow> 'w \<Rightarrow> u32 \<Rightarrow> nat \<Rightarrow> 'w cmd" where
  "redircmd subcmd fname mode fd = REDIR subcmd fname mode fd"

definition pipecmd :: "'w cmd \<Rightarrow> 'w cmd \<Rightarrow> 'w cmd" where "pipecmd left right = PIPE left right"

definition listcmd :: "'w cmd \<Rightarrow> 'w cmd \<Rightarrow> 'w cmd" where "listcmd left right = LIST left right"

definition backcmd :: "'w cmd \<Rightarrow> 'w cmd" where "backcmd subcmd = BACK subcmd"

section \<open>Tokens\<close>

definition byte_at :: "u8 list \<Rightarrow> nat \<Rightarrow> u8" where
  "byte_at b s = (if s < length b then b ! s else 0)"

definition whitespace :: "u8 \<Rightarrow> bool" where
  "whitespace c \<longleftrightarrow> strchr [32, 9, 13, 10, 11] c \<noteq> None"

definition symbols :: "u8 \<Rightarrow> bool" where
  "symbols c \<longleftrightarrow> strchr [60, 124, 62, 38, 59, 40, 41] c \<noteq> None"

definition word_char :: "u8 \<Rightarrow> bool" where
  "word_char c \<longleftrightarrow> \<not> whitespace c \<and> \<not> symbols c"

definition skip_space :: "u8 list \<Rightarrow> nat \<Rightarrow> nat" where
  "skip_space b s = s + length (takeWhile whitespace (drop s b))"

definition skip_word :: "u8 list \<Rightarrow> nat \<Rightarrow> nat" where
  "skip_word b s = s + length (takeWhile word_char (drop s b))"

text \<open>The switch of \<open>gettoken\<close>: the token at \<open>q\<close> and its end.\<close>

definition token_at :: "u8 list \<Rightarrow> nat \<Rightarrow> u8 \<times> nat" where
  "token_at b q =
     (let c = byte_at b q in
      if c = 0 then (c, q)
      else if c = 124 \<or> c = 40 \<or> c = 41 \<or> c = 59 \<or> c = 38 \<or> c = 60 then (c, q + 1)
      else if c = 62 then (if byte_at b (q + 1) = 62 then (43, q + 2) else (c, q + 1))
      else (97, skip_word b q))"

text \<open>The token, the word \<open>q\<close>, \<open>eq\<close> and the new \<open>*ps\<close>.\<close>

definition gettoken :: "u8 list \<Rightarrow> nat \<Rightarrow> u8 \<times> word_pos \<times> nat" where
  "gettoken b s =
     (let q = skip_space b s; (ret, eq) = token_at b q in (ret, (q, eq), skip_space b eq))"

definition peek :: "u8 list \<Rightarrow> nat \<Rightarrow> u8 list \<Rightarrow> nat \<times> bool" where
  "peek b s toks =
     (let s = skip_space b s in (s, byte_at b s \<noteq> 0 \<and> strchr toks (byte_at b s) \<noteq> None))"

lemma skip_space_le: "s \<le> skip_space b s"
  by (simp add: skip_space_def)

lemma skip_space_bound: "s \<le> length b \<Longrightarrow> skip_space b s \<le> length b"
  using length_takeWhile_le [of whitespace "drop s b"] by (simp add: skip_space_def)

lemma skip_space_id: "s < length b \<Longrightarrow> \<not> whitespace (b ! s) \<Longrightarrow> skip_space b s = s"
  by (simp add: skip_space_def Cons_nth_drop_Suc [symmetric])

lemma skip_space_stop: "skip_space b s < length b \<Longrightarrow> \<not> whitespace (b ! skip_space b s)"
  using nth_length_takeWhile [of whitespace "drop s b"] by (simp add: skip_space_def)

lemma skip_word_bound: "q \<le> length b \<Longrightarrow> skip_word b q \<le> length b"
  using length_takeWhile_le [of word_char "drop q b"] by (simp add: skip_word_def)

lemma skip_word_gt: "q < length b \<Longrightarrow> word_char (b ! q) \<Longrightarrow> q < skip_word b q"
  by (simp add: skip_word_def Cons_nth_drop_Suc [symmetric])

lemma skip_word_stop: "skip_word b q < length b \<Longrightarrow> \<not> word_char (b ! skip_word b q)"
  using nth_length_takeWhile [of word_char "drop q b"] by (simp add: skip_word_def)

lemma skip_word_chars: "q \<le> i \<Longrightarrow> i < skip_word b q \<Longrightarrow> i < length b \<and> word_char (b ! i)"
proof -
  assume i: "q \<le> i" "i < skip_word b q"
  then have k: "i - q < length (takeWhile word_char (drop q b))" by (simp add: skip_word_def)
  then have "i < length b" using length_takeWhile_le [of word_char "drop q b"] i(1) by auto
  moreover have "word_char (drop q b ! (i - q))" using k by (metis nth_mem set_takeWhileD takeWhile_nth)
  ultimately show ?thesis using i(1) by simp
qed

lemma peek_in: "peek b s toks = (s', True) \<Longrightarrow> s \<le> s' \<and> s' < length b \<and> b ! s' \<in> set toks"
  by (auto simp: peek_def Let_def byte_at_def skip_space_le strchr_None split: if_splits)

lemma peek_bound: "peek b s toks = (s', r) \<Longrightarrow> s \<le> s' \<and> (s \<le> length b \<longrightarrow> s' \<le> length b)"
  by (auto simp: peek_def Let_def skip_space_le skip_space_bound)

lemma token_at_progress:
  assumes "token_at b q = (ret, e)" "q < length b" "b ! q \<noteq> 0" "\<not> whitespace (b ! q)"
  shows "q < e \<and> e \<le> length b"
proof -
  have "word_char (b ! q)" if "b ! q \<notin> {124, 40, 41, 59, 38, 60, 62}"
    using that assms(4) by (auto simp: word_char_def symbols_def)
  then have *: "b ! q \<notin> {124, 40, 41, 59, 38, 60, 62} \<Longrightarrow> q < skip_word b q"
    using skip_word_gt assms(2) by blast
  show ?thesis using assms(1-3) * skip_word_bound [of q b]
    by (auto simp: token_at_def Let_def byte_at_def split: if_splits)
qed

lemma token_at_end: "token_at b q = (0, e) \<Longrightarrow> e = q"
  by (auto simp: token_at_def Let_def split: if_splits)

lemma token_at_ret: "token_at b q = (ret, e) \<Longrightarrow> ret \<noteq> 0 \<Longrightarrow> q < length b \<and> b ! q \<noteq> 0"
  by (auto simp: token_at_def Let_def byte_at_def split: if_splits)

lemma gettoken_progress:
  assumes "gettoken b s = (ret, (q, e), s')" "ret \<noteq> 0"
  shows "s \<le> q \<and> q < e \<and> e \<le> s' \<and> s' \<le> length b \<and> s < s'"
proof -
  have q: "q = skip_space b s" and t: "token_at b q = (ret, e)" and s': "s' = skip_space b e"
    using assms(1) by (auto simp: gettoken_def Let_def split: prod.splits)
  have lt: "q < length b" "b ! q \<noteq> 0" using token_at_ret [OF t assms(2)] by auto
  have "q < e \<and> e \<le> length b" using token_at_progress [OF t lt] skip_space_stop [of b s] lt q by auto
  then show ?thesis using q s' skip_space_le [of s b] skip_space_le [of e b] skip_space_bound [of e b] by auto
qed

lemma gettoken_mono:
  assumes "gettoken b s = (ret, w, s')" shows "s \<le> s' \<and> (s \<le> length b \<longrightarrow> s' \<le> length b)"
proof (cases "ret = 0")
  case True
  then have "s' = skip_space b (skip_space b s)"
    using assms token_at_end by (auto simp: gettoken_def Let_def split: prod.splits)
  then show ?thesis using skip_space_le skip_space_bound by (metis order_trans)
next
  case False
  then show ?thesis using assms gettoken_progress by (cases w) fastforce
qed

lemma peek_gettoken:
  assumes "peek b s toks = (s', True)" "gettoken b s' = (ret, w, s'')"
  shows "s < s'' \<and> s'' \<le> length b \<and> s' < s''"
proof -
  have *: "s \<le> s'" "s' < length b" "b ! s' \<noteq> 0" "s' = skip_space b s"
    using assms(1) by (auto simp: peek_def Let_def byte_at_def skip_space_le split: if_splits)
  then have "skip_space b s' = s'" using skip_space_stop skip_space_id by metis
  then have "ret \<noteq> 0" using assms(2) *(2,3)
    by (auto simp: gettoken_def token_at_def byte_at_def Let_def split: if_splits)
  then show ?thesis using gettoken_progress assms(2) *(1) by (cases w) fastforce
qed

lemma redir_progress:
  assumes "(s1, m) = peek b s toks" "m" "(tk, w, s2) = gettoken b s1" "(r, w', s3) = gettoken b s2"
  shows "s < s3 \<and> s3 \<le> length b \<and> length b - s3 < length b - s"
proof -
  have "s < s2" "s2 \<le> length b" using peek_gettoken [of b s toks s1] assms(1-3) by (metis (full_types))+
  moreover have "s2 \<le> s3" "s3 \<le> length b" using gettoken_mono [of b s2] assms(4) \<open>s2 \<le> length b\<close> by metis+
  ultimately show ?thesis by simp
qed

section \<open>The parser\<close>

function parseredirs :: "word_pos cmd \<Rightarrow> u8 list \<Rightarrow> nat \<Rightarrow> (nat \<times> word_pos cmd) res" where
  "parseredirs c b s =
     (let (s, more) = peek b s [60, 62] in
      if more then
        let (tk, _, s) = gettoken b s; (ret, w, s) = gettoken b s in
        if ret \<noteq> 97 then Inl (Panic ''missing file for redirection'')
        else if tk = 60 then parseredirs (redircmd c w SH_RDONLY 0) b s
        else if tk = 62 then parseredirs (redircmd c w SH_WRONLY_CREATE 1) b s
        else if tk = 43 then parseredirs (redircmd c w SH_WRONLY_CREATE 1) b s
        else parseredirs c b s
      else Inr (s, c))"
  by pat_completeness auto
termination
  by (relation "measure (\<lambda>(c, b, s). length b - s)")
    (simp_all, (metis redir_progress)+)

declare parseredirs.simps [simp del]

text \<open>\<open>cmd->argv[argc] = q\<close>: the exec node lies at the end of the redirections \<open>ret\<close> has collected.\<close>

fun add_arg :: "'w cmd \<Rightarrow> 'w \<Rightarrow> 'w cmd" where
  "add_arg (EXEC ws) w = EXEC (ws @ [w])"
| "add_arg (REDIR c f m d) w = REDIR (add_arg c w) f m d"
| "add_arg c w = c"

text \<open>The redirection a token and a file name stand for.\<close>

definition redir_by :: "u8 \<Rightarrow> word_pos cmd \<Rightarrow> word_pos \<Rightarrow> word_pos cmd" where
  "redir_by tk c w =
     (if tk = 60 then REDIR c w SH_RDONLY 0 else if tk = 62 \<or> tk = 43 then REDIR c w SH_WRONLY_CREATE 1 else c)"

lemma parseredirs_done: "peek b s [60, 62] = (s', False) \<Longrightarrow> parseredirs c b s = Inr (s', c)"
  by (simp add: parseredirs.simps [of c b s])

lemma parseredirs_step:
  assumes "peek b s [60, 62] = (s1, True)" "gettoken b s1 = (tk, w', s2)" "gettoken b s2 = (r, w, s3)"
  shows "parseredirs c b s =
    (if r \<noteq> 97 then Inl (Panic ''missing file for redirection'') else parseredirs (redir_by tk c w) b s3)"
  by (subst parseredirs.simps) (simp add: assms redir_by_def redircmd_def)

lemma parseredirs_induct [consumes 1, case_names finish step]:
  assumes "parseredirs c b s = Inr (s', c')"
    and "\<And>c s s1. peek b s [60, 62] = (s1, False) \<Longrightarrow> P c s s1 c"
    and "\<And>c s s1 tk w' s2 w s3 s' c'.
      \<lbrakk>peek b s [60, 62] = (s1, True); gettoken b s1 = (tk, w', s2); gettoken b s2 = (97, w, s3);
        s < s3; s3 \<le> length b; P (redir_by tk c w) s3 s' c'\<rbrakk> \<Longrightarrow> P c s s' c'"
  shows "P c s s' c'"
  using assms(1)
proof (induction "length b - s" arbitrary: c s rule: less_induct)
  case less
  obtain s1 m where p: "peek b s [60, 62] = (s1, m)" by fastforce
  show ?case
  proof (cases m)
    case False
    then show ?thesis using less.prems p assms(2) parseredirs_done by force
  next
    case True
    obtain tk w' s2 where t: "gettoken b s1 = (tk, w', s2)" by (metis prod.exhaust)
    obtain r w s3 where r: "gettoken b s2 = (r, w, s3)" by (metis prod.exhaust)
    have *: "s < s3 \<and> s3 \<le> length b \<and> length b - s3 < length b - s"
      by (rule redir_progress [OF p [symmetric] True t [symmetric] r [symmetric]])
    have r97: "r = 97" "parseredirs (redir_by tk c w) b s3 = Inr (s', c')"
      using less.prems parseredirs_step [of b s s1 tk w' s2 r w s3 c] p True t r by (auto split: if_splits)
    then have "P (redir_by tk c w) s3 s' c'" using * less.hyps by blast
    with p True t r r97(1) * show ?thesis by (intro assms(3) [of s s1 tk w' s2 w s3 c s' c']) auto
  qed
qed

lemma parseredirs_mono:
  "parseredirs c b s = Inr (s', c') \<Longrightarrow> s \<le> s' \<and> (s \<le> length b \<longrightarrow> s' \<le> length b)"
  by (induction rule: parseredirs_induct) (use peek_bound in auto)

text \<open>
  The loop of \<open>parseexec\<close>: redirections, then an argument, until a symbol or the end of the line.
\<close>

function parseargs :: "word_pos cmd \<Rightarrow> nat \<Rightarrow> u8 list \<Rightarrow> nat \<Rightarrow> (nat \<times> word_pos cmd) res" where
  "parseargs ret argc b s =
     (case parseredirs ret b s of
        Inl e \<Rightarrow> Inl e
      | Inr (s, ret) \<Rightarrow>
          let (s, stop) = peek b s [124, 41, 38, 59] in
          if stop then Inr (s, ret)
          else
            let (tk, w, s) = gettoken b s in
            if tk = 0 then Inr (s, ret)
            else if tk \<noteq> 97 then Inl (Panic ''syntax'')
            else if argc + 1 \<ge> MAXARGS then Inl (Panic ''too many args'')
            else parseargs (add_arg ret w) (argc + 1) b s)"
  by pat_completeness auto
termination
  by (relation "measure (\<lambda>(c, argc, b, s). MAXARGS - argc)") auto

declare parseargs.simps [simp del]

text \<open>The \<open>while\<close> loop of \<open>parseline\<close>.\<close>

function parseback :: "word_pos cmd \<Rightarrow> u8 list \<Rightarrow> nat \<Rightarrow> nat \<times> word_pos cmd" where
  "parseback c b s =
     (let (s, more) = peek b s [38] in
      if more then let (_, _, s) = gettoken b s in parseback (backcmd c) b s
      else (s, c))"
  by pat_completeness auto
termination
proof (relation "measure (\<lambda>(c, b, s). length b - s)")
  fix c :: "word_pos cmd" and b s s1 m x tk w s2 y z
  assume "x = peek b s [38]" "(s1, m) = x" "m" "y = gettoken b s1" "(tk, z) = y" "(w, s2) = z"
  then show "((backcmd c, b, s2), c, b, s) \<in> measure (\<lambda>(c, b, s). length b - s)"
    using peek_gettoken [of b s "[38]" s1 tk w s2] by auto
qed simp

declare parseback.simps [simp del]

text \<open>The recursive descent, with a bound on the depth of the calls.\<close>

fun parseline :: "nat \<Rightarrow> u8 list \<Rightarrow> nat \<Rightarrow> (nat \<times> word_pos cmd) res"
  and parsepipe :: "nat \<Rightarrow> u8 list \<Rightarrow> nat \<Rightarrow> (nat \<times> word_pos cmd) res"
  and parseexec :: "nat \<Rightarrow> u8 list \<Rightarrow> nat \<Rightarrow> (nat \<times> word_pos cmd) res"
  and parseblock :: "nat \<Rightarrow> u8 list \<Rightarrow> nat \<Rightarrow> (nat \<times> word_pos cmd) res" where
  "parseline 0 b s = Inl NoFuel"
| "parseline (Suc n) b s =
     bind_r (parsepipe n b s) (\<lambda>(s, c).
     let (s, c) = parseback c b s; (s, more) = peek b s [59] in
     if more then
       let (_, _, s) = gettoken b s in
       bind_r (parseline n b s) (\<lambda>(s, d). Inr (s, listcmd c d))
     else Inr (s, c))"
| "parsepipe 0 b s = Inl NoFuel"
| "parsepipe (Suc n) b s =
     bind_r (parseexec n b s) (\<lambda>(s, c).
     let (s, more) = peek b s [124] in
     if more then
       let (_, _, s) = gettoken b s in
       bind_r (parsepipe n b s) (\<lambda>(s, d). Inr (s, pipecmd c d))
     else Inr (s, c))"
| "parseexec 0 b s = Inl NoFuel"
| "parseexec (Suc n) b s =
     (let (s, block) = peek b s [40] in
      if block then parseblock n b s else parseargs execcmd 0 b s)"
| "parseblock 0 b s = Inl NoFuel"
| "parseblock (Suc n) b s =
     (let (s, ok) = peek b s [40] in
      if \<not> ok then Inl (Panic ''parseblock'')
      else
        let (_, _, s) = gettoken b s in
        bind_r (parseline n b s) (\<lambda>(s, c).
        let (s, ok) = peek b s [41] in
        if \<not> ok then Inl (Panic ''syntax - missing )'')
        else let (_, _, s) = gettoken b s in parseredirs c b s))"

text \<open>\<open>nulterminate\<close> acts on the line with its NUL.\<close>

fun nulterminate :: "word_pos cmd \<Rightarrow> u8 list \<Rightarrow> u8 list" where
  "nulterminate (EXEC ws) buf = fold (\<lambda>(q, e) buf. buf[e := 0]) ws buf"
| "nulterminate (REDIR c (q, e) m d) buf = (nulterminate c buf)[e := 0]"
| "nulterminate (PIPE l r) buf = nulterminate r (nulterminate l buf)"
| "nulterminate (LIST l r) buf = nulterminate r (nulterminate l buf)"
| "nulterminate (BACK c) buf = nulterminate c buf"

text \<open>What \<open>parsecmd\<close> prints, and the command with the line it points into.\<close>

definition parsecmd :: "u8 list \<Rightarrow> uout \<times> (word_pos cmd \<times> u8 list) res" where
  "parsecmd b =
     (case parseline (4 * length b + 4) b 0 of
        Inl e \<Rightarrow> ([], Inl e)
      | Inr (s, c) \<Rightarrow>
          let (s, _) = peek b s [] in
          if s \<noteq> length b then ([(2, cstr ''leftovers: '' @ drop s b @ [10])], Inl (Panic ''syntax''))
          else ([], Inr (c, nulterminate c (b @ [0]))))"

section \<open>Well-formed commands\<close>

text \<open>A word of the line: a maximal non-empty run of word characters.\<close>

definition is_word :: "u8 list \<Rightarrow> word_pos \<Rightarrow> bool" where
  "is_word b w \<longleftrightarrow>
     (case w of (q, e) \<Rightarrow> q < e \<and> e \<le> length b \<and> (\<forall>i. q \<le> i \<longrightarrow> i < e \<longrightarrow> word_char (b ! i)) \<and>
        (e < length b \<longrightarrow> \<not> word_char (b ! e)))"

definition redir_ok :: "u32 \<Rightarrow> nat \<Rightarrow> bool" where
  "redir_ok m d \<longleftrightarrow> (m = SH_RDONLY \<and> d = 0) \<or> (m = SH_WRONLY_CREATE \<and> d = 1)"

fun cmd_ok :: "('w \<Rightarrow> bool) \<Rightarrow> 'w cmd \<Rightarrow> bool" where
  "cmd_ok P (EXEC ws) \<longleftrightarrow> length ws < MAXARGS \<and> (\<forall>w\<in>set ws. P w)"
| "cmd_ok P (REDIR c w m d) \<longleftrightarrow> cmd_ok P c \<and> P w \<and> redir_ok m d"
| "cmd_ok P (PIPE l r) \<longleftrightarrow> cmd_ok P l \<and> cmd_ok P r"
| "cmd_ok P (LIST l r) \<longleftrightarrow> cmd_ok P l \<and> cmd_ok P r"
| "cmd_ok P (BACK c) \<longleftrightarrow> cmd_ok P c"

text \<open>An exec node under redirections, and the number of its arguments.\<close>

fun simple_args :: "'w cmd \<Rightarrow> nat option" where
  "simple_args (EXEC ws) = Some (length ws)"
| "simple_args (REDIR c w m d) = simple_args c"
| "simple_args c = None"

lemma gettoken_word: "gettoken b s = (97, w, s') \<Longrightarrow> is_word b w"
proof -
  assume *: "gettoken b s = (97, w, s')"
  obtain q e where w: "w = (q, e)" by fastforce
  have t: "token_at b q = (97, e)" using * w by (auto simp: gettoken_def Let_def split: prod.splits)
  have "q < e \<and> s' \<le> length b \<and> e \<le> s'" using gettoken_progress [of b s 97 q e s'] * w by simp
  moreover have "e = skip_word b q" using t by (auto simp: token_at_def Let_def split: if_splits)
  ultimately show ?thesis using skip_word_chars [of q _ b] skip_word_stop [of b q] w by (auto simp: is_word_def)
qed

lemma redir_by_ok:
  "P w \<Longrightarrow> cmd_ok P c \<Longrightarrow> cmd_ok P (redir_by tk c w) \<and> simple_args (redir_by tk c w) = simple_args c"
  by (simp add: redir_by_def redir_ok_def)

lemma parseredirs_ok:
  "parseredirs c b s = Inr (s', c') \<Longrightarrow> cmd_ok (is_word b) c \<Longrightarrow>
   cmd_ok (is_word b) c' \<and> simple_args c' = simple_args c"
proof (induction rule: parseredirs_induct)
  case (step c s s1 tk w' s2 w s3 s' c')
  then show ?case using redir_by_ok [of "is_word b" w c tk] gettoken_word [OF step(3)] by simp
qed simp

lemma add_arg_ok:
  "cmd_ok P c \<Longrightarrow> P w \<Longrightarrow> simple_args c = Some n \<Longrightarrow> n + 1 < MAXARGS \<Longrightarrow>
   cmd_ok P (add_arg c w) \<and> simple_args (add_arg c w) = Some (n + 1)"
  by (induction c) auto

lemma parseargs_induct [consumes 1, case_names finish finish_0 step]:
  assumes "parseargs c n b s = Inr (s', c')"
    and "\<And>c n s s1 c1 s2. \<lbrakk>parseredirs c b s = Inr (s1, c1); peek b s1 [124, 41, 38, 59] = (s2, True)\<rbrakk> \<Longrightarrow> P c n s s2 c1"
    and "\<And>c n s s1 c1 s2 w s3. \<lbrakk>parseredirs c b s = Inr (s1, c1); peek b s1 [124, 41, 38, 59] = (s2, False);
      gettoken b s2 = (0, w, s3)\<rbrakk> \<Longrightarrow> P c n s s3 c1"
    and "\<And>c n s s1 c1 s2 w s3 s' c'. \<lbrakk>parseredirs c b s = Inr (s1, c1); peek b s1 [124, 41, 38, 59] = (s2, False);
      gettoken b s2 = (97, w, s3); n + 1 < MAXARGS; P (add_arg c1 w) (n + 1) s3 s' c'\<rbrakk> \<Longrightarrow> P c n s s' c'"
  shows "P c n s s' c'"
  using assms(1)
proof (induction "MAXARGS - n" arbitrary: c n s rule: less_induct)
  case less
  obtain s1 c1 where r: "parseredirs c b s = Inr (s1, c1)"
    using less.prems by (cases "parseredirs c b s") (auto simp: parseargs.simps [of c n b s])
  obtain s2 m where p: "peek b s1 [124, 41, 38, 59] = (s2, m)" by fastforce
  obtain tk w s3 where t: "gettoken b s2 = (tk, w, s3)" by (metis prod.exhaust)
  note u = parseargs.simps [of c n b s, unfolded r, simplified, unfolded p, simplified, unfolded t, simplified]
  consider "m" | "\<not> m" "tk = 0" | "\<not> m" "tk \<noteq> 0" by blast
  then show ?case
  proof cases
    case 1
    then show ?thesis using less.prems u assms(2) r p by auto
  next
    case 2
    then show ?thesis using less.prems u assms(3) r p t by auto
  next
    case 3
    then have ok: "tk = 97" "n + 1 < MAXARGS" "parseargs (add_arg c1 w) (n + 1) b s3 = Inr (s', c')"
      using less.prems u by (auto split: if_splits)
    then have "P (add_arg c1 w) (n + 1) s3 s' c'" using less.hyps [of "n + 1"] by auto
    then show ?thesis using assms(4) [of c s s1 c1 s2 w s3 n s' c'] r p t 3 ok by auto
  qed
qed

lemma parseargs_ok:
  "parseargs c n b s = Inr (s', c') \<Longrightarrow> cmd_ok (is_word b) c \<Longrightarrow> simple_args c = Some n \<Longrightarrow> cmd_ok (is_word b) c'"
proof (induction rule: parseargs_induct)
  case (step c n s s1 c1 s2 w s3 s' c')
  then show ?case using parseredirs_ok [OF step(1)] add_arg_ok [of "is_word b" c1 w n] gettoken_word [OF step(3)] by simp
qed (use parseredirs_ok in blast)+

lemma parseargs_mono: "parseargs c n b s = Inr (s', c') \<Longrightarrow> s \<le> s' \<and> (s \<le> length b \<longrightarrow> s' \<le> length b)"
proof (induction rule: parseargs_induct)
  case (finish c n s s1 c1 s2)
  then show ?case using parseredirs_mono peek_bound by (meson order_trans)
next
  case (finish_0 c n s s1 c1 s2 w s3)
  then show ?case using parseredirs_mono peek_bound gettoken_mono by (meson order_trans)
next
  case (step c n s s1 c1 s2 w s3 s' c')
  then show ?case using parseredirs_mono peek_bound gettoken_mono by (meson order_trans)
qed

lemma parseback_ok:
  assumes "parseback c b s = (s', c')" "s \<le> length b" "cmd_ok P c"
  shows "s \<le> s' \<and> s' \<le> length b \<and> cmd_ok P c'"
  using assms
proof (induction "length b - s" arbitrary: c s rule: less_induct)
  case less
  obtain s1 m where p: "peek b s [38] = (s1, m)" by fastforce
  obtain tk w s2 where t: "gettoken b s1 = (tk, w, s2)" by (metis prod.exhaust)
  show ?case
  proof (cases m)
    case False
    then show ?thesis using less.prems p peek_bound [OF p] by (simp add: parseback.simps [of c b s])
  next
    case True
    have *: "s < s2" "s2 \<le> length b" using peek_gettoken [of b s "[38]" s1 tk w s2] p t True by auto
    moreover have "parseback (BACK c) b s2 = (s', c')"
      using less.prems(1) p t True by (simp add: parseback.simps [of c b s] backcmd_def)
    ultimately have "s2 \<le> s' \<and> s' \<le> length b \<and> cmd_ok P c'"
      using less.hyps [of s2 "BACK c"] less.prems by auto
    then show ?thesis using * by simp
  qed
qed

section \<open>Termination and the shape of the result\<close>

text \<open>A result that is not the end of the fuel, and if it is a command, a well-formed one.\<close>

definition good :: "u8 list \<Rightarrow> nat \<Rightarrow> (nat \<times> word_pos cmd) res \<Rightarrow> bool" where
  "good b s r \<longleftrightarrow>
     (case r of Inl e \<Rightarrow> \<exists>m. e = Panic m | Inr (s', c) \<Rightarrow> s \<le> s' \<and> s' \<le> length b \<and> cmd_ok (is_word b) c)"

lemma good_panic [simp]: "good b s (Inl (Panic m))"
  by (simp add: good_def)

lemma good_Inr [simp]: "good b s (Inr (s', c)) \<longleftrightarrow> s \<le> s' \<and> s' \<le> length b \<and> cmd_ok (is_word b) c"
  by (simp add: good_def)

lemma good_bind:
  assumes "good b s r" "\<And>s' c. r = Inr (s', c) \<Longrightarrow> s \<le> s' \<Longrightarrow> s' \<le> length b \<Longrightarrow> cmd_ok (is_word b) c \<Longrightarrow> good b s (f (s', c))"
  shows "good b s (bind_r r f)"
  using assms by (cases r) (auto simp: good_def)

lemma good_wrap:
  "good b s r \<Longrightarrow> (\<And>d. cmd_ok (is_word b) d \<Longrightarrow> cmd_ok (is_word b) (f d)) \<Longrightarrow>
   good b s (bind_r r (\<lambda>(s, d). Inr (s, f d)))"
  by (cases r) (auto simp: good_def)

lemma good_le: "good b s r \<Longrightarrow> s0 \<le> s \<Longrightarrow> good b s0 r"
  by (auto simp: good_def split: sum.splits prod.splits)

lemma parseredirs_error: "parseredirs c b s = Inl e \<Longrightarrow> e = Panic ''missing file for redirection''"
proof (induction "length b - s" arbitrary: c s rule: less_induct)
  case less
  obtain s1 m where p: "peek b s [60, 62] = (s1, m)" by fastforce
  obtain tk w' s2 where t: "gettoken b s1 = (tk, w', s2)" by (metis prod.exhaust)
  obtain r w s3 where r: "gettoken b s2 = (r, w, s3)" by (metis prod.exhaust)
  have m: "m" using less.prems p parseredirs_done [of b s s1 c] by (cases m) auto
  then have "length b - s3 < length b - s" using redir_progress [OF p [symmetric] m t [symmetric] r [symmetric]] by simp
  then show ?case using less parseredirs_step [of b s s1 tk w' s2 r w s3 c] p t r m by (auto split: if_splits)
qed

lemma parseargs_error:
  "parseargs c n b s = Inl e \<Longrightarrow>
   e \<in> {Panic ''missing file for redirection'', Panic ''syntax'', Panic ''too many args''}"
proof (induction "MAXARGS - n" arbitrary: c n s rule: less_induct)
  case less
  show ?case
  proof (cases "parseredirs c b s")
    case (Inl e')
    then show ?thesis using less.prems parseredirs_error [OF Inl] by (simp add: parseargs.simps [of c n b s])
  next
    case (Inr r)
    obtain s1 c1 where r: "r = (s1, c1)" by fastforce
    obtain s2 m where p: "peek b s1 [124, 41, 38, 59] = (s2, m)" by fastforce
    obtain tk w s3 where t: "gettoken b s2 = (tk, w, s3)" by (metis prod.exhaust)
    note u = parseargs.simps [of c n b s, unfolded Inr r, simplified, unfolded p, simplified, unfolded t, simplified]
    show ?thesis
    proof (cases "\<not> m \<and> tk = 97 \<and> n + 1 < MAXARGS")
      case True
      then have "parseargs (add_arg c1 w) (n + 1) b s3 = Inl e" using less.prems u by auto
      then show ?thesis using less.hyps [of "n + 1"] True by auto
    qed (use less.prems u in \<open>auto split: if_splits\<close>)
  qed
qed

lemma good_parseredirs:
  assumes "s \<le> length b" "cmd_ok (is_word b) c" shows "good b s (parseredirs c b s)"
proof (cases "parseredirs c b s")
  case (Inl e)
  then show ?thesis using parseredirs_error [OF Inl] by simp
next
  case (Inr r)
  then show ?thesis using parseredirs_ok [of c b s] parseredirs_mono [of c b s] assms by (cases r) simp
qed

lemma good_parseargs:
  assumes "s \<le> length b" "cmd_ok (is_word b) c" "simple_args c = Some n" shows "good b s (parseargs c n b s)"
proof (cases "parseargs c n b s")
  case (Inl e)
  then show ?thesis using parseargs_error [OF Inl] by auto
next
  case (Inr r)
  then show ?thesis using parseargs_ok [of c n b s] parseargs_mono [of c n b s] assms by (cases r) simp
qed

text \<open>After a symbol \<open>peek\<close> has seen, \<open>gettoken\<close> moves on; what follows needs less fuel.\<close>

lemma after_token:
  assumes "peek b s toks = (s1, True)" "gettoken b s1 = (tk, w, s2)"
  shows "s \<le> s2 \<and> s2 \<le> length b \<and> 4 * (length b - s2) + 4 \<le> 4 * (length b - s)"
proof -
  have "s < s2" "s2 \<le> length b" using peek_gettoken [OF assms] by auto
  then show ?thesis by simp
qed

lemma parse_good:
  assumes "s \<le> length b"
  shows "4 * (length b - s) + 4 \<le> n \<Longrightarrow> good b s (parseline n b s)"
    and "4 * (length b - s) + 3 \<le> n \<Longrightarrow> good b s (parsepipe n b s)"
    and "4 * (length b - s) + 2 \<le> n \<Longrightarrow> good b s (parseexec n b s)"
    and "4 * (length b - s) + 1 \<le> n \<Longrightarrow> good b s (parseblock n b s)"
  using assms
proof (induction n arbitrary: s)
  case (Suc n)
  {
    case 1
    note fuel = 1(1)
    have "good b s (parsepipe n b s)" using 1 Suc.IH(2) by simp
    then show ?case
    proof (simp only: parseline.simps, rule good_bind, goal_cases)
      case (1 s1 c)
      obtain s2 c2 where k: "parseback c b s1 = (s2, c2)" by fastforce
      then have k': "s1 \<le> s2" "s2 \<le> length b" "cmd_ok (is_word b) c2" using parseback_ok 1 by blast+
      obtain s3 m where p: "peek b s2 [59] = (s3, m)" by fastforce
      obtain tk w s4 where t: "gettoken b s3 = (tk, w, s4)" by (metis prod.exhaust)
      have "good b s (parseline n b s4)" if "m"
      proof -
        have *: "s2 \<le> s4 \<and> s4 \<le> length b \<and> 4 * (length b - s4) + 4 \<le> 4 * (length b - s2)"
          using after_token [of b s2 "[59]" s3 tk w s4] p t that by simp
        moreover have "4 * (length b - s2) \<le> n" using k'(1) 1(3) fuel by linarith
        ultimately have "good b s4 (parseline n b s4)" using Suc.IH(1) by simp
        then show ?thesis using * k'(1) 1(3) by (elim good_le) simp
      qed
      then have "m \<Longrightarrow> good b s (bind_r (parseline n b s4) (\<lambda>(s, d). Inr (s, listcmd c2 d)))"
        using k' by (intro good_wrap) (simp_all add: listcmd_def)
      moreover have "good b s (Inr (s3, c2))" using k' 1(3) peek_bound [OF p] by simp
      ultimately show ?case using k p t by (cases m) (simp_all del: good_Inr)
    qed
  next
    case 2
    note fuel = 2(1)
    have "good b s (parseexec n b s)" using 2 Suc.IH(3) by simp
    then show ?case
    proof (simp only: parsepipe.simps, rule good_bind, goal_cases)
      case (1 s2 c2)
      obtain s3 m where p: "peek b s2 [124] = (s3, m)" by fastforce
      obtain tk w s4 where t: "gettoken b s3 = (tk, w, s4)" by (metis prod.exhaust)
      have "good b s (parsepipe n b s4)" if "m"
      proof -
        have *: "s2 \<le> s4 \<and> s4 \<le> length b \<and> 4 * (length b - s4) + 4 \<le> 4 * (length b - s2)"
          using after_token [of b s2 "[124]" s3 tk w s4] p t that by simp
        moreover have "4 * (length b - s2) \<le> n" using 1(3) fuel by linarith
        ultimately have "good b s4 (parsepipe n b s4)" using Suc.IH(2) by simp
        then show ?thesis using * 1(3) by (elim good_le) simp
      qed
      then have "m \<Longrightarrow> good b s (bind_r (parsepipe n b s4) (\<lambda>(s, d). Inr (s, pipecmd c2 d)))"
        using 1 by (intro good_wrap) (simp_all add: pipecmd_def)
      moreover have "good b s (Inr (s3, c2))" using 1(3-5) peek_bound [OF p] by simp
      ultimately show ?case using p t by (cases m) (simp_all del: good_Inr)
    qed
  next
    case 3
    obtain s1 m where p: "peek b s [40] = (s1, m)" by fastforce
    have s1: "s \<le> s1" "s1 \<le> length b" using peek_bound [OF p] 3(2) by simp_all
    have "good b s (parseblock n b s1)" using good_le [OF Suc.IH(4) s1(1)] s1 3 by simp
    moreover have "good b s (parseargs execcmd 0 b s1)"
      using good_le [OF good_parseargs s1(1)] s1(2) by (simp add: execcmd_def MAXARGS_def)
    ultimately show ?case using p by (cases m) simp_all
  next
    case 4
    obtain s1 m where p: "peek b s [40] = (s1, m)" by fastforce
    obtain tk w s2 where t: "gettoken b s1 = (tk, w, s2)" by (metis prod.exhaust)
    show ?case
    proof (cases m)
      case True
      have s2: "s \<le> s2" "s2 \<le> length b" "4 * (length b - s2) + 4 \<le> n"
        using after_token [of b s "[40]" s1 tk w s2] p t True 4 by simp_all
      then have "good b s (parseline n b s2)" using good_le [OF Suc.IH(1)] by simp
      then have "good b s (bind_r (parseline n b s2) (\<lambda>(s, c).
        let (s, ok) = peek b s [41] in
        if \<not> ok then Inl (Panic ''syntax - missing )'')
        else let (_, _, s) = gettoken b s in parseredirs c b s))"
      proof (rule good_bind, goal_cases)
        case (1 s3 c)
        obtain s4 m where p: "peek b s3 [41] = (s4, m)" by fastforce
        obtain tk w s5 where t: "gettoken b s4 = (tk, w, s5)" by (metis prod.exhaust)
        have "good b s (parseredirs c b s5)" if "m"
        proof -
          have "s3 \<le> s5 \<and> s5 \<le> length b" using after_token [of b s3 "[41]" s4 tk w s5] p t that by simp
          then show ?thesis using good_le [OF good_parseredirs [of s5 b c]] 1(2,4) by simp
        qed
        then show ?case using p t by (cases m) simp_all
      qed
      then show ?thesis using p t True by simp
    qed (use p in simp)
  }
qed simp_all

section \<open>NUL termination\<close>

lemma fold_nul_nth:
  "i < length buf \<Longrightarrow>
   length (fold (\<lambda>(q, e) buf. buf[e := 0]) ws buf) = length buf \<and>
   fold (\<lambda>(q, e) buf. buf[e := 0]) ws buf ! i = (if i \<in> snd ` set ws then 0 else buf ! i)"
  by (induction ws arbitrary: buf) (force simp: nth_list_update)+

lemma nulterminate_length [simp]: "length (nulterminate c buf) = length buf"
proof (induction c buf rule: nulterminate.induct)
  case (1 ws buf)
  show ?case by (induction ws arbitrary: buf) auto
qed simp_all

lemma nulterminate_nth:
  "i < length buf \<Longrightarrow> nulterminate c buf ! i = (if i \<in> snd ` set_cmd c then 0 else buf ! i)"
proof (induction c buf rule: nulterminate.induct)
  case (1 ws buf)
  then show ?case using fold_nul_nth [of i buf ws] by simp
next
  case (2 c q e m d buf)
  then show ?case by (cases "i = e") (simp_all add: image_Un)
qed (simp_all add: image_Un)

text \<open>The text of a word, and the C string at an address of the line.\<close>

definition word_text :: "u8 list \<Rightarrow> word_pos \<Rightarrow> u8 list" where
  "word_text b w = (case w of (q, e) \<Rightarrow> take (e - q) (drop q b))"

definition string_at :: "u8 list \<Rightarrow> nat \<Rightarrow> u8 list" where
  "string_at buf q = takeWhile (\<lambda>x. x \<noteq> 0) (drop q buf)"

lemma cmd_ok_words: "cmd_ok P c \<Longrightarrow> w \<in> set_cmd c \<Longrightarrow> P w"
  by (induction c) auto

lemma takeWhile_take:
  assumes "n < length xs" "\<And>i. i < n \<Longrightarrow> P (xs ! i)" "\<not> P (xs ! n)"
  shows "takeWhile P xs = take n xs"
  using assms by (intro takeWhile_eq_take_P_nth) auto

lemma nulterminate_word:
  assumes "cmd_ok (is_word b) c" "(q, e) \<in> set_cmd c" "0 \<notin> set b"
  shows "string_at (nulterminate c (b @ [0])) q = word_text b (q, e)"
proof -
  define buf where "buf = nulterminate c (b @ [0])"
  have w: "q < e" "e \<le> length b" "\<And>i. q \<le> i \<Longrightarrow> i < e \<Longrightarrow> word_char (b ! i)"
    using cmd_ok_words [OF assms(1,2)] by (auto simp: is_word_def)
  have other: "i \<notin> snd ` set_cmd c" if i: "q \<le> i" "i < e" for i
  proof
    assume "i \<in> snd ` set_cmd c"
    then obtain p where "(p, i) \<in> set_cmd c" by force
    then have "i < length b \<longrightarrow> \<not> word_char (b ! i)" using cmd_ok_words [OF assms(1)] by (auto simp: is_word_def)
    then show False using w i by auto
  qed
  have len: "length buf = length b + 1" by (simp add: buf_def)
  have same: "buf ! i = b ! i" if "q \<le> i" "i < e" for i
    using nulterminate_nth [of i "b @ [0]" c] other that w(2) by (simp add: buf_def nth_append)
  have "buf ! e = 0"
    using nulterminate_nth [of e "b @ [0]" c] assms(2) w(2) by (force simp: buf_def image_iff)
  moreover have "b ! i \<noteq> 0" if "i < e" for i using assms(3) w(2) that by (metis nth_mem order_less_le_trans)
  ultimately have "takeWhile (\<lambda>x. x \<noteq> 0) (drop q buf) = take (e - q) (drop q buf)"
    using w(1,2) len same by (intro takeWhile_take) auto
  also have "\<dots> = take (e - q) (drop q b)" using w len same by (intro nth_equalityI) auto
  finally show ?thesis by (simp add: string_at_def word_text_def buf_def)
qed

section \<open>Every line\<close>

lemma parsecmd_parseline: "good b 0 (parseline (4 * length b + 4) b 0)"
  by (rule parse_good(1)) simp_all

text \<open>
  C39: \<open>parsecmd\<close> comes to an end on every line, within the depth of calls the model allows: it stops with
  one of the shell's messages, or it returns a well-formed command and prints nothing. Then every
  exec node has fewer than \<open>MAXARGS\<close> arguments, every redirection is either standard input opened for
  reading or standard output opened for writing, and every word is a maximal non-empty run of word
  characters of the line. After \<open>nulterminate\<close> the C string at the start of every word is exactly the
  text of the word, although the terminators overwrite the line.
\<close>

theorem parsecmd_total:
  assumes "0 \<notin> set b"
  shows "case parsecmd b of
      (out, Inl e) \<Rightarrow> \<exists>m. e = Panic m
    | (out, Inr (c, buf)) \<Rightarrow> out = [] \<and> length buf = length b + 1 \<and> cmd_ok (is_word b) c \<and>
        (\<forall>(q, e) \<in> set_cmd c. string_at buf q = word_text b (q, e))"
proof (cases "parseline (4 * length b + 4) b 0")
  case (Inl e)
  then show ?thesis using parsecmd_parseline [of b] by (simp add: parsecmd_def good_def)
next
  case (Inr x)
  obtain s c where x: "x = (s, c)" by (cases x)
  have "cmd_ok (is_word b) c" using parsecmd_parseline [of b] by (simp add: Inr x)
  then show ?thesis using nulterminate_word [of b c] assms by (auto simp: parsecmd_def Inr x Let_def split: prod.split)
qed

theorem parsecmd_total_witness:
  "\<exists>buf. parsecmd (cstr ''ls a>f'') = ([], Inr (REDIR (EXEC [(0, 2), (3, 4)]) (5, 6) SH_WRONLY_CREATE 1, buf)) \<and>
     cmd_ok (is_word (cstr ''ls a>f'')) (REDIR (EXEC [(0, 2), (3, 4)]) (5, 6) SH_WRONLY_CREATE 1) \<and>
     string_at buf 0 = word_text (cstr ''ls a>f'') (0, 2)"
proof -
  have "parsecmd (cstr ''ls a>f'') = ([], Inr (REDIR (EXEC [(0, 2), (3, 4)]) (5, 6) SH_WRONLY_CREATE 1, [108, 115, 0, 97, 0, 102, 0]))"
    by code_simp
  moreover have "0 \<notin> set (cstr ''ls a>f'')" by code_simp
  ultimately show ?thesis using parsecmd_total [of "cstr ''ls a>f''"] by simp
qed

end
