(* ===== verification/Shell_Print.thy ===== *)
theory Shell_Print
  imports Shell
begin

text \<open>
  The parser of \<open>xv6/sh.c\<close> understands every command: \<open>unparse\<close> writes a command down, with
  parentheses around the parts of pipes, lists and background jobs, and \<open>parsecmd\<close> reads it back.
\<close>

section \<open>Writing a command down\<close>

fun compound :: "'w cmd \<Rightarrow> bool" where
  "compound (EXEC ws) = False"
| "compound (REDIR c f m d) = False"
| "compound c = True"

fun unparse :: "u8 list cmd \<Rightarrow> u8 list" where
  "unparse (EXEC ws) = concat (map (\<lambda>w. w @ [32]) ws)"
| "unparse (REDIR c f m d) =
     (if compound c then 40 # unparse c @ [41] else unparse c) @ (if d = 0 then 60 else 62) # f @ [32]"
| "unparse (PIPE l r) = 40 # unparse l @ [41, 124, 40] @ unparse r @ [41]"
| "unparse (LIST l r) = 40 # unparse l @ [41, 59, 40] @ unparse r @ [41]"
| "unparse (BACK c) = 40 # unparse c @ [41, 38]"

definition text_ok :: "u8 list \<Rightarrow> bool" where
  "text_ok w \<longleftrightarrow> w \<noteq> [] \<and> (\<forall>c\<in>set w. word_char c \<and> c \<noteq> 0)"

text \<open>The line from a position on.\<close>

definition rest_at :: "u8 list \<Rightarrow> nat \<Rightarrow> u8 list \<Rightarrow> bool" where
  "rest_at b s r \<longleftrightarrow> s \<le> length b \<and> drop s b = r"

definition nonspace :: "u8 list \<Rightarrow> bool" where
  "nonspace r \<longleftrightarrow> r = [] \<or> \<not> whitespace (hd r)"

definition begins :: "u8 list \<Rightarrow> u8 list \<Rightarrow> bool" where
  "begins toks r \<longleftrightarrow> r \<noteq> [] \<and> hd r \<in> set toks"

lemma nonspace_Cons [simp]: "nonspace (x # r) \<longleftrightarrow> \<not> whitespace x" "nonspace []"
  by (simp_all add: nonspace_def)

lemma begins_Cons [simp]: "begins toks (x # r) \<longleftrightarrow> x \<in> set toks" "\<not> begins toks []"
  by (simp_all add: begins_def)

lemma symbol_chars [simp]:
  "\<not> whitespace 124" "\<not> whitespace 40" "\<not> whitespace 41" "\<not> whitespace 59" "\<not> whitespace 38"
  "\<not> whitespace 60" "\<not> whitespace 62" "whitespace 32"
  by (simp_all add: whitespace_def)

lemma rest_at_append: "rest_at b s (x @ r) \<Longrightarrow> rest_at b (s + length x) r"
  unfolding rest_at_def
  by (metis add.commute add_le_cancel_left append_eq_conv_conj drop_drop le_add_diff_inverse length_append length_drop le_add1)

lemma rest_at_Cons: "rest_at b s (x # r) \<Longrightarrow> rest_at b (s + 1) r"
  using rest_at_append [of b s "[x]" r] by simp

lemma rest_at_lt: "rest_at b s (x # r) \<Longrightarrow> s < length b"
  unfolding rest_at_def by (metis drop_eq_Nil list.distinct(1) not_le)

lemma rest_at_byte: "rest_at b s r \<Longrightarrow> byte_at b s = (if r = [] then 0 else hd r)"
  by (auto simp: rest_at_def byte_at_def hd_drop_conv_nth)

lemma skip_space_rest: "rest_at b s r \<Longrightarrow> nonspace r \<Longrightarrow> skip_space b s = s"
  by (cases r) (auto simp: rest_at_def skip_space_def)

lemma skip_space_one: "rest_at b s (32 # r) \<Longrightarrow> nonspace r \<Longrightarrow> skip_space b s = s + 1"
  by (cases r) (auto simp: rest_at_def skip_space_def)

lemma peek_rest: "rest_at b s r \<Longrightarrow> nonspace r \<Longrightarrow> 0 \<notin> set toks \<Longrightarrow> peek b s toks = (s, begins toks r)"
  by (auto simp: peek_def Let_def skip_space_rest rest_at_byte strchr_None begins_def)

lemma gettoken_symbol:
  assumes "rest_at b s (x # r)" "x \<in> {124, 40, 41, 59, 38, 60}" "nonspace r"
  shows "gettoken b s = (x, (s, s + 1), s + 1)"
  using assms rest_at_byte [OF assms(1)] skip_space_rest [OF assms(1)] skip_space_rest [OF rest_at_Cons [OF assms(1)]]
  by (auto simp: gettoken_def token_at_def)

lemma text_ok_hd: "text_ok w \<Longrightarrow> \<not> whitespace (hd w) \<and> \<not> symbols (hd w) \<and> hd w \<noteq> 0"
  by (auto simp: text_ok_def word_char_def)

lemma gettoken_out:
  assumes "rest_at b s (62 # w @ r)" "text_ok w"
  shows "gettoken b s = (62, (s, s + 1), s + 1)"
proof -
  have r: "rest_at b (s + 1) (w @ r)" using rest_at_Cons [OF assms(1)] .
  have w: "w \<noteq> []" "\<not> whitespace (hd w)" "hd w \<noteq> 62"
    using assms(2) text_ok_hd [OF assms(2)] by (auto simp: text_ok_def symbols_def)
  have "nonspace (w @ r)" using w by (simp add: nonspace_def)
  then show ?thesis using rest_at_byte [OF assms(1)] rest_at_byte [OF r] w
      skip_space_rest [OF assms(1)] skip_space_rest [OF r]
    by (simp add: gettoken_def token_at_def)
qed

lemma gettoken_text:
  assumes "rest_at b s (w @ 32 # r)" "text_ok w" "nonspace r"
  shows "gettoken b s = (97, (s, s + length w), s + length w + 1)" "word_text b (s, s + length w) = w"
proof -
  have w: "w \<noteq> []" "\<not> whitespace (hd w)" "\<not> symbols (hd w)" "hd w \<noteq> 0"
    using assms(2) text_ok_hd by (auto simp: text_ok_def)
  have "takeWhile word_char (w @ 32 # r) = w"
    using assms(2) by (subst takeWhile_append2) (auto simp: text_ok_def word_char_def)
  then have "skip_word b s = s + length w" using assms(1) by (simp add: skip_word_def rest_at_def)
  moreover have "byte_at b s = hd w" using rest_at_byte [OF assms(1)] w(1) by simp
  moreover have "skip_space b s = s" using skip_space_rest [OF assms(1)] w by (simp add: nonspace_def)
  moreover have "skip_space b (s + length w) = s + length w + 1"
    using skip_space_one [OF rest_at_append [OF assms(1)] assms(3)] .
  ultimately show "gettoken b s = (97, (s, s + length w), s + length w + 1)"
    using w by (auto simp: gettoken_def token_at_def symbols_def Let_def)
  show "word_text b (s, s + length w) = w" using assms(1) by (simp add: word_text_def rest_at_def)
qed

section \<open>Arguments and redirections\<close>

definition redir_of :: "word_pos cmd \<Rightarrow> word_pos \<Rightarrow> nat \<Rightarrow> word_pos cmd" where
  "redir_of c w d = (if d = 0 then REDIR c w SH_RDONLY 0 else REDIR c w SH_WRONLY_CREATE 1)"

lemma parseredirs_one:
  assumes "rest_at b s ((if d = 0 then 60 else 62) # f @ 32 # r)" "text_ok f" "nonspace r"
  shows "parseredirs c b s = parseredirs (redir_of c (s + 1, s + 1 + length f) d) b (s + 1 + length f + 1)"
proof -
  let ?x = "if d = 0 then 60 else 62 :: u8"
  have f: "rest_at b (s + 1) (f @ 32 # r)" using rest_at_Cons [OF assms(1)] .
  have "nonspace (f @ 32 # r)" using text_ok_hd [OF assms(2)] assms(2) by (simp add: nonspace_def text_ok_def)
  then have "gettoken b s = (?x, (s, s + 1), s + 1)"
    using gettoken_symbol [of b s 60 "f @ 32 # r"] gettoken_out [of b s f "32 # r"] assms by (cases "d = 0") auto
  moreover have "peek b s [60, 62] = (s, True)" using peek_rest [OF assms(1), of "[60, 62]"] by auto
  moreover note gettoken_text(1) [OF f assms(2,3)]
  ultimately have "parseredirs c b s = parseredirs (redir_by ?x c (s + 1, s + 1 + length f)) b (s + 1 + length f + 1)"
    using parseredirs_step [of b s s ?x "(s, s + 1)" "s + 1" 97 "(s + 1, s + 1 + length f)" "s + 1 + length f + 1" c] by simp
  then show ?thesis by (simp add: redir_by_def redir_of_def split: if_splits)
qed

lemma parseredirs_none: "rest_at b s r \<Longrightarrow> nonspace r \<Longrightarrow> \<not> begins [60, 62] r \<Longrightarrow> parseredirs c b s = Inr (s, c)"
  using peek_rest [of b s r "[60, 62]"] by (intro parseredirs_done) simp

lemma parseargs_redir:
  assumes "rest_at b s ((if d = 0 then 60 else 62) # f @ 32 # r)" "text_ok f" "nonspace r"
  shows "parseargs c n b s = parseargs (redir_of c (s + 1, s + 1 + length f) d) n b (s + 1 + length f + 1)"
  unfolding parseargs.simps [of c n b s] parseargs.simps [of "redir_of c (s + 1, s + 1 + length f) d" n b] parseredirs_one [OF assms] ..

lemma parseargs_stop:
  assumes "rest_at b s r" "r = [] \<or> begins [124, 41, 38, 59] r"
  shows "parseargs c n b s = Inr (s, c)"
proof -
  have r: "nonspace r" "\<not> begins [60, 62] r" using assms(2) by (cases r; auto)+
  have "gettoken b s = (0, (s, s), s)" if "r = []"
    using that assms(1) rest_at_byte [OF assms(1)] skip_space_rest [OF assms(1) r(1)] by (simp add: gettoken_def token_at_def)
  then show ?thesis
    using parseredirs_none [OF assms(1) r] peek_rest [OF assms(1) r(1), of "[124, 41, 38, 59]"] assms(2)
    by (subst parseargs.simps) (auto simp: begins_def)
qed

lemma parseargs_word:
  assumes "rest_at b s (w @ 32 # r)" "text_ok w" "nonspace r" "n + 1 < MAXARGS"
  shows "parseargs c n b s = parseargs (add_arg c (s, s + length w)) (n + 1) b (s + length w + 1)"
proof -
  have "w \<noteq> []" "\<not> whitespace (hd w)" "\<not> symbols (hd w)"
    using text_ok_hd [OF assms(2)] assms(2) by (auto simp: text_ok_def)
  then have r: "nonspace (w @ 32 # r)" "\<not> begins [60, 62] (w @ 32 # r)" "\<not> begins [124, 41, 38, 59] (w @ 32 # r)"
    by (auto simp: nonspace_def begins_def symbols_def)
  show ?thesis
    using parseredirs_none [OF assms(1) r(1,2)] peek_rest [OF assms(1) r(1), of "[124, 41, 38, 59]"] r(3)
      gettoken_text(1) [OF assms(1-3)] assms(4)
    by (subst parseargs.simps) simp
qed

lemma unparse_nonspace: "cmd_ok text_ok c \<Longrightarrow> nonspace r \<Longrightarrow> nonspace (unparse c @ r)"
proof (induction c arbitrary: r)
  case (EXEC ws)
  then show ?case using text_ok_hd by (cases ws) (auto simp: nonspace_def text_ok_def)
qed auto

abbreviation texts :: "u8 list \<Rightarrow> word_pos cmd \<Rightarrow> u8 list cmd" where
  "texts b \<equiv> map_cmd (word_text b)"

lemma redir_of_texts:
  "texts b c' = c \<Longrightarrow> word_text b w = f \<Longrightarrow> redir_ok m d \<Longrightarrow> texts b (redir_of c' w d) = REDIR c f m d"
  by (auto simp: redir_of_def redir_ok_def)

lemma exec_parse:
  assumes "\<forall>w\<in>set ws. text_ok w" "length ws < MAXARGS" "rest_at b s (unparse (EXEC ws) @ r)" "nonspace r"
  shows "\<exists>ws'. map (word_text b) ws' = ws \<and>
    parseargs execcmd 0 b s = parseargs (EXEC ws') (length ws) b (s + length (unparse (EXEC ws)))"
  using assms
proof (induction ws arbitrary: r rule: rev_induct)
  case Nil
  then show ?case by (simp add: execcmd_def)
next
  case (snoc w ws)
  have w: "text_ok w" using snoc.prems by simp
  then have "nonspace (w @ 32 # r)" using text_ok_hd [OF w] by (simp add: nonspace_def text_ok_def)
  moreover have at: "rest_at b s (unparse (EXEC ws) @ w @ 32 # r)" using snoc.prems(3) by simp
  ultimately obtain ws' where ws': "map (word_text b) ws' = ws"
    "parseargs execcmd 0 b s = parseargs (EXEC ws') (length ws) b (s + length (unparse (EXEC ws)))"
    using snoc.IH [of "w @ 32 # r"] snoc.prems by auto
  have at: "rest_at b (s + length (unparse (EXEC ws))) (w @ 32 # r)" using rest_at_append [OF at] .
  show ?case
    using ws' parseargs_word [OF at w snoc.prems(4)] gettoken_text(2) [OF at w snoc.prems(4)] snoc.prems(2)
    by (intro exI [of _ "ws' @ [(s + length (unparse (EXEC ws)), s + length (unparse (EXEC ws)) + length w)]"])
      (simp add: add.assoc)
qed

lemma simple_parse:
  assumes "cmd_ok text_ok c" "simple_args c = Some n" "rest_at b s (unparse c @ r)" "nonspace r"
  shows "\<exists>c'. texts b c' = c \<and> parseargs execcmd 0 b s = parseargs c' n b (s + length (unparse c))"
  using assms
proof (induction c arbitrary: r)
  case (EXEC ws)
  then obtain ws' where "map (word_text b) ws' = ws"
    "parseargs execcmd 0 b s = parseargs (EXEC ws') n b (s + length (unparse (EXEC ws)))"
    using exec_parse [of ws b s r] by auto
  then show ?case by (intro exI [of _ "EXEC ws'"]) simp
next
  case (REDIR c f m d)
  let ?x = "if d = 0 then 60 else 62 :: u8"
  have nc: "\<not> compound c" using REDIR.prems(2) by (cases c) auto
  have f: "text_ok f" "redir_ok m d" "nonspace (?x # f @ 32 # r)" using REDIR.prems(1) by auto
  have at: "rest_at b s (unparse c @ ?x # f @ 32 # r)" using REDIR.prems(3) nc by simp
  then obtain c' where c': "texts b c' = c" "parseargs execcmd 0 b s = parseargs c' n b (s + length (unparse c))"
    using REDIR.IH [OF _ _ at f(3)] REDIR.prems(1,2) by auto
  have at: "rest_at b (s + length (unparse c)) (?x # f @ 32 # r)" using rest_at_append [OF at] .
  let ?w = "(s + length (unparse c) + 1, s + length (unparse c) + 1 + length f)"
  have "word_text b ?w = f" using gettoken_text(2) [OF rest_at_Cons [OF at] f(1)] REDIR.prems(4) by simp
  then have "texts b (redir_of c' ?w d) = REDIR c f m d" using redir_of_texts c'(1) f(2) by simp
  moreover have "parseargs execcmd 0 b s = parseargs (redir_of c' ?w d) n b (s + length (unparse (REDIR c f m d)))"
    using parseargs_redir [OF at f(1) REDIR.prems(4)] c'(2) nc by (simp add: add.assoc)
  ultimately show ?case by blast
qed simp_all

section \<open>Reading it back\<close>

definition reads_line :: "u8 list cmd \<Rightarrow> bool" where
  "reads_line c \<longleftrightarrow>
     (\<forall>b s r n. rest_at b s (unparse c @ r) \<longrightarrow> r = [] \<or> begins [41] r \<longrightarrow> 4 * (length b - s) + 4 \<le> n \<longrightarrow>
        (\<exists>c'. texts b c' = c \<and> parseline n b s = Inr (s + length (unparse c), c')))"

definition reads_exec :: "u8 list \<Rightarrow> u8 list cmd \<Rightarrow> bool" where
  "reads_exec t c \<longleftrightarrow>
     (\<forall>b s r n. rest_at b s (t @ r) \<longrightarrow> r = [] \<or> begins [124, 41, 38, 59] r \<longrightarrow> 4 * (length b - s) + 2 \<le> n \<longrightarrow>
        (\<exists>c'. texts b c' = c \<and> parseexec n b s = Inr (s + length t, c')))"

lemma ends_nonspace: "r = [] \<or> begins [124, 41, 38, 59] r \<Longrightarrow> nonspace r \<and> \<not> begins [60, 62] r"
  by (cases r) auto

lemma paren_parse:
  assumes "reads_line c" "cmd_ok text_ok c" "rest_at b s (40 # unparse c @ 41 # r)" "nonspace r"
    "4 * (length b - s) + 2 \<le> n"
  shows "\<exists>c'. texts b c' = c \<and> parseexec n b s = parseredirs c' b (s + length (unparse c) + 2)"
proof -
  define k where "k = n - 2"
  have n: "n = Suc (Suc k)" "4 * (length b - (s + 1)) + 4 \<le> k"
    using rest_at_lt [OF assms(3)] assms(5) by (simp_all add: k_def)
  have ns: "nonspace (unparse c @ 41 # r)" using unparse_nonspace [OF assms(2)] by simp
  have at1: "rest_at b (s + 1) (unparse c @ 41 # r)" using rest_at_Cons [OF assms(3)] .
  have at2: "rest_at b (s + 1 + length (unparse c)) (41 # r)" using rest_at_append [OF at1] .
  obtain c' where c': "texts b c' = c" "parseline k b (s + 1) = Inr (s + 1 + length (unparse c), c')"
    using assms(1) at1 n(2) unfolding reads_line_def by fastforce
  have "peek b s [40] = (s, True)" using peek_rest [OF assms(3), of "[40]"] by simp
  moreover have "gettoken b s = (40, (s, s + 1), s + 1)" using gettoken_symbol [OF assms(3) _ ns] by simp
  moreover have "peek b (s + 1 + length (unparse c)) [41] = (s + 1 + length (unparse c), True)"
    using peek_rest [OF at2, of "[41]"] by simp
  moreover have "snd (snd (gettoken b (s + 1 + length (unparse c)))) = s + 1 + length (unparse c) + 1"
    using gettoken_symbol [OF at2 _ assms(4)] by simp
  ultimately have "parseexec n b s = parseredirs c' b (s + length (unparse c) + 2)"
    using c'(2) n(1) by (simp add: split_def)
  then show ?thesis using c'(1) by blast
qed

lemma reads_exec_paren:
  assumes "reads_line c" "cmd_ok text_ok c"
  shows "reads_exec (40 # unparse c @ [41]) c"
  unfolding reads_exec_def
proof (intro allI impI, goal_cases)
  case (1 b s r n)
  have at: "rest_at b s (40 # unparse c @ 41 # r)" using 1(1) by simp
  have ns: "nonspace r" "\<not> begins [60, 62] r" using ends_nonspace [OF 1(2)] by auto
  obtain c' where c': "texts b c' = c" "parseexec n b s = parseredirs c' b (s + length (unparse c) + 2)"
    using paren_parse [OF assms at ns(1) 1(3)] by blast
  have "rest_at b (s + length (unparse c) + 2) r"
    using rest_at_append [OF 1(1)] by (simp add: add.assoc)
  then show ?case using c' parseredirs_none ns by (intro exI [of _ c']) simp
qed

lemma reads_execD:
  assumes "reads_exec t c" "rest_at b s (t @ r)" "r = [] \<or> begins [124, 41, 38, 59] r" "4 * (length b - s) + 2 \<le> n"
  obtains c' where "texts b c' = c" "parseexec n b s = Inr (s + length t, c')" "rest_at b (s + length t) r"
    "nonspace r"
  using assms rest_at_append [OF assms(2)] ends_nonspace [OF assms(3)] unfolding reads_exec_def by blast

lemma parsepipe_one:
  assumes "reads_exec t c" "rest_at b s (t @ r)" "r = [] \<or> begins [41, 38, 59] r" "4 * (length b - s) + 3 \<le> n"
  shows "\<exists>c'. texts b c' = c \<and> parsepipe n b s = Inr (s + length t, c')"
proof -
  obtain k where n: "n = Suc k" "4 * (length b - s) + 2 \<le> k" using assms(4) by (cases n) auto
  have "r = [] \<or> begins [124, 41, 38, 59] r" "\<not> begins [124] r" using assms(3) by (cases r; auto)+
  then show ?thesis using assms(1,2) n peek_rest [of b "s + length t" r "[124]"]
    by (elim reads_execD) (auto simp del: parseexec.simps)
qed

lemma parseback_none:
  "rest_at b s r \<Longrightarrow> nonspace r \<Longrightarrow> \<not> begins [38] r \<Longrightarrow> parseback c b s = (s, c)"
  using peek_rest [of b s r "[38]"] by (simp add: parseback.simps [of c b s])

lemma parseback_one:
  assumes "rest_at b s (38 # r)" "nonspace r" "\<not> begins [38] r"
  shows "parseback c b s = (s + 1, BACK c)"
  using peek_rest [OF assms(1), of "[38]"] gettoken_symbol [OF assms(1) _ assms(2)]
    parseback_none [OF rest_at_Cons [OF assms(1)] assms(2,3)]
  by (simp add: parseback.simps [of c b s] backcmd_def)

text \<open>The three ways a line can continue after its first part.\<close>

lemma parseline_plain:
  assumes "reads_exec t c" "rest_at b s (t @ r)" "r = [] \<or> begins [41] r" "4 * (length b - s) + 4 \<le> n"
  shows "\<exists>c'. texts b c' = c \<and> parseline n b s = Inr (s + length t, c')"
proof -
  obtain k where n: "n = Suc k" "4 * (length b - s) + 3 \<le> k" using assms(4) by (cases n) auto
  have r: "r = [] \<or> begins [41, 38, 59] r" "nonspace r" "\<not> begins [38] r" "\<not> begins [59] r"
    using assms(3) by (cases r; auto)+
  obtain c' where c': "texts b c' = c" "parsepipe k b s = Inr (s + length t, c')"
    using parsepipe_one [OF assms(1,2) r(1) n(2)] by blast
  have at: "rest_at b (s + length t) r" using rest_at_append [OF assms(2)] .
  show ?thesis using c' n(1) parseback_none [OF at r(2,3)] peek_rest [OF at r(2), of "[59]"] r(4) by simp
qed

lemma parseline_back:
  assumes "reads_exec t c" "rest_at b s (t @ 38 # r)" "r = [] \<or> begins [41] r" "4 * (length b - s) + 4 \<le> n"
  shows "\<exists>c'. texts b c' = BACK c \<and> parseline n b s = Inr (s + length t + 1, c')"
proof -
  obtain k where n: "n = Suc k" "4 * (length b - s) + 3 \<le> k" using assms(4) by (cases n) auto
  have r: "nonspace r" "\<not> begins [38] r" "\<not> begins [59] r" using assms(3) by (cases r; auto)+
  obtain c' where c': "texts b c' = c" "parsepipe k b s = Inr (s + length t, c')"
    using parsepipe_one [OF assms(1,2) _ n(2)] by auto
  have at: "rest_at b (s + length t) (38 # r)" using rest_at_append [OF assms(2)] .
  show ?thesis
    using c' n(1) parseback_one [OF at r(1,2)] peek_rest [OF rest_at_Cons [OF at] r(1), of "[59]"] r(3) by auto
qed

lemma parseline_list:
  assumes "reads_exec t c" "reads_exec t' d" "rest_at b s (t @ 59 # t' @ r)" "nonspace (t' @ r)"
    "r = [] \<or> begins [41] r" "4 * (length b - s) + 4 \<le> n"
  shows "\<exists>c'. texts b c' = LIST c d \<and> parseline n b s = Inr (s + length t + 1 + length t', c')"
proof -
  obtain k where n: "n = Suc k" "4 * (length b - s) + 3 \<le> k" using assms(6) by (cases n) auto
  obtain c' where c': "texts b c' = c" "parsepipe k b s = Inr (s + length t, c')"
    using parsepipe_one [OF assms(1,3) _ n(2)] by auto
  have at: "rest_at b (s + length t) (59 # t' @ r)" using rest_at_append [OF assms(3)] .
  have "4 * (length b - (s + length t + 1)) + 4 \<le> k" using rest_at_lt [OF at] n(2) by simp
  then obtain d' where d': "texts b d' = d" "parseline k b (s + length t + 1) = Inr (s + length t + 1 + length t', d')"
    using parseline_plain [OF assms(2) rest_at_Cons [OF at] assms(5)] by blast
  have "parseback c' b (s + length t) = (s + length t, c')" using parseback_none [OF at] by simp
  moreover have "peek b (s + length t) [59] = (s + length t, True)" using peek_rest [OF at, of "[59]"] by simp
  moreover have "gettoken b (s + length t) = (59, (s + length t, s + length t + 1), s + length t + 1)"
    using gettoken_symbol [OF at _ assms(4)] by simp
  ultimately show ?thesis using c' d' n(1) by (intro exI [of _ "LIST c' d'"]) (simp add: listcmd_def)
qed

lemma parseline_pipe:
  assumes "reads_exec t c" "reads_exec t' d" "rest_at b s (t @ 124 # t' @ r)" "nonspace (t' @ r)"
    "r = [] \<or> begins [41] r" "4 * (length b - s) + 4 \<le> n"
  shows "\<exists>c'. texts b c' = PIPE c d \<and> parseline n b s = Inr (s + length t + 1 + length t', c')"
proof -
  define k where "k = n - 2"
  have n: "n = Suc (Suc k)" "4 * (length b - s) + 2 \<le> k" using assms(6) by (auto simp: k_def)
  obtain c' where c': "texts b c' = c" "parseexec k b s = Inr (s + length t, c')"
    using reads_execD [OF assms(1,3) _ n(2)] by auto
  have at: "rest_at b (s + length t) (124 # t' @ r)" using rest_at_append [OF assms(3)] .
  have fuel: "4 * (length b - (s + length t + 1)) + 3 \<le> k" using rest_at_lt [OF at] n(2) by simp
  have r: "r = [] \<or> begins [41, 38, 59] r" "nonspace r" "\<not> begins [38] r" "\<not> begins [59] r"
    using assms(5) by (cases r; auto)+
  obtain d' where d': "texts b d' = d" "parsepipe k b (s + length t + 1) = Inr (s + length t + 1 + length t', d')"
    using parsepipe_one [OF assms(2) rest_at_Cons [OF at] r(1) fuel] by blast
  have at': "rest_at b (s + length t + 1 + length t') r" using rest_at_append [OF rest_at_Cons [OF at]] .
  have "peek b (s + length t) [124] = (s + length t, True)" using peek_rest [OF at, of "[124]"] by simp
  moreover have "gettoken b (s + length t) = (124, (s + length t, s + length t + 1), s + length t + 1)"
    using gettoken_symbol [OF at _ assms(4)] by simp
  ultimately have "parsepipe (Suc k) b s = Inr (s + length t + 1 + length t', PIPE c' d')"
    using c' d' by (simp add: pipecmd_def del: parseexec.simps)
  then show ?thesis using n(1) c'(1) d'(1) parseback_none [OF at' r(2,3)] peek_rest [OF at' r(2), of "[59]"] r(4)
    by (intro exI [of _ "PIPE c' d'"]) (simp del: parsepipe.simps)
qed

text \<open>Redirections after a parenthesis.\<close>

definition item :: "u8 list cmd \<Rightarrow> u8 list" where
  "item c = (if compound c then 40 # unparse c @ [41] else unparse c)"

definition reads_block :: "u8 list cmd \<Rightarrow> bool" where
  "reads_block c \<longleftrightarrow>
     (\<forall>b s r n. rest_at b s (item c @ r) \<longrightarrow> nonspace r \<longrightarrow> 4 * (length b - s) + 2 \<le> n \<longrightarrow>
        (\<exists>c'. texts b c' = c \<and> parseexec n b s = parseredirs c' b (s + length (item c))))"

lemma reads_block_redir:
  assumes "reads_block c" "cmd_ok text_ok (REDIR c f m d)"
  shows "reads_block (REDIR c f m d)"
  unfolding reads_block_def
proof (intro allI impI, goal_cases)
  case (1 b s r n)
  let ?x = "if d = 0 then 60 else 62 :: u8"
  have f: "text_ok f" "redir_ok m d" "nonspace (?x # f @ 32 # r)" using assms(2) by auto
  have at: "rest_at b s (item c @ ?x # f @ 32 # r)" using 1(1) by (simp add: item_def split: if_splits)
  then obtain c' where c': "texts b c' = c" "parseexec n b s = parseredirs c' b (s + length (item c))"
    using assms(1) f(3) 1(3) unfolding reads_block_def by blast
  have at: "rest_at b (s + length (item c)) (?x # f @ 32 # r)" using rest_at_append [OF at] .
  let ?w = "(s + length (item c) + 1, s + length (item c) + 1 + length f)"
  have "word_text b ?w = f" using gettoken_text(2) [OF rest_at_Cons [OF at] f(1) 1(2)] by simp
  then have "texts b (redir_of c' ?w d) = REDIR c f m d" using redir_of_texts c'(1) f(2) by simp
  moreover have "length (item (REDIR c f m d)) = length (item c) + 1 + length f + 1" by (simp add: item_def)
  ultimately show ?case using parseredirs_one [OF at f(1) 1(2)] c'(2)
    by (intro exI [of _ "redir_of c' ?w d"]) (simp add: add.assoc)
qed

lemma reads_block_exec: "reads_block c \<Longrightarrow> reads_exec (item c) c"
  unfolding reads_block_def reads_exec_def
  using ends_nonspace parseredirs_none rest_at_append by (metis (no_types, lifting))

lemma simple_begins:
  "cmd_ok text_ok c \<Longrightarrow> simple_args c = Some k \<Longrightarrow> \<not> begins [40] r \<Longrightarrow> \<not> begins [40] (unparse c @ r)"
proof (induction c arbitrary: r)
  case (EXEC ws)
  have "hd w \<noteq> 40 \<and> w \<noteq> []" if "text_ok w" for w
    using text_ok_hd [OF that] that by (auto simp: symbols_def text_ok_def)
  then show ?case using EXEC by (cases ws) (auto simp: begins_def)
next
  case (REDIR c f m d)
  then have "\<not> compound c" by (cases c) auto
  then show ?case using REDIR by auto
qed simp_all

lemma reads_simple:
  assumes "cmd_ok text_ok c" "simple_args c = Some k"
  shows "reads_exec (unparse c) c"
  unfolding reads_exec_def
proof (intro allI impI, goal_cases)
  case (1 b s r n)
  have ns: "nonspace (unparse c @ r)" "nonspace r" using ends_nonspace [OF 1(2)] unparse_nonspace [OF assms(1)] by auto
  have "\<not> begins [40] (unparse c @ r)" using simple_begins [OF assms, of r] 1(2) by (auto simp: begins_def)
  then have "parseexec n b s = parseargs execcmd 0 b s"
    using 1(3) peek_rest [OF 1(1) ns(1), of "[40]"] by (cases n) auto
  then show ?case using simple_parse [OF assms 1(1) ns(2)] parseargs_stop [OF rest_at_append [OF 1(1)] 1(2)] by auto
qed

lemma reads_lineI: "reads_exec (unparse c) c \<Longrightarrow> reads_line c"
  using parseline_plain unfolding reads_line_def by blast

lemma compound_block:
  assumes "reads_line c" "cmd_ok text_ok c" "compound c" shows "reads_block c"
  unfolding reads_block_def
proof (intro allI impI, goal_cases)
  case (1 b s r n)
  then show ?case using paren_parse [OF assms(1,2), of b s r n] assms(3) by (simp add: item_def)
qed

lemma reads_command: "cmd_ok text_ok c \<Longrightarrow> reads_line c \<and> (simple_args c = None \<longrightarrow> reads_block c)"
proof (induction c)
  case (EXEC ws)
  then show ?case using reads_simple reads_lineI by fastforce
next
  case (REDIR c f m d)
  show ?case
  proof (cases "simple_args c")
    case None
    then have "reads_block (REDIR c f m d)" using REDIR reads_block_redir by simp
    then show ?thesis using reads_block_exec reads_lineI by (fastforce simp: item_def)
  next
    case (Some k)
    then show ?thesis using REDIR.prems reads_simple [of "REDIR c f m d" k] reads_lineI by simp
  qed
next
  case (PIPE l r)
  have e: "reads_exec (40 # unparse l @ [41]) l" "reads_exec (40 # unparse r @ [41]) r"
    using PIPE reads_exec_paren by auto
  have "reads_line (PIPE l r)" unfolding reads_line_def
  proof (intro allI impI, goal_cases)
    case (1 b s r0 n)
    then show ?case using parseline_pipe [OF e, of b s r0 n] by (simp add: add.assoc)
  qed
  then show ?case using compound_block PIPE.prems by simp
next
  case (LIST l r)
  have e: "reads_exec (40 # unparse l @ [41]) l" "reads_exec (40 # unparse r @ [41]) r"
    using LIST reads_exec_paren by auto
  have "reads_line (LIST l r)" unfolding reads_line_def
  proof (intro allI impI, goal_cases)
    case (1 b s r0 n)
    then show ?case using parseline_list [OF e, of b s r0 n] by (simp add: add.assoc)
  qed
  then show ?case using compound_block LIST.prems by simp
next
  case (BACK c)
  have e: "reads_exec (40 # unparse c @ [41]) c" using BACK reads_exec_paren by auto
  have "reads_line (BACK c)" unfolding reads_line_def
  proof (intro allI impI, goal_cases)
    case (1 b s r0 n)
    then show ?case using parseline_back [OF e, of b s r0 n] by (simp add: add.assoc)
  qed
  then show ?case using compound_block BACK.prems by simp
qed

lemma unparse_no_nul: "cmd_ok text_ok c \<Longrightarrow> 0 \<notin> set (unparse c)"
  by (induction c) (auto simp: text_ok_def)

text \<open>The command with the C strings its pointers name.\<close>

definition strings :: "u8 list \<Rightarrow> word_pos cmd \<Rightarrow> u8 list cmd" where
  "strings buf c = map_cmd (\<lambda>(q, e). string_at buf q) c"

text \<open>
  C38: whatever the shell can express, its parser understands: for every command with at most
  \<open>MAXARGS - 1\<close> arguments per program and the two kinds of redirection, \<open>parsecmd\<close> of the command written
  down returns the command itself, its strings read through the pointers after NUL termination.
\<close>

theorem parsecmd_round_trip:
  assumes "cmd_ok text_ok c"
  shows "\<exists>c' buf. parsecmd (unparse c) = ([], Inr (c', buf)) \<and> strings buf c' = c"
proof -
  let ?b = "unparse c"
  have "rest_at ?b 0 (unparse c @ [])" by (simp add: rest_at_def)
  then obtain c' where c': "texts ?b c' = c" "parseline (4 * length ?b + 4) ?b 0 = Inr (length ?b, c')"
    using reads_command [OF assms] unfolding reads_line_def by fastforce
  have ok: "cmd_ok (is_word ?b) c'" using parsecmd_parseline [of ?b] c'(2) by simp
  have "peek ?b (length ?b) [] = (length ?b, False)" using peek_rest [of ?b "length ?b" "[]" "[]"] by (simp add: rest_at_def)
  then have "parsecmd ?b = ([], Inr (c', nulterminate c' (?b @ [0])))" using c'(2) by (simp add: parsecmd_def)
  moreover have "strings (nulterminate c' (?b @ [0])) c' = texts ?b c'" unfolding strings_def
    using nulterminate_word [OF ok _ unparse_no_nul [OF assms]] by (intro cmd.map_cong) auto
  ultimately show ?thesis using c'(1) by simp
qed

theorem parsecmd_round_trip_witness:
  "\<exists>c' buf. parsecmd (cstr ''(a b <f )|((c )&)'') = ([], Inr (c', buf)) \<and>
     strings buf c' = PIPE (REDIR (EXEC [cstr ''a'', cstr ''b'']) (cstr ''f'') SH_RDONLY 0) (BACK (EXEC [cstr ''c'']))"
proof -
  let ?c = "PIPE (REDIR (EXEC [cstr ''a'', cstr ''b'']) (cstr ''f'') SH_RDONLY 0) (BACK (EXEC [cstr ''c'']))"
  have "cmd_ok text_ok ?c" by code_simp
  moreover have "unparse ?c = cstr ''(a b <f )|((c )&)''" by code_simp
  ultimately show ?thesis using parsecmd_round_trip [of ?c] by simp
qed

end
