(* ===== verification/Spec2Isabelle.thy ===== *)
theory Spec2Isabelle
  imports Kernel_Prelude Strings Spinlock Kalloc Proc Sleep_Wakeup Sleeplock Bio Buf_Cache Log Log_Recovery Log_Tx Storage_Props Vm_User Inode Inode_Props Console Fs File_Pipe Process Exec Syscall Kernel_Props Fs_Props
    Net_Packet Nic Net_Stack Net_Frames Net_Props User_Lib User_Progs Grep Shell Shell_Print
begin

text \<open>
  A verification library for the kernel and the user programs under \<open>src/xv6\<close>: an xv6 kernel for x86,
  started by a UEFI loader, with a frame-buffer console, an in-memory disk and a small network stack.

  \<^bold>\<open>Conventions.\<close> An operation of the kernel is a function on the kernel state that returns \<open>'a res\<close>: a
  result, or the reason why the code does not go on (\<open>stop\<close>): a call of \<open>panic\<close> with its message, a
  process that goes to sleep on a channel, a spin on a lock that cannot be released, a fault, or
  \<open>NoFuel\<close>, a loop that did not end within its bound. Machine integers keep their width. A pointer into
  a static table is an index, a pointer to a page is its address. The state is a chain of extensible
  records, one per component, so that an operation works on every larger state: locks held, memory and
  the free list, the frame buffer, processes, buffers and disk, log, inodes, console, open files and
  pipes, the clock, and the network card with the tables of the protocols. A user program is a function
  of its arguments and of what its system calls return; it yields what it writes to each descriptor.

  \<^bold>\<open>Theories and the code they model.\<close>
  \<^item> \<open>Kernel_Prelude\<close>: results, channels, locks, byte arrays and little-endian integers.
  \<^item> \<open>Strings\<close>: \<open>string.c\<close> on a byte-addressed memory.
  \<^item> \<open>Spinlock\<close>: \<open>spinlock.c\<close>, the per-CPU state of \<open>proc.c\<close>, and the steps of several CPUs. The operations
    \<open>acq\<close> and \<open>rel\<close> on the set of locks held, which the other theories use, are refined by the real locks.
  \<^item> \<open>Kalloc\<close>: \<open>kalloc.c\<close>. \<open>Vm\<close>, \<open>Vm_User\<close>: \<open>vm.c\<close>, page tables in memory.
  \<^item> \<open>Proc\<close>: the process table, sleeping, waking and switching of \<open>proc.c\<close>. \<open>Sleep_Wakeup\<close>: the statements of
    \<open>sleep\<close> and \<open>wakeup\<close> interleaved by several processes. \<open>Sleeplock\<close>: \<open>sleeplock.c\<close>.
  \<^item> \<open>Bio\<close>, \<open>Buf_Cache\<close>: \<open>bio.c\<close> and \<open>memide.c\<close>. \<open>Log\<close>, \<open>Log_Recovery\<close>, \<open>Log_Tx\<close>, \<open>Storage_Props\<close>: \<open>log.c\<close>.
  \<^item> \<open>Inode\<close>, \<open>Inode_Props\<close>, \<open>Fs\<close>, \<open>Fs_Props\<close>: \<open>fs.c\<close>, from the bitmap up to path names.
  \<^item> \<open>Console\<close>: \<open>console.c\<close>, \<open>graphic.c\<close>, \<open>font.c\<close> and the output of \<open>uart.c\<close>.
  \<^item> \<open>File_Pipe\<close>: \<open>file.c\<close> and \<open>pipe.c\<close>. \<open>Process\<close>: \<open>userinit\<close>, \<open>growproc\<close>, \<open>fork\<close>, \<open>exit\<close>, \<open>wait\<close>, \<open>forkret\<close>.
  \<^item> \<open>Exec\<close>: \<open>exec.c\<close> and \<open>loaduvm\<close>. \<open>Syscall\<close>: \<open>syscall.c\<close>, \<open>sysproc.c\<close>, \<open>sysfile.c\<close>. \<open>Kernel_Props\<close>: their properties.
  \<^item> \<open>Net_Packet\<close>: \<open>pkts_hdr.h\<close>, byte order and checksums. \<open>Nic\<close>: \<open>i8254.c\<close> and \<open>pci.c\<close>. \<open>Net_Stack\<close>: \<open>eth.c\<close>, \<open>arp.c\<close>,
    \<open>ipv4.c\<close>, \<open>icmp.c\<close>, \<open>tcp.c\<close>, \<open>http.c\<close>. \<open>Net_Frames\<close>, \<open>Net_Props\<close>: their properties. How the card reacts to its
    registers is the parameter \<open>nic_dev\<close>.
  \<^item> \<open>User_Lib\<close>: \<open>ulib.c\<close> and \<open>printf.c\<close>. \<open>User_Progs\<close>: \<open>cat.c\<close>, \<open>echo.c\<close>, \<open>hello.c\<close>, \<open>wc.c\<close>, \<open>kill.c\<close>, \<open>ln.c\<close>, \<open>mkdir.c\<close>,
    \<open>rm.c\<close>, \<open>ls.c\<close>. \<open>Grep\<close>: \<open>grep.c\<close>. \<open>Shell\<close>, \<open>Shell_Print\<close>: the parser of \<open>sh.c\<close>.

  \<^bold>\<open>Interfaces.\<close> \<open>lock_api\<close> is what clients use of a lock, \<open>page_allocator\<close> of the allocator, \<open>block_cache\<close> of
  the buffer cache and \<open>tx_store\<close> of the log; each is interpreted on the definitions that model the
  code, and the theories above use the facts of the interpretation.

  \<^bold>\<open>What is shown.\<close>
  \<^item> Storage: a crash at any block write of a commit or of recovery leaves all or nothing of the
    transaction in the blocks outside the log, whose extent is the \<open>nlog\<close> blocks of the superblock;
    \<open>end_op\<close> makes it durable; reservations keep the log header from overflowing; the cache returns the
    current block and recycles the least recently used buffer.
  \<^item> File system: block allocation takes the lowest free block, freeing is exact, inodes survive the
    round trip to disk, \<open>readi\<close> returns the bytes of the file.
  \<^item> Memory: the allocator is a stack of pages; growing and shrinking a process map and free exactly
    the pages meant; \<open>copyout\<close> writes exactly the bytes meant; argument pointers and strings stay inside
    the process.
  \<^item> Processes: mutual exclusion, no lost wake-up, the hand-over at exit; pipes and the console input
    refine a queue and a line editor also where their 32-bit counters wrap around.
  \<^item> Network: ARP requests and ICMP echo requests are answered by the right frames, with checksums that
    verify; the ARP table is a map as long as it has room.
  \<^item> Programs: \<open>grep\<close> prints exactly the matching lines; the parser of the shell ends on every line with
    a message or a well-formed command, and reads back every command that is written down.
  \<^item> Defects: theorems show what the code does where that is not what it means to do, such as \<open>kill(0)\<close>,
    shrinking a process to nothing, echoing control characters, a log one block too small for the
    reservations, a full ARP table, a full send ring, the TCP checksum, booting without a network card,
    and \<open>grep\<close> on a pipe.

  \<^bold>\<open>Bounds.\<close> A loop over a list or a table is structural recursion. Loops over pages, directory entries and
  bitmap blocks carry the number of items in the range plus two, which covers a partial item and the
  last test; \<open>namex\<close> carries the length of the path plus one, and every larger bound gives the same
  result. The scans of the buffer list carry one turn more than there are buffers. The parser of the
  shell carries four calls per byte of the line and four more, which is shown to suffice.
  The receive loop of the card, which never ends in the source, is given a number of turns, and so is
  the wait for its EEPROM.

  \<^bold>\<open>Concurrency.\<close> \<open>Spinlock\<close> interleaves the steps of CPUs, \<open>Sleep_Wakeup\<close> the statements of \<open>sleep\<close> and
  \<open>wakeup\<close>, \<open>Storage_Props\<close> the calls of \<open>begin_op\<close>, \<open>log_write\<close> and \<open>end_op\<close>. The other operations are
  sequential: an operation runs until it returns or sleeps, and the locks it takes are part of the
  state. A loop that can sleep half-way is a definition of its own that shows the progress made.

  \<^bold>\<open>Not modelled.\<close> Traps and interrupt dispatch, the keyboard, the interrupt controllers, the IDE driver
  (the kernel that is built uses the in-memory disk), boot code and the UEFI loader, which program
  devices or call firmware; the host program \<open>mkfs\<close>; \<open>malloc\<close>, the part of the shell that forks and
  executes, \<open>init\<close> and the test programs. Messages that the kernel prints while it does something else
  (\<open>iinit\<close>, \<open>allocuvm\<close>, \<open>exec\<close>, an unknown system call) and the listing of \<open>procdump\<close> are left out. Counters
  that the source keeps in an \<open>int\<close> and only counts up and down or compares (process ids, reference
  counts, the depth of \<open>pushcli\<close>) are integers without a bound.
\<close>

end
